(* ===== verification/Go_Prelude.thy ===== *)
theory Go_Prelude
  imports Main "HOL-Library.Finite_Map" "HOL-Library.Word" "HOL-Library.Multiset"
begin

text \<open>
  Shared vocabulary of the development: the outcomes of a Go call that may end the process,
  Go maps as finite maps with the two operations the sources use beyond lookup and update
  (\<open>len\<close> and indexing with a zero value), and the generic lemmas on lists and maps that the
  component theories rely on.

  Conventions. A Go \<open>map[K]V\<close> is a finite map \<open>('k, 'v) fmap\<close>; a Go slice is a list (a nil
  slice is \<open>[]\<close>); a call of \<open>log.Fatal\<close> or a panic is a left value of a sum; a channel that the
  model only writes to is the list of what was sent, oldest first.
\<close>

section \<open>Process exits\<close>

text \<open>\<open>log.Fatal\<close> ends the process, \<open>log.Panic\<close>, \<open>panic\<close> and the run-time checks raise a panic.\<close>

datatype go_exit = Fatal string | Panic string

type_synonym 'a go = "go_exit + 'a"

definition go_bind :: "'a go \<Rightarrow> ('a \<Rightarrow> 'b go) \<Rightarrow> 'b go" where
  "go_bind m f = (case m of Inl e \<Rightarrow> Inl e | Inr a \<Rightarrow> f a)"

lemma go_bind_simps [simp]:
  "go_bind (Inl e) f = Inl e"
  "go_bind (Inr a) f = f a"
  by (simp_all add: go_bind_def)

lemma go_bind_Inr_iff:
  "go_bind m f = Inr b \<longleftrightarrow> (\<exists>a. m = Inr a \<and> f a = Inr b)"
  by (cases m) simp_all

section \<open>Rule collections\<close>

named_theorems inv_intros \<open>introduction rules that re-establish the component invariants\<close>
named_theorems go_simps \<open>equations of the component operations used by the property proofs\<close>

section \<open>Go maps\<close>

text \<open>\<open>len(m)\<close> of a map.\<close>

definition fm_len :: "('k, 'v) fmap \<Rightarrow> nat" where
  "fm_len m = fcard (fmdom m)"

lemma fm_len_0_iff [simp]: "fm_len m = 0 \<longleftrightarrow> m = fmempty"
proof
  assume "fm_len m = 0"
  then have "fmdom m = {||}"
    by (simp add: fm_len_def fcard_0_eq)
  then show "m = fmempty"
    by (intro fmap_ext) (metis fempty_iff fmdom_notD fmempty_lookup)
qed (simp add: fm_len_def)

lemma fm_len_empty [simp]: "fm_len fmempty = 0"
  by simp

lemma fmempty_iff_lookup: "m = fmempty \<longleftrightarrow> (\<forall>k. fmlookup m k = None)"
  by (metis fmap_ext fmempty_lookup)

lemma fmdrop_eq_empty_iff:
  "fmdrop k m = fmempty \<longleftrightarrow> (\<forall>k'. k' \<noteq> k \<longrightarrow> fmlookup m k' = None)"
  by (auto simp: fmempty_iff_lookup)

lemma fmupd_neq_empty [simp]: "fmupd k v m \<noteq> fmempty" "fmempty \<noteq> fmupd k v m"
  by (auto simp: fmempty_iff_lookup)

text \<open>\<open>m[k]\<close> where the values are slices: a missing key reads as the nil slice.\<close>

definition fm_getl :: "('k, 'v list) fmap \<Rightarrow> 'k \<Rightarrow> 'v list" where
  "fm_getl m k = (case fmlookup m k of None \<Rightarrow> [] | Some l \<Rightarrow> l)"

lemma fm_getl_simps [simp]:
  "fm_getl fmempty k = []"
  "fm_getl (fmupd k v m) k' = (if k = k' then v else fm_getl m k')"
  "fm_getl (fmdrop k m) k' = (if k = k' then [] else fm_getl m k')"
  by (auto simp: fm_getl_def)

text \<open>
  \<open>for k := range m\<close> visits every key once, in an order the language leaves open. The order is
  an argument of the definitions that iterate; \<open>enumerates ks m\<close> says that \<open>ks\<close> is such an order.
\<close>

definition enumerates :: "'k list \<Rightarrow> ('k, 'v) fmap \<Rightarrow> bool" where
  "enumerates ks m \<longleftrightarrow> distinct ks \<and> set ks = fmdom' m"

lemma enumerates_lookup: "enumerates ks m \<Longrightarrow> k \<in> set ks \<longleftrightarrow> fmlookup m k \<noteq> None"
  by (auto simp: enumerates_def fmlookup_dom'_iff)

lemma enumerates_perm: "enumerates ks m \<Longrightarrow> enumerates ks' m \<Longrightarrow> mset ks = mset ks'"
  by (simp add: enumerates_def set_eq_iff_mset_eq_distinct [symmetric])

lemma enumerates_len: "enumerates ks m \<Longrightarrow> length ks = fm_len m"
  by (metis distinct_card enumerates_def fcard.rep_eq fm_len_def fmdom'_alt_def)

section \<open>Lists\<close>

lemma list_all_filter_id: "list_all P xs \<Longrightarrow> filter P xs = xs"
  by (induction xs) auto

lemma set_map_filter_iff: "y \<in> set (List.map_filter f xs) \<longleftrightarrow> (\<exists>x \<in> set xs. f x = Some y)"
  by (induction xs) (auto simp: map_filter_simps split: option.splits)

lemma mset_map_filter: "mset xs = mset ys \<Longrightarrow> mset (List.map_filter f xs) = mset (List.map_filter f ys)"
  by (simp add: List.map_filter_def)

lemma fold_append_concat: "fold (\<lambda>x acc. acc @ f x) xs a = a @ concat (map f xs)"
  by (induction xs arbitrary: a) auto

text \<open>An invariant that every step keeps holds after a fold.\<close>

lemma fold_inv:
  assumes "P s" and "\<And>x s. x \<in> set xs \<Longrightarrow> P s \<Longrightarrow> P (f x s)"
  shows "P (fold f xs s)"
  using assms by (induction xs arbitrary: s) auto

lemma fold_map_commute:
  assumes "\<And>x s. x \<in> set xs \<Longrightarrow> P s \<Longrightarrow> P (f x s) \<and> h (f x s) = g x (h s)" and "P s"
  shows "h (fold f xs s) = fold g xs (h s)"
  using assms by (induction xs arbitrary: s) auto

end
