(* ===== verification/Go_Strings.thy ===== *)
theory Go_Strings
  imports Go_Prelude
begin

text \<open>
  The functions of Go's \<open>strings\<close> and \<open>strconv\<close> packages that the sources call.

  A Go string is a byte string, here \<^typ>\<open>string\<close> (one \<^typ>\<open>char\<close> per byte). \<open>strings.ToLower\<close> is
  modelled on ASCII: the names the DNS library hands out are in presentation format, in which
  every byte outside printable ASCII is escaped.
\<close>

text \<open>Evaluation of characters built from code points, for the closed examples.\<close>

lemma char_of_code: "char_of (n :: nat) = c \<longleftrightarrow> n mod 256 = of_char c"
  by (simp add: char_of_eq_iff take_bit_eq_mod)

section \<open>Case folding\<close>

definition toLowerChar :: "char \<Rightarrow> char" where
  "toLowerChar c = (if 65 \<le> (of_char c :: nat) \<and> of_char c \<le> (90 :: nat)
                    then char_of (of_char c + 32 :: nat) else c)"

definition toLower :: "string \<Rightarrow> string" where
  "toLower s = map toLowerChar s"

lemma toLowerChar_idem [simp]: "toLowerChar (toLowerChar c) = toLowerChar c"
  by (auto simp: toLowerChar_def)

lemma toLower_idem [simp]: "toLower (toLower s) = toLower s"
  by (simp add: toLower_def)

lemma toLower_Nil [simp]: "toLower [] = []"
  by (simp add: toLower_def)

lemma toLower_append [simp]: "toLower (s @ t) = toLower s @ toLower t"
  by (simp add: toLower_def)

lemma length_toLower [simp]: "length (toLower s) = length s"
  by (simp add: toLower_def)

definition is_lower :: "string \<Rightarrow> bool" where
  "is_lower s \<longleftrightarrow> toLower s = s"

lemma is_lower_toLower [simp]: "is_lower (toLower s)"
  by (simp add: is_lower_def)

section \<open>Splitting\<close>

text \<open>\<open>strings.SplitN(s, sep, 2)\<close> for a one-byte separator: at most one cut, at the first \<open>sep\<close>.\<close>

fun splitN2 :: "char \<Rightarrow> string \<Rightarrow> string list" where
  "splitN2 sep [] = [[]]"
| "splitN2 sep (c # cs) =
     (if c = sep then [[], cs]
      else (case splitN2 sep cs of [] \<Rightarrow> [[c]] | w # ws \<Rightarrow> (c # w) # ws))"

lemma splitN2_no_sep: "sep \<notin> set s \<Longrightarrow> splitN2 sep s = [s]"
  by (induction s) auto

lemma splitN2_sep: "sep \<notin> set l \<Longrightarrow> splitN2 sep (l @ sep # r) = [l, r]"
  by (induction l) auto

text \<open>\<open>strings.Split(s, sep)\<close>: a cut at every \<open>sep\<close>.\<close>

fun split :: "char \<Rightarrow> string \<Rightarrow> string list" where
  "split sep [] = [[]]"
| "split sep (c # cs) =
     (if c = sep then [] # split sep cs
      else (case split sep cs of [] \<Rightarrow> [[c]] | w # ws \<Rightarrow> (c # w) # ws))"

lemma split_nonempty [simp]: "split sep s \<noteq> []"
  by (cases s) (auto split: list.splits)

lemma split_no_sep: "sep \<notin> set s \<Longrightarrow> split sep s = [s]"
  by (induction s) auto

lemma split_at_last:
  "sep \<notin> set r \<Longrightarrow> last (split sep (l @ sep # r)) = r \<and> 2 \<le> length (split sep (l @ sep # r))"
proof (induction l)
  case (Cons c l)
  then show ?case
    by (cases "split sep (l @ sep # r)") auto
qed (simp add: split_no_sep)

lemma last_split: "sep \<notin> set r \<Longrightarrow> last (split sep (l @ sep # r)) = r"
  by (simp add: split_at_last)

section \<open>Decimal numbers\<close>

definition digit :: "nat \<Rightarrow> char" where
  "digit d = char_of (48 + d)"

definition undigit :: "char \<Rightarrow> nat option" where
  "undigit c = (if 48 \<le> (of_char c :: nat) \<and> of_char c \<le> (57 :: nat)
                then Some (of_char c - 48) else None)"

lemma undigit_digit [simp]: "d < 10 \<Longrightarrow> undigit (digit d) = Some d"
  by (simp add: undigit_def digit_def)

text \<open>\<open>strconv.Itoa\<close> on a non-negative number.\<close>

fun decimal :: "nat \<Rightarrow> string" where
  "decimal n = (if n < 10 then [digit n] else decimal (n div 10) @ [digit (n mod 10)])"

declare decimal.simps [simp del]

fun undec_acc :: "nat \<Rightarrow> string \<Rightarrow> nat option" where
  "undec_acc a [] = Some a"
| "undec_acc a (c # cs) = (case undigit c of None \<Rightarrow> None | Some d \<Rightarrow> undec_acc (10 * a + d) cs)"

text \<open>The digits of \<open>strconv.ParseUint(s, 10, 64)\<close>: a non-empty string of decimal digits.\<close>

definition undecimal :: "string \<Rightarrow> nat option" where
  "undecimal s = (if s = [] then None else undec_acc 0 s)"

lemma decimal_nonempty [simp]: "decimal n \<noteq> []"
  by (subst decimal.simps) simp

lemma undec_acc_append:
  "undec_acc a (s @ t) = Option.bind (undec_acc a s) (\<lambda>b. undec_acc b t)"
  by (induction s arbitrary: a) (auto split: option.splits)

lemma undec_acc_decimal: "undec_acc 0 (decimal n) = Some n"
proof (induction n rule: decimal.induct)
  case (1 n)
  show ?case
  proof (cases "n < 10")
    case True
    then show ?thesis by (subst decimal.simps) simp
  next
    case False
    with 1 have "undec_acc 0 (decimal (n div 10)) = Some (n div 10)" by simp
    with False show ?thesis
      by (subst decimal.simps) (simp add: undec_acc_append)
  qed
qed

lemma undecimal_decimal [simp]: "undecimal (decimal n) = Some n"
  by (simp add: undecimal_def undec_acc_decimal)

lemma decimal_inject [simp]: "decimal m = decimal n \<longleftrightarrow> m = n"
  by (metis option.inject undecimal_decimal)

text \<open>
  \<open>strconv.Atoi\<close> on a 64-bit platform: an optional sign, then decimal digits; the value has to
  fit an \<open>int\<close>.
\<close>

definition atoi_range :: "int \<Rightarrow> int option" where
  "atoi_range i = (if - (2 ^ 63) \<le> i \<and> i < 2 ^ 63 then Some i else None)"

definition atoi :: "string \<Rightarrow> int option" where
  "atoi s = (case s of
       [] \<Rightarrow> None
     | c # cs \<Rightarrow>
         if c = CHR ''-'' then Option.bind (undecimal cs) (\<lambda>n. atoi_range (- int n))
         else if c = CHR ''+'' then Option.bind (undecimal cs) (\<lambda>n. atoi_range (int n))
         else Option.bind (undecimal s) (\<lambda>n. atoi_range (int n)))"

lemma undigit_sign [simp]: "undigit CHR ''-'' = None" "undigit CHR ''+'' = None"
  by (simp_all add: undigit_def)

lemma undecimal_sign:
  "undecimal (CHR ''-'' # cs) = None" "undecimal (CHR ''+'' # cs) = None"
  by (simp_all add: undecimal_def)

lemma atoi_decimal [simp]: "n < 2 ^ 63 \<Longrightarrow> atoi (decimal n) = Some (int n)"
proof -
  assume n: "n < 2 ^ 63"
  obtain c cs where ccs: "decimal n = c # cs"
    by (cases "decimal n") auto
  have "undecimal (c # cs) = Some n"
    by (metis ccs undecimal_decimal)
  moreover have "c \<noteq> CHR ''-''" "c \<noteq> CHR ''+''"
    using calculation undecimal_sign by auto
  moreover have "int n < 2 ^ 63"
    using n by (simp add: zless_nat_eq_int_zless [symmetric])
  ultimately show ?thesis
    using ccs by (simp add: atoi_def atoi_range_def)
qed

end
