(* ===== verification/Go_Json.thy ===== *)
theory Go_Json
  imports Go_Strings "HOL-Library.List_Lexorder" "HOL-Library.Char_ord"
begin

text \<open>
  Go's \<open>encoding/json\<close> as the sources use it: the text of a value (\<open>printJson\<close>, \<open>parseJson\<close>), and
  how maps, slices, strings, unsigned integers and structs are marshalled to and unmarshalled
  from it. The last section proves the round trips the snapshot code depends on.

  Bounds of the model: bytes above ASCII are copied (the sources marshal ASCII only), escaped
  surrogates are rejected, and the parser's fuel is twice the length of the input, which the
  round trip shows to be enough for every printed value.
\<close>

section \<open>Values\<close>

datatype json =
    JNull
  | JBool bool
  | JNumber string
  | JString string
  | JArray "json list"
  | JObject "(string \<times> json) list"

section \<open>Printing\<close>

definition hexDigit :: "nat \<Rightarrow> char" where
  "hexDigit d = (if d < 10 then char_of (48 + d) else char_of (87 + d))"

definition escapeChar :: "char \<Rightarrow> string" where
  "escapeChar c =
     (let n = of_char c :: nat in
      if n = 34 then [CHR 0x5C, CHR 0x22]
      else if n = 92 then [CHR 0x5C, CHR 0x5C]
      else if n = 10 then [CHR 0x5C, CHR ''n'']
      else if n = 13 then [CHR 0x5C, CHR ''r'']
      else if n = 9 then [CHR 0x5C, CHR ''t'']
      else if n < 32 \<or> n \<in> {38, 60, 62}
      then [CHR 0x5C, CHR ''u'', CHR ''0'', CHR ''0'', hexDigit (n div 16), hexDigit (n mod 16)]
      else [c])"

definition printString :: "string \<Rightarrow> string" where
  "printString s = CHR 0x22 # concat (map escapeChar s) @ [CHR 0x22]"

fun commaSep :: "string list \<Rightarrow> string" where
  "commaSep [] = []"
| "commaSep [x] = x"
| "commaSep (x # y # xs) = x @ CHR '','' # commaSep (y # xs)"

fun printJson :: "json \<Rightarrow> string" where
  "printJson JNull = ''null''"
| "printJson (JBool b) = (if b then ''true'' else ''false'')"
| "printJson (JNumber lit) = lit"
| "printJson (JString s) = printString s"
| "printJson (JArray js) = CHR ''['' # commaSep (map printJson js) @ '']''"
| "printJson (JObject kvs) =
     CHR ''{'' # commaSep (map (\<lambda>(k, j). printString k @ CHR '':'' # printJson j) kvs) @ ''}''"

section \<open>Parsing\<close>

definition isWs :: "char \<Rightarrow> bool" where
  "isWs c \<longleftrightarrow> (of_char c :: nat) \<in> {9, 10, 13, 32}"

definition skipWs :: "string \<Rightarrow> string" where
  "skipWs s = dropWhile isWs s"

definition unhex :: "char \<Rightarrow> nat option" where
  "unhex c = (let n = of_char c :: nat in
     if 48 \<le> n \<and> n \<le> 57 then Some (n - 48)
     else if 97 \<le> n \<and> n \<le> 102 then Some (n - 87)
     else if 65 \<le> n \<and> n \<le> 70 then Some (n - 55) else None)"

definition utf8 :: "nat \<Rightarrow> string" where
  "utf8 n = (if n < 128 then [char_of n]
     else if n < 2048 then [char_of (192 + n div 64), char_of (128 + n mod 64)]
     else [char_of (224 + n div 4096), char_of (128 + n div 64 mod 64), char_of (128 + n mod 64)])"

definition unhex4 :: "char \<Rightarrow> char \<Rightarrow> char \<Rightarrow> char \<Rightarrow> string option" where
  "unhex4 a b c d = (case (unhex a, unhex b, unhex c, unhex d) of
       (Some w, Some x, Some y, Some z) \<Rightarrow>
         (let n = ((w * 16 + x) * 16 + y) * 16 + z
          in if 55296 \<le> n \<and> n < 57344 then None else Some (utf8 n))
     | _ \<Rightarrow> None)"

definition unescapeChar :: "char \<Rightarrow> char option" where
  "unescapeChar e =
     (if e \<in> {CHR 0x22, CHR 0x5C, CHR ''/''} then Some e
      else if e = CHR ''n'' then Some (CHR 0x0A)
      else if e = CHR ''r'' then Some (CHR 0x0D)
      else if e = CHR ''t'' then Some (CHR 0x09)
      else if e = CHR ''b'' then Some (CHR 0x08)
      else if e = CHR ''f'' then Some (CHR 0x0C) else None)"

text \<open>The rest of a string literal, after its opening quote.\<close>

fun parseString :: "string \<Rightarrow> (string \<times> string) option" where
  "parseString [] = None"
| "parseString (c # cs) =
     (if c = CHR 0x22 then Some ([], cs)
      else if c = CHR 0x5C then
        (case cs of
           [] \<Rightarrow> None
         | e # es \<Rightarrow>
             if e = CHR ''u'' then
               (case es of
                  h1 # h2 # h3 # h4 # es' \<Rightarrow>
                    (case unhex4 h1 h2 h3 h4 of None \<Rightarrow> None
                     | Some u \<Rightarrow> map_option (apfst ((@) u)) (parseString es'))
                | _ \<Rightarrow> None)
             else (case unescapeChar e of None \<Rightarrow> None
                   | Some d \<Rightarrow> map_option (apfst ((#) d)) (parseString es)))
      else if (of_char c :: nat) < 32 then None
      else map_option (apfst ((#) c)) (parseString cs))"

definition isDigit :: "char \<Rightarrow> bool" where
  "isDigit c \<longleftrightarrow> 48 \<le> (of_char c :: nat) \<and> of_char c \<le> (57 :: nat)"

definition isNumChar :: "char \<Rightarrow> bool" where
  "isNumChar c \<longleftrightarrow> isDigit c \<or> c \<in> set ''+-.eE''"

text \<open>The JSON number grammar: sign, integer part without leading zeros, fraction, exponent.\<close>

definition validExp :: "string \<Rightarrow> bool" where
  "validExp s = (case s of [] \<Rightarrow> True
     | c # cs \<Rightarrow> c \<in> {CHR ''e'', CHR ''E''} \<and>
         (let ds = (case cs of d # ds \<Rightarrow> if d \<in> {CHR ''+'', CHR ''-''} then ds else cs | [] \<Rightarrow> [])
          in ds \<noteq> [] \<and> list_all isDigit ds))"

definition validFrac :: "string \<Rightarrow> bool" where
  "validFrac s = (case s of
       [] \<Rightarrow> True
     | c # cs \<Rightarrow> if c = CHR ''.''
                 then takeWhile isDigit cs \<noteq> [] \<and> validExp (dropWhile isDigit cs)
                 else validExp s)"

definition validNumber :: "string \<Rightarrow> bool" where
  "validNumber s =
     (let u = (case s of c # cs \<Rightarrow> if c = CHR ''-'' then cs else s | [] \<Rightarrow> [])
      in case u of
           [] \<Rightarrow> False
         | c # cs \<Rightarrow> isDigit c \<and>
             (if c = CHR ''0'' then validFrac cs else validFrac (dropWhile isDigit cs)))"

fun parseLit :: "string \<Rightarrow> json \<Rightarrow> string \<Rightarrow> (json \<times> string) option" where
  "parseLit [] v s = Some (v, s)"
| "parseLit (l # ls) v [] = None"
| "parseLit (l # ls) v (c # cs) = (if l = c then parseLit ls v cs else None)"

fun parseValue :: "nat \<Rightarrow> string \<Rightarrow> (json \<times> string) option"
  and parseElems :: "nat \<Rightarrow> string \<Rightarrow> (json list \<times> string) option"
  and parseMembers :: "nat \<Rightarrow> string \<Rightarrow> ((string \<times> json) list \<times> string) option" where
  "parseValue 0 s = None"
| "parseValue (Suc n) s =
     (case skipWs s of
        [] \<Rightarrow> None
      | c # cs \<Rightarrow>
          if c = CHR ''{'' then
            (case skipWs cs of
               [] \<Rightarrow> None
             | d # ds \<Rightarrow> if d = CHR ''}'' then Some (JObject [], ds)
                         else map_option (apfst JObject) (parseMembers n cs))
          else if c = CHR ''['' then
            (case skipWs cs of
               [] \<Rightarrow> None
             | d # ds \<Rightarrow> if d = CHR '']'' then Some (JArray [], ds)
                         else map_option (apfst JArray) (parseElems n cs))
          else if c = CHR 0x22 then map_option (apfst JString) (parseString cs)
          else if c = CHR ''n'' then parseLit ''ull'' JNull cs
          else if c = CHR ''t'' then parseLit ''rue'' (JBool True) cs
          else if c = CHR ''f'' then parseLit ''alse'' (JBool False) cs
          else (let lit = takeWhile isNumChar (c # cs)
                in if validNumber lit then Some (JNumber lit, dropWhile isNumChar (c # cs))
                   else None))"
| "parseElems 0 s = None"
| "parseElems (Suc n) s =
     (case parseValue n s of
        None \<Rightarrow> None
      | Some (v, r) \<Rightarrow>
          (case skipWs r of
             [] \<Rightarrow> None
           | d # ds \<Rightarrow>
               if d = CHR '','' then map_option (apfst ((#) v)) (parseElems n ds)
               else if d = CHR '']'' then Some ([v], ds) else None))"
| "parseMembers 0 s = None"
| "parseMembers (Suc n) s =
     (case skipWs s of
        [] \<Rightarrow> None
      | q # qs \<Rightarrow>
          if q \<noteq> CHR 0x22 then None
          else (case parseString qs of
             None \<Rightarrow> None
           | Some (k, r) \<Rightarrow>
               (case skipWs r of
                  [] \<Rightarrow> None
                | d # ds \<Rightarrow>
                    if d \<noteq> CHR '':'' then None
                    else (case parseValue n ds of
                       None \<Rightarrow> None
                     | Some (v, r') \<Rightarrow>
                         (case skipWs r' of
                            [] \<Rightarrow> None
                          | e # es \<Rightarrow>
                              if e = CHR '','' then map_option (apfst ((#) (k, v))) (parseMembers n es)
                              else if e = CHR ''}'' then Some ([(k, v)], es) else None)))))"

text \<open>
  \<open>json.Unmarshal\<close> wants one value and nothing after it; a \<open>json.Decoder\<close> reads the first value.
\<close>

definition parseJson :: "string \<Rightarrow> json option" where
  "parseJson s = (case parseValue (2 * length s + 2) s of
       None \<Rightarrow> None
     | Some (v, r) \<Rightarrow> if skipWs r = [] then Some v else None)"

definition decodeJson :: "string \<Rightarrow> json option" where
  "decodeJson s = map_option fst (parseValue (2 * length s + 2) s)"

section \<open>The text round trip\<close>

text \<open>The values Go prints: every number literal is a JSON number.\<close>

fun okJson :: "json \<Rightarrow> bool" where
  "okJson (JNumber lit) \<longleftrightarrow> validNumber lit \<and> list_all isNumChar lit"
| "okJson (JArray js) \<longleftrightarrow> (\<forall>j \<in> set js. okJson j)"
| "okJson (JObject kvs) \<longleftrightarrow> (\<forall>kv \<in> set kvs. okJson (snd kv))"
| "okJson _ \<longleftrightarrow> True"

lemma unhex_hexDigit: "d < 16 \<Longrightarrow> unhex (hexDigit d) = Some d"
  by (auto simp: unhex_def hexDigit_def Let_def)

lemma char_eq_code: "c = d \<longleftrightarrow> (of_char c :: nat) = of_char d"
  by simp

lemma parseString_escape:
  "parseString (escapeChar c @ r) = map_option (apfst ((#) c)) (parseString r)"
proof -
  define n where "n = (of_char c :: nat)"
  have n: "n < 256" "char_of n = c" by (simp_all add: n_def)
  have lit: "c = CHR 0x22 \<longleftrightarrow> n = 34" "c = CHR 0x5C \<longleftrightarrow> n = 92" "c = CHR 0x0A \<longleftrightarrow> n = 10"
    "c = CHR 0x0D \<longleftrightarrow> n = 13" "c = CHR 0x09 \<longleftrightarrow> n = 9"
    by (simp_all add: char_eq_code n_def del: of_char_eq_iff)
  show ?thesis
  proof (cases "n < 32 \<and> n \<notin> {9, 10, 13} \<or> n \<in> {38, 60, 62}")
    case True
    have "unhex CHR ''0'' = Some 0" by (simp add: unhex_def Let_def)
    moreover have "unhex (hexDigit (n div 16)) = Some (n div 16)"
      and "unhex (hexDigit (n mod 16)) = Some (n mod 16)"
      using n(1) by (auto intro!: unhex_hexDigit)
    moreover have "utf8 n = [c]" using True n by (auto simp: utf8_def)
    ultimately have "unhex4 CHR ''0'' CHR ''0'' (hexDigit (n div 16)) (hexDigit (n mod 16)) = Some [c]"
      using n(1) True by (auto simp: unhex4_def Let_def)
    moreover have "escapeChar c = [CHR 0x5C, CHR ''u'', CHR ''0'', CHR ''0'',
        hexDigit (n div 16), hexDigit (n mod 16)]"
      using True by (auto simp: escapeChar_def n_def [symmetric] Let_def)
    moreover have "((@) [c]) = (#) c" by (rule ext) simp
    ultimately show ?thesis by simp
  next
    case False
    then show ?thesis
      by (auto simp: escapeChar_def n_def [symmetric] Let_def unescapeChar_def lit)
        (simp_all add: lit [symmetric])
  qed
qed

lemma parseString_print: "parseString (concat (map escapeChar s) @ CHR 0x22 # r) = Some (s, r)"
  by (induction s) (simp_all add: parseString_escape)

text \<open>How much fuel a value needs: at most twice the length of its text.\<close>

fun need :: "json \<Rightarrow> nat" where
  "need (JArray js) = 2 + sum_list (map (\<lambda>j. Suc (need j)) js)"
| "need (JObject kvs) = 2 + sum_list (map (\<lambda>kv. Suc (need (snd kv))) kvs)"
| "need _ = 1"

lemma length_commaSep: "sum_list (map length xs) + length xs \<le> Suc (length (commaSep xs))"
  by (induction xs rule: commaSep.induct) auto

text \<open>What a printed value starts with.\<close>

definition startsValue :: "string \<Rightarrow> bool" where
  "startsValue s \<longleftrightarrow> (\<exists>c cs. s = c # cs \<and> \<not> isWs c \<and> c \<noteq> CHR '']'' \<and> c \<noteq> CHR ''}'')"

lemma isNumChar_cases:
  "isNumChar c \<Longrightarrow> \<not> isWs c \<and> c \<notin> set ''[]{},:ntf'' \<and> c \<noteq> CHR 0x22"
  by (auto simp: isNumChar_def isDigit_def isWs_def)

lemma startsValue_print: "okJson j \<Longrightarrow> startsValue (printJson j @ r)"
proof (cases j)
  case (JNumber lit)
  assume "okJson j"
  with JNumber obtain c cs where "lit = c # cs" "isNumChar c"
    by (cases lit) (auto simp: validNumber_def)
  with JNumber isNumChar_cases [of c] show ?thesis by (auto simp: startsValue_def)
qed (auto simp: startsValue_def isWs_def printString_def)

lemma skipWs_starts: "startsValue s \<Longrightarrow> skipWs s = s"
  by (auto simp: startsValue_def skipWs_def)

lemma skipWs_Cons: "\<not> isWs c \<Longrightarrow> skipWs (c # s) = c # s"
  by (simp add: skipWs_def)

lemma isWs_punct [simp]:
  "\<not> isWs CHR '',''" "\<not> isWs CHR '']''" "\<not> isWs CHR ''}''" "\<not> isWs CHR '':''" "\<not> isWs CHR 0x22"
  "\<not> isWs CHR ''{''" "\<not> isWs CHR ''[''" "\<not> isWs CHR ''n''" "\<not> isWs CHR ''t''" "\<not> isWs CHR ''f''"
  by (simp_all add: isWs_def)

definition endsValue :: "string \<Rightarrow> bool" where
  "endsValue r \<longleftrightarrow> (case r of [] \<Rightarrow> True | c # _ \<Rightarrow> \<not> isNumChar c)"

lemma endsValue_simps [simp]:
  "endsValue []" "endsValue (CHR '','' # r)" "endsValue (CHR '']'' # r)" "endsValue (CHR ''}'' # r)"
  by (simp_all add: endsValue_def isNumChar_def isDigit_def)

definition reads :: "json \<Rightarrow> bool" where
  "reads j \<longleftrightarrow> (\<forall>n r. need j \<le> n \<longrightarrow> endsValue r \<longrightarrow> parseValue n (printJson j @ r) = Some (j, r))"

lemma parseElems_print:
  assumes "js \<noteq> []" and "\<And>j. j \<in> set js \<Longrightarrow> reads j"
    and "sum_list (map (\<lambda>j. Suc (need j)) js) \<le> n"
  shows "parseElems n (commaSep (map printJson js) @ CHR '']'' # r) = Some (js, r)"
  using assms
proof (induction js arbitrary: n)
  case (Cons j js)
  then obtain m where m: "n = Suc m" "need j \<le> m" by (cases n) auto
  have j: "parseValue m (printJson j @ r') = Some (j, r')" if "endsValue r'" for r'
    using Cons.prems(2) [of j] m(2) that by (auto simp: reads_def)
  show ?case
  proof (cases js)
    case Nil
    with m j show ?thesis by (simp add: skipWs_Cons)
  next
    case (Cons k ks)
    have "parseElems m (commaSep (map printJson js) @ CHR '']'' # r) = Some (js, r)"
      using Cons Cons.prems m by (intro Cons.IH) auto
    with Cons m j show ?thesis by (simp add: skipWs_Cons)
  qed
qed simp

lemma parseMembers_print:
  assumes "kvs \<noteq> []" and "\<And>kv. kv \<in> set kvs \<Longrightarrow> reads (snd kv)"
    and "sum_list (map (\<lambda>kv. Suc (need (snd kv))) kvs) \<le> n"
  shows "parseMembers n (commaSep (map (\<lambda>(k, j). printString k @ CHR '':'' # printJson j) kvs)
                          @ CHR ''}'' # r) = Some (kvs, r)"
  using assms
proof (induction kvs arbitrary: n)
  case (Cons kv kvs)
  obtain k j where kv: "kv = (k, j)" by fastforce
  from Cons.prems(3) kv obtain m where m: "n = Suc m" "need j \<le> m" by (cases n) auto
  have j: "parseValue m (printJson j @ r') = Some (j, r')" if "endsValue r'" for r'
    using Cons.prems(2) [of kv] kv m(2) that by (auto simp: reads_def)
  show ?case
  proof (cases kvs)
    case Nil
    with m j kv show ?thesis
      by (simp add: skipWs_Cons printString_def parseString_print)
  next
    case (Cons k' ks)
    have "parseMembers m (commaSep (map (\<lambda>(k, j). printString k @ CHR '':'' # printJson j) kvs)
            @ CHR ''}'' # r) = Some (kvs, r)"
      using Cons Cons.prems m kv by (intro Cons.IH) auto
    with Cons m j kv show ?thesis
      by (simp add: skipWs_Cons printString_def parseString_print)
  qed
qed simp

lemma takeWhile_number:
  "list_all isNumChar lit \<Longrightarrow> endsValue r \<Longrightarrow>
     takeWhile isNumChar (lit @ r) = lit \<and> dropWhile isNumChar (lit @ r) = r"
  by (induction lit) (auto simp: endsValue_def split: list.splits)

lemma commaSep_starts:
  "xs \<noteq> [] \<Longrightarrow> startsValue (hd xs @ r') \<Longrightarrow> hd xs \<noteq> [] \<Longrightarrow> startsValue (commaSep xs @ r)"
  by (cases xs rule: commaSep.cases; cases "hd xs") (auto simp: startsValue_def)

lemma printJson_nonempty: "okJson j \<Longrightarrow> printJson j \<noteq> []"
  by (cases j) (auto simp: validNumber_def printString_def)

lemma startsValue_Cons:
  "startsValue (c # cs) \<longleftrightarrow> \<not> isWs c \<and> c \<noteq> CHR '']'' \<and> c \<noteq> CHR ''}''"
  by (simp add: startsValue_def)

lemma reads_array:
  assumes "okJson (JArray js)" and "\<And>j. j \<in> set js \<Longrightarrow> reads j"
  shows "reads (JArray js)"
  unfolding reads_def
proof (intro allI impI)
  fix n r
  assume n: "need (JArray js) \<le> n" and "endsValue r"
  then obtain m where m: "n = Suc m" "sum_list (map (\<lambda>j. Suc (need j)) js) \<le> m"
    by (cases n) auto
  show "parseValue n (printJson (JArray js) @ r) = Some (JArray js, r)"
  proof (cases "js = []")
    case True
    with m show ?thesis by (simp add: skipWs_Cons)
  next
    case False
    define b where "b = commaSep (map printJson js) @ CHR '']'' # r"
    have "startsValue b"
      unfolding b_def
    proof (rule commaSep_starts)
      show "startsValue (hd (map printJson js) @ [])" "hd (map printJson js) \<noteq> []"
        using False assms(1) startsValue_print [of "hd js" "[]"]
        by (simp_all add: hd_map printJson_nonempty)
    qed (use False in simp)
    moreover from this obtain c cs where "b = c # cs" by (auto simp: startsValue_def)
    moreover have "parseElems m b = Some (js, r)"
      unfolding b_def using False assms(2) m by (intro parseElems_print) auto
    ultimately show ?thesis
      using m by (simp add: skipWs_Cons b_def [symmetric] startsValue_Cons)
  qed
qed

lemma reads_object:
  assumes "\<And>kv. kv \<in> set kvs \<Longrightarrow> reads (snd kv)"
  shows "reads (JObject kvs)"
  unfolding reads_def
proof (intro allI impI)
  fix n r
  assume n: "need (JObject kvs) \<le> n" and "endsValue r"
  then obtain m where m: "n = Suc m" "sum_list (map (\<lambda>kv. Suc (need (snd kv))) kvs) \<le> m"
    by (cases n) auto
  show "parseValue n (printJson (JObject kvs) @ r) = Some (JObject kvs, r)"
  proof (cases kvs)
    case Nil
    with m show ?thesis by (simp add: skipWs_Cons)
  next
    case (Cons kv kvs')
    define b where "b = commaSep (map (\<lambda>(k, j). printString k @ CHR '':'' # printJson j) kvs)
                          @ CHR ''}'' # r"
    obtain cs where "b = CHR 0x22 # cs"
      unfolding b_def Cons by (cases kvs') (auto simp: printString_def split_beta)
    moreover have "parseMembers m b = Some (kvs, r)"
      unfolding b_def using Cons assms m by (intro parseMembers_print) auto
    ultimately show ?thesis
      using m by (simp add: skipWs_Cons b_def [symmetric])
  qed
qed

lemma reads_number:
  assumes "okJson (JNumber lit)"
  shows "reads (JNumber lit)"
  unfolding reads_def
proof (intro allI impI)
  fix n r
  assume "need (JNumber lit) \<le> n" and r: "endsValue r"
  then obtain m where m: "n = Suc m" by (cases n) auto
  from assms obtain c cs where lit: "lit = c # cs" "isNumChar c"
    by (cases lit) (auto simp: validNumber_def)
  from takeWhile_number [of lit r] assms r
  have "takeWhile isNumChar (lit @ r) = lit" "dropWhile isNumChar (lit @ r) = r" by auto
  with isNumChar_cases [OF lit(2)] assms lit(1) m
  show "parseValue n (printJson (JNumber lit) @ r) = Some (JNumber lit, r)"
    by (auto simp: skipWs_Cons Let_def)
qed

theorem reads_all: "okJson j \<Longrightarrow> reads j"
proof (induction j)
  case (JNumber lit)
  then show ?case by (rule reads_number)
next
  case (JArray js)
  then show ?case by (intro reads_array) auto
next
  case (JObject kvs)
  show ?case
  proof (rule reads_object)
    fix kv assume "kv \<in> set kvs"
    with JObject show "reads (snd kv)" by (cases kv) force
  qed
qed (auto simp: reads_def skipWs_Cons printString_def parseString_print Suc_le_eq gr0_conv_Suc)

lemma sum_Suc_le:
  assumes "\<And>x. x \<in> set xs \<Longrightarrow> f x \<le> 2 * g x"
  shows "sum_list (map (\<lambda>x. Suc (f x)) xs) \<le> length xs + 2 * sum_list (map g xs)"
  using assms by (induction xs) (simp, force)

lemma need_le: "okJson j \<Longrightarrow> need j \<le> 2 * length (printJson j)"
proof (induction j)
  case (JArray js)
  have "sum_list (map (\<lambda>j. Suc (need j)) js) \<le> length js + 2 * sum_list (map (length \<circ> printJson) js)"
    using JArray by (intro sum_Suc_le) simp
  moreover have "sum_list (map (length \<circ> printJson) js) + length js
      \<le> Suc (length (commaSep (map printJson js)))"
    using length_commaSep [of "map printJson js"] by simp
  ultimately show ?case by simp
next
  case (JObject kvs)
  let ?f = "\<lambda>(k, j). printString k @ CHR '':'' # printJson j"
  have "need (snd kv) \<le> 2 * length (?f kv)" if "kv \<in> set kvs" for kv
    using JObject.IH [of kv "snd kv"] JObject.prems that by (cases kv) force
  then have "sum_list (map (\<lambda>kv. Suc (need (snd kv))) kvs)
      \<le> length kvs + 2 * sum_list (map (length \<circ> ?f) kvs)"
    by (intro sum_Suc_le) simp
  moreover have "sum_list (map (length \<circ> ?f) kvs) + length kvs
      \<le> Suc (length (commaSep (map ?f kvs)))"
    using length_commaSep [of "map ?f kvs"] by (simp add: comp_def)
  ultimately show ?case by simp
next
  case (JNumber lit)
  then show ?case by (cases lit) (auto simp: validNumber_def)
qed (auto simp: printString_def)

lemma parseValue_printJson:
  assumes "okJson j" and "endsValue r"
  shows "parseValue (2 * length (printJson j @ r) + 2) (printJson j @ r) = Some (j, r)"
proof -
  from need_le [OF assms(1)] have "need j \<le> 2 * length (printJson j @ r) + 2" by simp
  with reads_all [OF assms(1)] assms(2) show ?thesis unfolding reads_def by blast
qed

lemma parseJson_printJson: "okJson j \<Longrightarrow> parseJson (printJson j) = Some j"
  using parseValue_printJson [of j "[]"]
  by (simp add: parseJson_def skipWs_def del: parseValue.simps mult_Suc_right)

lemma decodeJson_printJson: "okJson j \<Longrightarrow> endsValue r \<Longrightarrow> decodeJson (printJson j @ r) = Some j"
  using parseValue_printJson [of j r]
  by (simp add: decodeJson_def del: parseValue.simps mult_Suc_right)

section \<open>Marshalling and unmarshalling Go data\<close>

text \<open>
  Maps become objects with the keys as strings, sorted; unmarshalling stores the members in the
  order of the text. A \<open>null\<close> unmarshals to the zero value.
\<close>

definition marshalMap :: "('k::linorder \<Rightarrow> string) \<Rightarrow> ('v \<Rightarrow> json) \<Rightarrow> ('k, 'v) fmap \<Rightarrow> json" where
  "marshalMap kf vf m =
     JObject (map (\<lambda>(k, v). (kf k, vf v)) (sort_key (kf \<circ> fst) (sorted_list_of_fmap m)))"

fun unmarshalMembers ::
    "(string \<Rightarrow> 'k option) \<Rightarrow> (json \<Rightarrow> 'v option) \<Rightarrow> (string \<times> json) list
       \<Rightarrow> ('k, 'v) fmap \<Rightarrow> ('k, 'v) fmap option" where
  "unmarshalMembers kp vp [] m = Some m"
| "unmarshalMembers kp vp ((k, j) # kvs) m =
     (case (kp k, vp j) of
        (Some k', Some v) \<Rightarrow> unmarshalMembers kp vp kvs (fmupd k' v m)
      | _ \<Rightarrow> None)"

definition unmarshalMap ::
    "(string \<Rightarrow> 'k option) \<Rightarrow> (json \<Rightarrow> 'v option) \<Rightarrow> json \<Rightarrow> ('k, 'v) fmap option" where
  "unmarshalMap kp vp j = (case j of
       JNull \<Rightarrow> Some fmempty
     | JObject kvs \<Rightarrow> unmarshalMembers kp vp kvs fmempty
     | _ \<Rightarrow> None)"

definition marshalList :: "('v \<Rightarrow> json) \<Rightarrow> 'v list \<Rightarrow> json" where
  "marshalList vf vs = JArray (map vf vs)"

fun unmarshalElems :: "(json \<Rightarrow> 'v option) \<Rightarrow> json list \<Rightarrow> 'v list option" where
  "unmarshalElems vp [] = Some []"
| "unmarshalElems vp (j # js) =
     (case (vp j, unmarshalElems vp js) of (Some v, Some vs) \<Rightarrow> Some (v # vs) | _ \<Rightarrow> None)"

definition unmarshalList :: "(json \<Rightarrow> 'v option) \<Rightarrow> json \<Rightarrow> 'v list option" where
  "unmarshalList vp j = (case j of
       JNull \<Rightarrow> Some [] | JArray js \<Rightarrow> unmarshalElems vp js | _ \<Rightarrow> None)"

definition unmarshalString :: "json \<Rightarrow> string option" where
  "unmarshalString j = (case j of JNull \<Rightarrow> Some [] | JString s \<Rightarrow> Some s | _ \<Rightarrow> None)"

definition marshalUint :: "'w::len word \<Rightarrow> json" where
  "marshalUint w = JNumber (decimal (unat w))"

definition parseUint :: "string \<Rightarrow> 'w::len word option" where
  "parseUint s = (case undecimal s of
       None \<Rightarrow> None
     | Some n \<Rightarrow> if n < 2 ^ LENGTH('w) then Some (word_of_nat n) else None)"

definition unmarshalUint :: "json \<Rightarrow> 'w::len word option" where
  "unmarshalUint j = (case j of JNull \<Rightarrow> Some 0 | JNumber lit \<Rightarrow> parseUint lit | _ \<Rightarrow> None)"

text \<open>A struct field: the last member whose key matches, exactly or up to case; else the zero value.\<close>

definition unmarshalField :: "(json \<Rightarrow> 'v option) \<Rightarrow> 'v \<Rightarrow> string \<Rightarrow> (string \<times> json) list \<Rightarrow> 'v option" where
  "unmarshalField vp zero name kvs =
     (case unmarshalElems vp (map snd (filter (\<lambda>(k, _). toLower k = toLower name) kvs)) of
        None \<Rightarrow> None
      | Some vs \<Rightarrow> Some (if vs = [] then zero else last vs))"

section \<open>Round trips of the data\<close>

lemma parseUint_decimal [simp]: "parseUint (decimal (unat w)) = Some w"
  using unsigned_less [of w, where 'a=nat] by (simp add: parseUint_def)

lemma unmarshalUint_marshalUint [simp]: "unmarshalUint (marshalUint w) = Some w"
  by (simp add: unmarshalUint_def marshalUint_def)

lemma unmarshalString_JString [simp]: "unmarshalString (JString s) = Some s"
  by (simp add: unmarshalString_def)

lemma unmarshalElems_map:
  "(\<And>v. v \<in> set vs \<Longrightarrow> vp (vf v) = Some v) \<Longrightarrow> unmarshalElems vp (map vf vs) = Some vs"
  by (induction vs) auto

lemma unmarshalList_marshalList:
  "(\<And>v. v \<in> set vs \<Longrightarrow> vp (vf v) = Some v) \<Longrightarrow> unmarshalList vp (marshalList vf vs) = Some vs"
  by (simp add: unmarshalList_def marshalList_def unmarshalElems_map)

lemma unmarshalMembers_map:
  assumes "\<And>k v. (k, v) \<in> set l \<Longrightarrow> kp (kf k) = Some k \<and> vp (vf v) = Some v"
  shows "unmarshalMembers kp vp (map (\<lambda>(k, v). (kf k, vf v)) l) m
         = Some (fold (\<lambda>(k, v). fmupd k v) l m)"
  using assms
proof (induction l arbitrary: m)
  case (Cons x l)
  obtain k v where x: "x = (k, v)" by fastforce
  with Cons.prems [of k v] have "kp (kf k) = Some k" "vp (vf v) = Some v" by auto
  moreover have "unmarshalMembers kp vp (map (\<lambda>(k, v). (kf k, vf v)) l) (fmupd k v m)
      = Some (fold (\<lambda>(k, v). fmupd k v) l (fmupd k v m))"
    by (rule Cons.IH) (rule Cons.prems, simp)
  ultimately show ?case using x by simp
qed simp

lemma fold_fmupd_lookup:
  assumes "distinct (map fst l)"
  shows "fmlookup (fold (\<lambda>(k, v). fmupd k v) l m) x
         = (case map_of l x of None \<Rightarrow> fmlookup m x | Some v \<Rightarrow> Some v)"
  using assms
proof (induction l arbitrary: m)
  case (Cons y l)
  obtain k v where y: "y = (k, v)" by fastforce
  with Cons.prems have "map_of l k = None" by (simp add: map_of_eq_None_iff)
  with Cons y show ?case by (auto split: option.splits)
qed simp

lemma distinct_sorted_list_of_fmap: "distinct (map fst (sorted_list_of_fmap m))"
  by (simp add: sorted_list_of_fmap_def comp_def sorted_list_of_fset.rep_eq)

lemma mem_sorted_list_of_fmap: "(k, v) \<in> set (sorted_list_of_fmap m) \<longleftrightarrow> fmlookup m k = Some v"
  by (metis distinct_sorted_list_of_fmap map_of_eq_Some_iff map_of_sorted_list)

lemma fold_fmupd_sort_key:
  "fold (\<lambda>(k, v). fmupd k v) (sort_key f (sorted_list_of_fmap m)) fmempty = m"
proof (rule fmap_ext)
  fix x
  let ?l = "sort_key f (sorted_list_of_fmap m)"
  have "mset (map fst ?l) = mset (map fst (sorted_list_of_fmap m))" by simp
  then have d: "distinct (map fst ?l)"
    by (metis distinct_sorted_list_of_fmap mset_eq_imp_distinct_iff)
  have "map_of ?l = map_of (sorted_list_of_fmap m)"
    using d distinct_sorted_list_of_fmap by (intro map_of_inject_set [THEN iffD2]) simp_all
  with d show "fmlookup (fold (\<lambda>(k, v). fmupd k v) ?l fmempty) x = fmlookup m x"
    by (auto simp: fold_fmupd_lookup split: option.splits)
qed

lemma unmarshalMap_marshalMap:
  assumes "\<And>k v. fmlookup m k = Some v \<Longrightarrow> kp (kf k) = Some k \<and> vp (vf v) = Some v"
  shows "unmarshalMap kp vp (marshalMap kf vf m) = Some m"
proof -
  have "unmarshalMembers kp vp (map (\<lambda>(k, v). (kf k, vf v)) l) fmempty
        = Some (fold (\<lambda>(k, v). fmupd k v) l fmempty)"
    if "l = sort_key (kf \<circ> fst) (sorted_list_of_fmap m)" for l
    using that assms by (intro unmarshalMembers_map) (simp add: mem_sorted_list_of_fmap)
  then show ?thesis
    by (simp add: unmarshalMap_def marshalMap_def fold_fmupd_sort_key)
qed

lemma okJson_marshalMap:
  "(\<And>k v. fmlookup m k = Some v \<Longrightarrow> okJson (vf v)) \<Longrightarrow> okJson (marshalMap kf vf m)"
  by (auto simp: marshalMap_def mem_sorted_list_of_fmap)

lemma okJson_marshalList: "(\<And>v. v \<in> set vs \<Longrightarrow> okJson (vf v)) \<Longrightarrow> okJson (marshalList vf vs)"
  by (auto simp: marshalList_def)

lemma isDigit_digit [simp]: "d < 10 \<Longrightarrow> isDigit (digit d)"
  by (simp add: isDigit_def digit_def)

lemma decimal_digits: "list_all isDigit (decimal n)"
proof (induction n rule: decimal.induct)
  case (1 n)
  then show ?case by (subst decimal.simps) simp
qed

lemma decimal_head: "0 < n \<Longrightarrow> hd (decimal n) \<noteq> CHR ''0''"
proof (induction n rule: decimal.induct)
  case (1 n)
  show ?case
  proof (cases "n < 10")
    case True
    with 1 have "(of_char (digit n) :: nat) \<noteq> of_char CHR ''0''" by (simp add: digit_def)
    with True show ?thesis by (subst decimal.simps) (metis list.sel(1))
  next
    case False
    with 1 have "hd (decimal (n div 10)) \<noteq> CHR ''0''" by simp
    with False show ?thesis by (subst decimal.simps) simp
  qed
qed

lemma validNumber_decimal: "validNumber (decimal n)"
proof (cases "n = 0")
  case True
  have "digit 0 = CHR ''0''" by code_simp
  with True show ?thesis
    by (simp add: decimal.simps [of 0] validNumber_def isDigit_def validFrac_def)
next
  case False
  obtain c cs where ccs: "decimal n = c # cs" by (cases "decimal n") auto
  with False decimal_head [of n] have "c \<noteq> CHR ''0''" by simp
  moreover from ccs decimal_digits [of n] have "isDigit c" "list_all isDigit cs" by simp_all
  moreover from this have "c \<noteq> CHR ''-''" by (auto simp: isDigit_def)
  moreover have "validFrac (dropWhile isDigit cs)"
  proof -
    have "dropWhile isDigit cs = []"
      using \<open>list_all isDigit cs\<close> by (simp add: list_all_iff)
    then show ?thesis by (simp only: validFrac_def list.case)
  qed
  ultimately show ?thesis
    by (simp add: ccs validNumber_def)
qed

lemma okJson_marshalUint [simp]: "okJson (marshalUint w)"
  using decimal_digits [of "unat w"]
  by (auto simp: marshalUint_def validNumber_decimal isNumChar_def list_all_iff)

end
