(* ===== verification/Dns_Lib.thy ===== *)
theory Dns_Lib
  imports Go_Strings
begin

text \<open>
  The data of \<open>github.com/miekg/dns\<close> that the sources read and write, the parameters that stand
  for that library's text format, and the small helpers of \<open>dns/dns.go\<close> and \<open>dns/httpapi.go\<close> on
  names and record strings (\<open>popLeftmostLabel\<close>, \<open>stringsToRRs\<close>, \<open>checkValidRRString\<close>).

  The library itself is not under \<open>src/\<close>: parsing and printing a record are the fields of a
  \<open>dns_lib\<close> that every definition using them takes as its first argument. What the proofs need
  of them is the named hypothesis \<open>rr_text_roundtrip\<close>.
\<close>

section \<open>Records, questions and messages\<close>

type_synonym rrType = "16 word"

definition TypeA :: rrType where "TypeA = 1"
definition TypeNS :: rrType where "TypeNS = 2"
definition TypeCNAME :: rrType where "TypeCNAME = 5"
definition TypeMX :: rrType where "TypeMX = 15"

lemmas rrType_defs = TypeA_def TypeNS_def TypeCNAME_def TypeMX_def

text \<open>
  A \<open>dns.RR\<close> is an interface value; the sources read and write its header and use three of its
  dynamic types by type assertion, \<open>*dns.A\<close>, \<open>*dns.NS\<close> and \<open>*dns.CNAME\<close>.
\<close>

datatype rdata = RD_A string | RD_NS string | RD_CNAME string | RD_other string

record dnsRR =
  hdr_Name :: string
  hdr_Rrtype :: rrType
  hdr_Ttl :: "32 word"
  rr_data :: rdata

record dnsQuestion =
  q_Name :: string
  q_Qtype :: rrType

text \<open>
  The fields of \<open>dns.Msg\<close> the sources touch. The authority section can hold a nil interface
  value (see \<open>stringsToRRs\<close> below), so its elements are options.
\<close>

record dnsMsg =
  Id :: "16 word"
  Response :: bool
  RecursionDesired :: bool
  RecursionAvailable :: bool
  Questions :: "dnsQuestion list"
  Answer :: "dnsRR list"
  Ns :: "dnsRR option list"
  Extra :: "dnsRR list"

definition newMsg :: dnsMsg where
  "newMsg = \<lparr>Id = 0, Response = False, RecursionDesired = False, RecursionAvailable = False,
             Questions = [], Answer = [], Ns = [], Extra = []\<rparr>"

section \<open>The text format of records\<close>

text \<open>
  \<open>NewRR s\<close> is an error, or no record and no error (\<open>Inr None\<close>, a string without a record), or
  a record; \<open>RRString\<close> is the \<open>String\<close> method.
\<close>

record dns_lib =
  NewRR :: "string \<Rightarrow> string + dnsRR option"
  RRString :: "dnsRR \<Rightarrow> string"

text \<open>The test \<open>err == nil && rr != nil\<close> that the sources make after \<open>NewRR\<close>.\<close>

definition parseRR :: "dns_lib \<Rightarrow> string \<Rightarrow> dnsRR option" where
  "parseRR L s = (case NewRR L s of Inl _ \<Rightarrow> None | Inr rr \<Rightarrow> rr)"

text \<open>The loops that parse a list of record strings and keep what passes that test.\<close>

definition parseRRs :: "dns_lib \<Rightarrow> string list \<Rightarrow> dnsRR list" where
  "parseRRs L ss = List.map_filter (parseRR L) ss"

lemma parseRRs_simps [simp]:
  "parseRRs L [] = []"
  "parseRRs L (s # ss) = (case parseRR L s of None \<Rightarrow> parseRRs L ss | Some rr \<Rightarrow> rr # parseRRs L ss)"
  by (simp_all add: parseRRs_def map_filter_simps split: option.split)

lemma parseRRs_append [simp]: "parseRRs L (ss @ ts) = parseRRs L ss @ parseRRs L ts"
  by (induction ss) (auto split: option.splits)

lemma set_parseRRs: "rr \<in> set (parseRRs L ss) \<longleftrightarrow> (\<exists>s \<in> set ss. parseRR L s = Some rr)"
  by (induction ss) (auto split: option.splits)

text \<open>
  Documented behaviour of the library: a record that \<open>NewRR\<close> read prints as a string that
  \<open>NewRR\<close> reads back as the same record, whatever its TTL is set to.
\<close>

definition rr_text_roundtrip :: "dns_lib \<Rightarrow> bool" where
  "rr_text_roundtrip L \<longleftrightarrow>
     (\<forall>s rr t. parseRR L s = Some rr \<longrightarrow>
        parseRR L (RRString L (rr\<lparr>hdr_Ttl := t\<rparr>)) = Some (rr\<lparr>hdr_Ttl := t\<rparr>))"

lemma rr_text_roundtripD:
  "rr_text_roundtrip L \<Longrightarrow> parseRR L s = Some rr \<Longrightarrow>
     parseRR L (RRString L (rr\<lparr>hdr_Ttl := t\<rparr>)) = Some (rr\<lparr>hdr_Ttl := t\<rparr>)"
  by (auto simp: rr_text_roundtrip_def)

lemma rr_text_roundtrip_same:
  assumes "rr_text_roundtrip L" and "parseRR L s = Some rr"
  shows "parseRR L (RRString L rr) = Some rr"
  using rr_text_roundtripD [OF assms, of "hdr_Ttl rr"] by simp

section \<open>Helpers of dns.go and httpapi.go\<close>

definition popLeftmostLabel :: "string \<Rightarrow> string \<times> string" where
  "popLeftmostLabel domain = (case splitN2 CHR ''.'' domain of
       [] \<Rightarrow> ([], [])
     | [_] \<Rightarrow> ([], domain)
     | c0 # c1 # _ \<Rightarrow> (c0, c1))"

definition stringsToRRs :: "dns_lib \<Rightarrow> string list \<Rightarrow> dnsRR option list" where
  "stringsToRRs L sList =
     concat (map (\<lambda>s. case NewRR L s of Inl _ \<Rightarrow> [] | Inr rr \<Rightarrow> [rr]) sList)"

definition checkValidRRString :: "dns_lib \<Rightarrow> string \<Rightarrow> bool" where
  "checkValidRRString L s = (case NewRR L s of Inl _ \<Rightarrow> False | Inr rr \<Rightarrow> rr \<noteq> None)"

lemma checkValidRRString_iff: "checkValidRRString L s \<longleftrightarrow> parseRR L s \<noteq> None"
  by (simp add: checkValidRRString_def parseRR_def split: sum.splits)

text \<open>
  Records whose strings all parse come out of \<open>stringsToRRs\<close> as they are; a nil element needs a
  string without a record.
\<close>

lemma stringsToRRs_parseRRs:
  "List.map_filter id (stringsToRRs L ss) = parseRRs L ss"
  by (induction ss)
    (auto simp: stringsToRRs_def parseRR_def map_filter_simps split: sum.splits option.splits)

lemma stringsToRRs_no_nil:
  "(\<And>s. s \<in> set ss \<Longrightarrow> NewRR L s \<noteq> Inr None) \<Longrightarrow> stringsToRRs L ss = map Some (parseRRs L ss)"
  by (induction ss) (auto simp: stringsToRRs_def parseRR_def split: sum.splits option.splits)

section \<open>Labels\<close>

lemma splitN2_dot:
  "splitN2 sep s = [s] \<and> sep \<notin> set s \<or>
   (\<exists>l r. s = l @ sep # r \<and> sep \<notin> set l \<and> splitN2 sep s = [l, r])"
proof (cases "sep \<in> set s")
  case True
  then obtain l r where "s = l @ sep # r" "sep \<notin> set l"
    by (meson split_list_first)
  then show ?thesis by (simp add: splitN2_sep)
qed (simp add: splitN2_no_sep)

lemma popLeftmostLabel_no_dot: "CHR ''.'' \<notin> set d \<Longrightarrow> popLeftmostLabel d = ([], d)"
  by (simp add: popLeftmostLabel_def splitN2_no_sep)

lemma popLeftmostLabel_dot [simp]:
  "CHR ''.'' \<notin> set l \<Longrightarrow> popLeftmostLabel (l @ CHR ''.'' # r) = (l, r)"
  by (simp add: popLeftmostLabel_def splitN2_sep)

lemma popLeftmostLabel_SomeD:
  assumes "popLeftmostLabel d = (l, r)" and "l \<noteq> []"
  shows "d = l @ CHR ''.'' # r \<and> CHR ''.'' \<notin> set l"
  using assms splitN2_dot [of "CHR ''.''" d] by (auto simp: popLeftmostLabel_def)

lemma popLeftmostLabel_shorter:
  "popLeftmostLabel d = (l, r) \<Longrightarrow> l \<noteq> [] \<Longrightarrow> length r < length d"
  by (drule (1) popLeftmostLabel_SomeD) auto

text \<open>
  The names the wildcard loops of the sources visit for a name: what is left after removing one,
  two, ... leading labels, until an empty label or the end of the name is met.
\<close>

function parents :: "string \<Rightarrow> string list" where
  "parents rest = (let (leftLabel, rest') = popLeftmostLabel rest
                   in if leftLabel = [] then [] else rest' # parents rest')"
  by pat_completeness auto
termination
  by (relation "measure length") (auto simp: popLeftmostLabel_shorter dest: sym)

declare parents.simps [simp del]

lemma parents_label:
  "CHR ''.'' \<notin> set l \<Longrightarrow> l \<noteq> [] \<Longrightarrow> parents (l @ CHR ''.'' # r) = r # parents r"
  by (subst parents.simps) simp

lemma parents_stop: "fst (popLeftmostLabel d) = [] \<Longrightarrow> parents d = []"
  by (subst parents.simps) (simp add: split_beta)

lemma parents_suffix: "p \<in> set (parents d) \<Longrightarrow> \<exists>q. q \<noteq> [] \<and> d = q @ p"
proof (induction d rule: parents.induct)
  case (1 d)
  obtain l r where pop: "popLeftmostLabel d = (l, r)" by fastforce
  show ?case
  proof (cases "l = []")
    case True
    with pop 1(2) show ?thesis by (simp add: parents_stop)
  next
    case False
    with pop have d: "d = l @ CHR ''.'' # r" and dot: "CHR ''.'' \<notin> set l"
      by (auto dest: popLeftmostLabel_SomeD)
    from 1(2) d dot False have "p = r \<or> p \<in> set (parents r)"
      by (simp add: parents_label)
    with 1(1) [OF pop [symmetric] refl False] d show ?thesis
      by (metis append.assoc append_Cons append_Nil append_is_Nil_conv list.distinct(1))
  qed
qed

end
