(* ===== verification/Raft_Commit.thy ===== *)
theory Raft_Commit
  imports Dns_Lib
begin

text \<open>
  The stream of committed entries between \<open>dns/raft.go\<close> and the stores: the element type
  \<open>commitInfo\<close>, the proposals that travel in it (\<open>dnsProposal\<close>, gob-encoded), and the loop
  \<open>readCommits\<close> that both stores run over it, here once, over the store's own way of applying
  a commit and of recovering from a snapshot.

  The locale \<open>commit_machine\<close> is the contract a store has with that loop; its lemmas say what a
  run over the stream, a replay and a restart from a snapshot compute.
\<close>

section \<open>Commits and proposals\<close>

record commitInfo =
  ci_index :: "64 word"
  ci_data :: string

definition AddRR :: int where "AddRR = 0"
definition DeleteRR :: int where "DeleteRR = 1"

record dnsProposal =
  ProposalType :: int
  p_RRString :: string
  p_Name :: string
  p_RRType :: rrType

text \<open>
  \<open>encoding/gob\<close> is a parameter: what the sources rely on is that decoding an encoded proposal
  gives the proposal back, and that an encoding is never empty (raft drops empty entries).
\<close>

record gob_lib =
  gobEncode :: "dnsProposal \<Rightarrow> string"
  gobDecode :: "string \<Rightarrow> dnsProposal option"

definition gob_ok :: "gob_lib \<Rightarrow> bool" where
  "gob_ok G \<longleftrightarrow> (\<forall>p. gobDecode G (gobEncode G p) = Some p \<and> gobEncode G p \<noteq> [])"

lemma gob_okD [simp]: "gob_ok G \<Longrightarrow> gobDecode G (gobEncode G p) = Some p"
  by (simp add: gob_ok_def)

text \<open>The proposals of \<open>ProposeAddRR\<close> and \<open>ProposeDeleteRRs\<close>; unset fields are zero values.\<close>

definition addProposal :: "string \<Rightarrow> dnsProposal" where
  "addProposal rrString =
     \<lparr>ProposalType = AddRR, p_RRString = rrString, p_Name = [], p_RRType = 0\<rparr>"

definition deleteProposal :: "string \<Rightarrow> rrType \<Rightarrow> dnsProposal" where
  "deleteProposal name rrType =
     \<lparr>ProposalType = DeleteRR, p_RRString = [], p_Name = name, p_RRType = rrType\<rparr>"

section \<open>The commit loop\<close>

text \<open>
  What \<open>snapshotter.Load\<close> returns, and what a reader receives from \<open>commitC\<close>: an entry, a nil
  (with what \<open>Load\<close> would return at that moment), or the closing of the channel (with the error
  waiting on \<open>errorC\<close>, if it is not closed as well). The element type is a parameter: the example
  store in \<open>example/\<close> reads the same stream without indices.
\<close>

datatype load_result = ErrNoSnapshot | LoadError string | Loaded string

datatype 'c stream_event = CommitData 'c | CommitNil load_result | CommitClosed "string option"

type_synonym commit_event = "commitInfo stream_event"

datatype loop_status = Waiting | Returned

fun readLoop ::
    "('c \<Rightarrow> 's \<Rightarrow> 's go) \<Rightarrow> (string \<Rightarrow> 's \<Rightarrow> 's go) \<Rightarrow> bool
       \<Rightarrow> 'c stream_event list \<Rightarrow> 's \<Rightarrow> (loop_status \<times> 'c stream_event list \<times> 's) go" where
  "readLoop ap rec isInit [] s = Inr (Waiting, [], s)"
| "readLoop ap rec isInit (CommitNil snapshot # es) s =
     (if isInit then Inr (Returned, es, s)
      else (case snapshot of
          ErrNoSnapshot \<Rightarrow> Inr (Returned, es, s)
        | LoadError err \<Rightarrow> Inl (Panic err)
        | Loaded d \<Rightarrow> go_bind (rec d s) (readLoop ap rec isInit es)))"
| "readLoop ap rec isInit (CommitData ci # es) s =
     go_bind (ap ci s) (readLoop ap rec isInit es)"
| "readLoop ap rec isInit (CommitClosed err # es) s =
     (case err of Some e \<Rightarrow> Inl (Fatal e) | None \<Rightarrow> Inr (Returned, CommitClosed None # es, s))"

text \<open>The whole method: during initialisation the newest snapshot is loaded first.\<close>

definition readCommits ::
    "('c \<Rightarrow> 's \<Rightarrow> 's go) \<Rightarrow> (string \<Rightarrow> 's \<Rightarrow> 's go) \<Rightarrow> load_result \<Rightarrow> bool
       \<Rightarrow> 'c stream_event list \<Rightarrow> 's \<Rightarrow> (loop_status \<times> 'c stream_event list \<times> 's) go" where
  "readCommits ap rec load isInit es s =
     (if isInit
      then (case load of
          ErrNoSnapshot \<Rightarrow> readLoop ap rec isInit es s
        | LoadError err \<Rightarrow> Inl (Panic err)
        | Loaded d \<Rightarrow> go_bind (rec d s) (readLoop ap rec isInit es))
      else readLoop ap rec isInit es s)"

text \<open>
  A store's constructor: read commits until the replay is done, then go on in a goroutine. When
  the stream ends before the replay is done, the constructor is still waiting.
\<close>

definition startReading ::
    "('c \<Rightarrow> 's \<Rightarrow> 's go) \<Rightarrow> (string \<Rightarrow> 's \<Rightarrow> 's go) \<Rightarrow> load_result
       \<Rightarrow> 'c stream_event list \<Rightarrow> 's \<Rightarrow> (loop_status \<times> 'c stream_event list \<times> 's) go" where
  "startReading ap rec load es s =
     go_bind (readCommits ap rec load True es s)
       (\<lambda>(st, rest, s'). if st = Returned then readCommits ap rec load False rest s'
                         else Inr (st, rest, s'))"

section \<open>Runs\<close>

text \<open>Applying a list of commits, with no snapshot in between.\<close>

fun runCommits :: "('c \<Rightarrow> 's \<Rightarrow> 's go) \<Rightarrow> 'c list \<Rightarrow> 's \<Rightarrow> 's go" where
  "runCommits ap [] s = Inr s"
| "runCommits ap (c # cs) s = go_bind (ap c s) (runCommits ap cs)"

lemma runCommits_append:
  "runCommits ap (cs @ ds) s = go_bind (runCommits ap cs s) (runCommits ap ds)"
  by (induction cs arbitrary: s) (auto simp: go_bind_def split: sum.splits)

lemma readLoop_data:
  "readLoop ap rec isInit (map CommitData cs @ es) s
   = go_bind (runCommits ap cs s) (readLoop ap rec isInit es)"
  by (induction cs arbitrary: s) (auto simp: go_bind_def split: sum.splits)

lemma runCommits_inv:
  assumes "runCommits ap cs s = Inr s'" and "P s"
    and "\<And>c s s'. c \<in> set cs \<Longrightarrow> P s \<Longrightarrow> ap c s = Inr s' \<Longrightarrow> P s'"
  shows "P s'"
  using assms
proof (induction cs arbitrary: s)
  case (Cons c cs)
  then obtain t where t: "ap c s = Inr t" "runCommits ap cs t = Inr s'"
    by (auto simp: go_bind_Inr_iff)
  have "P t" using Cons.prems(2) t(1) by (rule Cons.prems(3) [rotated]) simp
  with t(2) show ?case by (rule Cons.IH) (rule Cons.prems(3), auto)
qed simp

text \<open>
  A replay at start-up, a nil, then live commits: the store has applied all of them, in order.
\<close>

lemma startReading_run:
  assumes "runCommits ap (cs @ ds) s = Inr s'"
  shows "startReading ap rec ErrNoSnapshot (map CommitData cs @ CommitNil l # map CommitData ds) s
         = Inr (Waiting, [], s')"
proof -
  from assms obtain t where t: "runCommits ap cs s = Inr t" "runCommits ap ds t = Inr s'"
    by (auto simp: runCommits_append go_bind_Inr_iff)
  with readLoop_data [of ap rec False ds "[]" t] show ?thesis
    by (simp add: startReading_def readCommits_def readLoop_data)
qed

section \<open>The contract of a snapshotting store\<close>

text \<open>
  \<open>view\<close> is the part of the state that is replicated. Applying a commit depends on the view
  only, and recovering from a snapshot of a state restores its view in any other state.
\<close>

locale commit_machine =
  fixes ap :: "'c \<Rightarrow> 's \<Rightarrow> 's go"
    and getSnapshot :: "'s \<Rightarrow> string"
    and recoverFromSnapshot :: "string \<Rightarrow> 's \<Rightarrow> 's go"
    and view :: "'s \<Rightarrow> 'v"
  assumes apply_view:
      "view s = view t \<Longrightarrow> rel_sum (=) (\<lambda>s' t'. view s' = view t') (ap c s) (ap c t)"
    and recover_snapshot:
      "\<exists>t'. recoverFromSnapshot (getSnapshot s) t = Inr t' \<and> view t' = view s"
begin

lemma run_view:
  "view s = view t \<Longrightarrow>
     rel_sum (=) (\<lambda>s' t'. view s' = view t') (runCommits ap cs s) (runCommits ap cs t)"
proof (induction cs arbitrary: s t)
  case (Cons c cs)
  from apply_view [OF Cons.prems, of c] show ?case
    by (cases "ap c s"; cases "ap c t") (auto intro: Cons.IH)
qed simp

lemma run_view_Inr:
  assumes "view s = view t" and "runCommits ap cs s = Inr s'"
  shows "\<exists>t'. runCommits ap cs t = Inr t' \<and> view t' = view s'"
  using run_view [OF assms(1), of cs] assms(2) by (cases "runCommits ap cs t") auto

text \<open>
  A restart: the snapshot taken after the commits \<open>cs\<close> is loaded first, the commits \<open>ds\<close> that
  follow it are replayed. The result is what the machine that applied them all has.
\<close>

lemma restart:
  assumes "runCommits ap cs s = Inr s1" and "runCommits ap ds s1 = Inr s2"
  shows "\<exists>t. readCommits ap recoverFromSnapshot (Loaded (getSnapshot s1)) True
               (map CommitData ds @ [CommitNil l]) s0 = Inr (Returned, [], t) \<and> view t = view s2"
proof -
  obtain t1 where t1: "recoverFromSnapshot (getSnapshot s1) s0 = Inr t1" "view t1 = view s1"
    using recover_snapshot by blast
  from run_view_Inr [OF t1(2) [symmetric] assms(2)]
  obtain t2 where "runCommits ap ds t1 = Inr t2" "view t2 = view s2" by blast
  with t1 show ?thesis
    by (simp add: readCommits_def readLoop_data)
qed

text \<open>
  A machine that fell behind: a nil in the running loop makes it load the snapshot, and the
  commits it had not seen are no longer needed.
\<close>

lemma catch_up:
  assumes "runCommits ap cs s = Inr s1" and "runCommits ap ds s1 = Inr s2"
  shows "\<exists>t. readCommits ap recoverFromSnapshot l False
               (CommitNil (Loaded (getSnapshot s1)) # map CommitData ds) s0 = Inr (Waiting, [], t)
             \<and> view t = view s2"
proof -
  obtain t1 where t1: "recoverFromSnapshot (getSnapshot s1) s0 = Inr t1" "view t1 = view s1"
    using recover_snapshot by blast
  from run_view_Inr [OF t1(2) [symmetric] assms(2)]
  obtain t2 where "runCommits ap ds t1 = Inr t2" "view t2 = view s2" by blast
  with t1 readLoop_data [of ap recoverFromSnapshot False ds "[]" t1] show ?thesis
    by (simp add: readCommits_def)
qed

end

end
