(* ===== verification/Sample_Lib.thy ===== *)
theory Sample_Lib
  imports Go_Json Raft_Commit
begin

text \<open>
  Concrete instances of the library parameters, for the closed examples of the development: a
  record text format (\<open>name ttl type data\<close>, separated by blanks), a proposal codec built on the
  JSON text, and a string hash. Each comes
  with the proof that it meets the hypotheses stated about the real libraries.
\<close>

section \<open>A record text format\<close>

definition sampleData :: "rrType \<Rightarrow> string \<Rightarrow> rdata" where
  "sampleData ty d = (if ty = TypeA then RD_A d else if ty = TypeNS then RD_NS d
                      else if ty = TypeCNAME then RD_CNAME d else RD_other d)"

fun rdataText :: "rdata \<Rightarrow> string" where
  "rdataText (RD_A d) = d"
| "rdataText (RD_NS d) = d"
| "rdataText (RD_CNAME d) = d"
| "rdataText (RD_other d) = d"

lemma rdataText_sampleData [simp]: "rdataText (sampleData ty d) = d"
  by (simp add: sampleData_def)

definition sampleString :: "dnsRR \<Rightarrow> string" where
  "sampleString rr = hdr_Name rr @ CHR '' '' # decimal (unat (hdr_Ttl rr)) @ CHR '' '' #
     decimal (unat (hdr_Rrtype rr)) @ CHR '' '' # rdataText (rr_data rr)"

definition sampleParse :: "string \<Rightarrow> string + dnsRR option" where
  "sampleParse s = (if s = [] then Inr None else
     case split CHR '' '' s of
       [n, t, ty, d] \<Rightarrow>
         (case (parseUint t, parseUint ty) of
            (Some t', Some ty') \<Rightarrow>
              Inr (Some \<lparr>hdr_Name = n, hdr_Rrtype = ty', hdr_Ttl = t', rr_data = sampleData ty' d\<rparr>)
          | _ \<Rightarrow> Inl ''bad number'')
     | _ \<Rightarrow> Inl ''bad record'')"

definition sampleLib :: dns_lib where
  "sampleLib = \<lparr>NewRR = sampleParse, RRString = sampleString\<rparr>"

lemma split_no_sep_elem: "w \<in> set (split sep s) \<Longrightarrow> sep \<notin> set w"
  by (induction s arbitrary: w) (auto split: if_splits list.splits)

lemma split_Cons: "sep \<notin> set w \<Longrightarrow> split sep (w @ sep # r) = w # split sep r"
  by (induction w) auto

lemma decimal_no_blank: "CHR '' '' \<notin> set (decimal n)"
  using decimal_digits [of n] by (auto simp: list_all_iff isDigit_def)

lemma sampleParse_String:
  assumes "CHR '' '' \<notin> set n" "CHR '' '' \<notin> set d"
  shows "sampleParse (sampleString \<lparr>hdr_Name = n, hdr_Rrtype = ty, hdr_Ttl = t, rr_data = sampleData ty d\<rparr>)
         = Inr (Some \<lparr>hdr_Name = n, hdr_Rrtype = ty, hdr_Ttl = t, rr_data = sampleData ty d\<rparr>)"
  using assms decimal_no_blank
  by (simp add: sampleParse_def sampleString_def split_Cons split_no_sep)

lemma sampleParse_SomeD:
  assumes "sampleParse s = Inr (Some rr)"
  shows "\<exists>n ty t d. CHR '' '' \<notin> set n \<and> CHR '' '' \<notin> set d \<and>
     rr = \<lparr>hdr_Name = n, hdr_Rrtype = ty, hdr_Ttl = t, rr_data = sampleData ty d\<rparr>"
proof -
  from assms obtain n t ty d t' ty' where sp: "split CHR '' '' s = [n, t, ty, d]"
    and rr: "rr = \<lparr>hdr_Name = n, hdr_Rrtype = ty', hdr_Ttl = t', rr_data = sampleData ty' d\<rparr>"
    by (auto simp: sampleParse_def split: if_splits list.splits option.splits)
  from sp have "n \<in> set (split CHR '' '' s)" "d \<in> set (split CHR '' '' s)" by simp_all
  then have "CHR '' '' \<notin> set n" "CHR '' '' \<notin> set d" by (auto dest: split_no_sep_elem)
  with rr show ?thesis by blast
qed

lemma sampleLib_roundtrip [simp]: "rr_text_roundtrip sampleLib"
  unfolding rr_text_roundtrip_def
proof (intro allI impI)
  fix s rr t
  assume "parseRR sampleLib s = Some rr"
  then have "sampleParse s = Inr (Some rr)"
    by (auto simp: parseRR_def sampleLib_def split: sum.splits)
  then obtain n ty t' d where "CHR '' '' \<notin> set n" "CHR '' '' \<notin> set d"
    and "rr = \<lparr>hdr_Name = n, hdr_Rrtype = ty, hdr_Ttl = t', rr_data = sampleData ty d\<rparr>"
    by (blast dest: sampleParse_SomeD)
  then show "parseRR sampleLib (RRString sampleLib (rr\<lparr>hdr_Ttl := t\<rparr>)) = Some (rr\<lparr>hdr_Ttl := t\<rparr>)"
    by (simp add: parseRR_def sampleLib_def sampleParse_String)
qed

text \<open>The record the examples use.\<close>

definition sampleRR :: "string \<Rightarrow> rrType \<Rightarrow> string \<Rightarrow> dnsRR" where
  "sampleRR n ty d = \<lparr>hdr_Name = n, hdr_Rrtype = ty, hdr_Ttl = 60, rr_data = sampleData ty d\<rparr>"

lemma sampleRR_simps [simp]:
  "hdr_Name (sampleRR n ty d) = n" "hdr_Rrtype (sampleRR n ty d) = ty"
  "hdr_Ttl (sampleRR n ty d) = 60" "rr_data (sampleRR n ty d) = sampleData ty d"
  "(sampleRR n ty d)\<lparr>hdr_Name := m\<rparr> = sampleRR m ty d"
  by (simp_all add: sampleRR_def)

lemma sampleLib_parse:
  "CHR '' '' \<notin> set n \<Longrightarrow> CHR '' '' \<notin> set d \<Longrightarrow>
     parseRR sampleLib (RRString sampleLib (sampleRR n ty d)) = Some (sampleRR n ty d)"
  by (simp add: parseRR_def sampleLib_def sampleRR_def sampleParse_String)

section \<open>A proposal codec\<close>

definition sampleEncode :: "dnsProposal \<Rightarrow> string" where
  "sampleEncode p = printJson (JArray [JBool (0 \<le> ProposalType p),
     JNumber (decimal (nat \<bar>ProposalType p\<bar>)), JString (p_RRString p), JString (p_Name p),
     marshalUint (p_RRType p)])"

definition sampleDecode :: "string \<Rightarrow> dnsProposal option" where
  "sampleDecode s = (case parseJson s of
       Some (JArray [JBool pos, JNumber ty, JString r, JString n, w]) \<Rightarrow>
         (case (undecimal ty, unmarshalUint w) of
            (Some t, Some w') \<Rightarrow>
              Some \<lparr>ProposalType = (if pos then int t else - int t), p_RRString = r, p_Name = n,
                    p_RRType = w'\<rparr>
          | _ \<Rightarrow> None)
     | _ \<Rightarrow> None)"

definition sampleGob :: gob_lib where
  "sampleGob = \<lparr>gobEncode = sampleEncode, gobDecode = sampleDecode\<rparr>"

lemma list_all_isNumChar_decimal: "list_all isNumChar (decimal n)"
  using decimal_digits [of n] by (auto simp: list_all_iff isNumChar_def)

lemma sampleGob_ok [simp]: "gob_ok sampleGob"
proof -
  have "sampleDecode (sampleEncode p) = Some p" for p
    by (simp add: sampleDecode_def sampleEncode_def parseJson_printJson validNumber_decimal
        list_all_isNumChar_decimal del: printJson.simps)
  moreover have "sampleEncode p \<noteq> []" for p
    by (simp add: sampleEncode_def)
  ultimately show ?thesis by (simp add: gob_ok_def sampleGob_def)
qed

section \<open>A string hash\<close>

definition sampleHash :: "string \<Rightarrow> 64 word" where
  "sampleHash s = push_bit 32 (word_of_nat (sum_list (map of_char s)))"

end
