(* ===== verification/Dns_Cache.thy ===== *)
theory Dns_Cache
  imports Sample_Lib
begin

text \<open>
  The cache of non-authoritative records of \<open>dns/dns_store.go\<close> (and, with the same text, of
  \<open>dns/paged_dns_store.go\<close>): a map from names to types to record strings with TTL 0, each with the
  TTL it came with and the time it was stored. The fields both stores have, \<open>proposeC\<close>, \<open>cache\<close>,
  \<open>cluster\<close> and \<open>id\<close>, form the record \<open>store_base\<close> that the two stores extend.
\<close>

section \<open>State\<close>

record cacheRRInfo =
  ci_ttl :: "32 word"
  ci_createTime :: nat

type_synonym cacheRRs = "(string, cacheRRInfo) fmap"
type_synonym cacheRRTypeMap = "(rrType, cacheRRs) fmap"
type_synonym cacheMap = "(string, cacheRRTypeMap) fmap"

text \<open>
  \<open>proposeC\<close> is what was sent on the proposal channel, \<open>whispered\<close> the cache records sent to other
  machines (address and body), both oldest first.
\<close>

record store_base =
  proposeC :: "string list"
  cache :: cacheMap
  cluster :: "string list"
  node_id :: int
  whispered :: "(string \<times> string) list"

text \<open>
  What a step reads from its surroundings: the clock in nanoseconds (one reading per call), the
  order in which \<open>range\<close> visits a cache map, and for each peer whether the goroutine that formats
  a whispered record ran while \<open>addCacheRecord\<close> had the shared record's TTL set to 0.
\<close>

record env =
  now :: nat
  rangeCache :: "cacheRRs \<Rightarrow> string list"
  early :: "string \<Rightarrow> bool"

definition env_ok :: "env \<Rightarrow> bool" where
  "env_ok E \<longleftrightarrow> (\<forall>m. enumerates (rangeCache E m) m)"

lemma env_okD: "env_ok E \<Longrightarrow> enumerates (rangeCache E m) m"
  by (simp add: env_ok_def)

section \<open>Operations\<close>

text \<open>\<open>uint32(time.Since(createTime).Seconds())\<close>: whole seconds, wrapped to 32 bits.\<close>

definition timeDiff :: "nat \<Rightarrow> nat \<Rightarrow> 32 word" where
  "timeDiff t created = word_of_nat ((t - created) div 10 ^ 9)"

definition whisperAddCacheRecord ::
    "dns_lib \<Rightarrow> env \<Rightarrow> dnsRR \<Rightarrow> 'a store_base_scheme \<Rightarrow> 'a store_base_scheme" where
  "whisperAddCacheRecord L E rr s = s\<lparr>whispered := whispered s @
     map (\<lambda>(i, peerAddr). (peerAddr @ ''/addcache'',
            if early E peerAddr then RRString L (rr\<lparr>hdr_Ttl := 0\<rparr>) else RRString L rr))
         (filter (\<lambda>(i, peerAddr). int i \<noteq> node_id s - 1)
            (List.enumerate 0 (cluster s)))\<rparr>"

definition cacheInsert :: "dns_lib \<Rightarrow> nat \<Rightarrow> dnsRR \<Rightarrow> cacheMap \<Rightarrow> cacheMap" where
  "cacheInsert L t rr c =
     (let domainName = toLower (hdr_Name rr);
          cacheMap = (case fmlookup c domainName of None \<Rightarrow> fmempty | Some m \<Rightarrow> m);
          rType = hdr_Rrtype rr;
          cacheRRs = (case fmlookup cacheMap rType of None \<Rightarrow> fmempty | Some m \<Rightarrow> m);
          crInfo = \<lparr>ci_ttl = hdr_Ttl rr, ci_createTime = t\<rparr>
      in fmupd domainName
           (fmupd rType (fmupd (RRString L (rr\<lparr>hdr_Ttl := 0\<rparr>)) crInfo cacheRRs) cacheMap) c)"

definition addCacheRecord ::
    "dns_lib \<Rightarrow> env \<Rightarrow> dnsRR \<Rightarrow> bool \<Rightarrow> 'a store_base_scheme \<Rightarrow> 'a store_base_scheme" where
  "addCacheRecord L E rr whisper s =
     (if hdr_Name rr = ''.'' then s
      else let s1 = (if whisper then whisperAddCacheRecord L E rr s else s)
           in s1\<lparr>cache := cacheInsert L (now E) rr (cache s1)\<rparr>)"

definition addCacheRecords ::
    "dns_lib \<Rightarrow> env \<Rightarrow> dnsRR list \<Rightarrow> 'a store_base_scheme \<Rightarrow> 'a store_base_scheme" where
  "addCacheRecords L E records s = fold (\<lambda>rr s. addCacheRecord L E rr True s) records s"

text \<open>One cached string: the record to answer with, or nothing when it is stale or unreadable.\<close>

definition cacheEntry :: "dns_lib \<Rightarrow> nat \<Rightarrow> string \<Rightarrow> cacheRRInfo \<Rightarrow> dnsRR option" where
  "cacheEntry L t crString crInfo =
     (let diff = timeDiff t (ci_createTime crInfo)
      in case NewRR L crString of
           Inr (Some cr) \<Rightarrow>
             if diff < ci_ttl crInfo then Some (cr\<lparr>hdr_Ttl := ci_ttl crInfo - diff\<rparr>) else None
         | _ \<Rightarrow> None)"

text \<open>The loop over the cached strings, which deletes from the map it runs over.\<close>

fun cacheScan :: "dns_lib \<Rightarrow> nat \<Rightarrow> string list \<Rightarrow> cacheRRs \<Rightarrow> dnsRR list \<times> cacheRRs" where
  "cacheScan L t [] m = ([], m)"
| "cacheScan L t (k # ks) m =
     (case fmlookup m k of
        None \<Rightarrow> cacheScan L t ks m
      | Some crInfo \<Rightarrow>
          (case cacheEntry L t k crInfo of
             Some cr \<Rightarrow> (let (crs, m') = cacheScan L t ks m in (cr # crs, m'))
           | None \<Rightarrow> cacheScan L t ks (fmdrop k m)))"

definition getCacheRecords ::
    "dns_lib \<Rightarrow> env \<Rightarrow> string \<Rightarrow> rrType \<Rightarrow> 'a store_base_scheme
       \<Rightarrow> dnsRR list \<times> 'a store_base_scheme" where
  "getCacheRecords L E domainName qType s =
     (case fmlookup (cache s) domainName of
        None \<Rightarrow> ([], s)
      | Some cacheMap \<Rightarrow>
          (case fmlookup cacheMap qType of
             None \<Rightarrow> ([], s)
           | Some cacheInfoMap \<Rightarrow>
               if fm_len cacheInfoMap = 0 then ([], s)
               else (let (crs, m') = cacheScan L (now E) (rangeCache E cacheInfoMap) cacheInfoMap
                     in (crs, s\<lparr>cache := fmupd domainName (fmupd qType m' cacheMap) (cache s)\<rparr>))))"

section \<open>What a scan computes\<close>

text \<open>The cached strings of a name and type.\<close>

definition cachedAt :: "cacheMap \<Rightarrow> string \<Rightarrow> rrType \<Rightarrow> cacheRRs" where
  "cachedAt c n ty =
     (case fmlookup c n of None \<Rightarrow> fmempty
      | Some m \<Rightarrow> (case fmlookup m ty of None \<Rightarrow> fmempty | Some e \<Rightarrow> e))"

text \<open>The entry a string has in a cache map, if it is alive at time \<open>t\<close>.\<close>

definition liveAt :: "dns_lib \<Rightarrow> nat \<Rightarrow> cacheRRs \<Rightarrow> string \<Rightarrow> dnsRR option" where
  "liveAt L t m k = Option.bind (fmlookup m k) (cacheEntry L t k)"

lemma cacheScan_records:
  "distinct ks \<Longrightarrow> fst (cacheScan L t ks m) = List.map_filter (liveAt L t m) ks"
proof (induction ks arbitrary: m)
  case (Cons k ks)
  have same: "List.map_filter (liveAt L t (fmdrop k m)) ks = List.map_filter (liveAt L t m) ks"
    using Cons.prems
    by (auto simp: List.map_filter_def liveAt_def intro!: map_cong filter_cong)
  from Cons.IH [of m] Cons.IH [of "fmdrop k m"] Cons.prems same show ?case
    by (auto simp: map_filter_simps liveAt_def [of L t m k] split_beta split: option.splits)
qed (simp add: map_filter_simps)

lemma cacheScan_map:
  "distinct ks \<Longrightarrow>
   snd (cacheScan L t ks m) = fmfilter (\<lambda>k. k \<notin> set ks \<or> liveAt L t m k \<noteq> None) m"
proof (induction ks arbitrary: m)
  case (Cons k ks)
  have "fmfilter (\<lambda>k'. k' \<notin> set ks \<or> liveAt L t (fmdrop k m) k' \<noteq> None) (fmdrop k m)
        = fmfilter (\<lambda>k'. k' \<notin> set (k # ks) \<or> liveAt L t m k' \<noteq> None) m"
    if "liveAt L t m k = None"
    using that Cons.prems by (intro fmap_ext) (auto simp: liveAt_def)
  moreover have "fmfilter (\<lambda>k'. k' \<notin> set ks \<or> liveAt L t m k' \<noteq> None) m
        = fmfilter (\<lambda>k'. k' \<notin> set (k # ks) \<or> liveAt L t m k' \<noteq> None) m"
    if "liveAt L t m k \<noteq> None \<or> fmlookup m k = None"
    using that Cons.prems by (intro fmap_ext) (auto simp: liveAt_def)
  ultimately show ?case
    using Cons.IH [of m] Cons.IH [of "fmdrop k m"] Cons.prems
    by (auto simp: liveAt_def split_beta split: option.splits)
qed simp

lemma cachedAt_None: "fmlookup c n = None \<Longrightarrow> cachedAt c n ty = fmempty"
  by (simp add: cachedAt_def)

lemma getCacheRecords_records:
  assumes "env_ok E"
  shows "fst (getCacheRecords L E n ty s)
         = List.map_filter (liveAt L (now E) (cachedAt (cache s) n ty))
             (rangeCache E (cachedAt (cache s) n ty))"
proof -
  have [simp]: "rangeCache E fmempty = []"
    using env_okD [OF assms, of fmempty] by (simp add: enumerates_def)
  have "distinct (rangeCache E m)" for m
    using env_okD [OF assms, of m] by (simp add: enumerates_def)
  then show ?thesis
    by (auto simp: getCacheRecords_def cachedAt_def split_beta cacheScan_records map_filter_simps
        split: option.splits)
qed

lemma getCacheRecords_cache:
  assumes "env_ok E"
  shows "cachedAt (cache (snd (getCacheRecords L E n ty s))) n' ty'
         = (if n' = n \<and> ty' = ty
            then fmfilter (\<lambda>k. liveAt L (now E) (cachedAt (cache s) n ty) k \<noteq> None)
                   (cachedAt (cache s) n ty)
            else cachedAt (cache s) n' ty')"
proof -
  have "distinct (rangeCache E m)" "set (rangeCache E m) = fmdom' m" for m
    using env_okD [OF assms, of m] by (simp_all add: enumerates_def)
  moreover have "fmfilter (\<lambda>k. k \<notin> fmdom' m \<or> P k) m = fmfilter P m" for m :: cacheRRs and P
    by (intro fmap_ext) (auto simp: fmlookup_dom'_iff)
  ultimately show ?thesis
    by (auto simp: getCacheRecords_def cachedAt_def split_beta cacheScan_map split: option.splits
        cong del: fmfilter_cong)
qed

lemma getCacheRecords_frame:
  "snd (getCacheRecords L E n ty s) = s\<lparr>cache := cache (snd (getCacheRecords L E n ty s))\<rparr>"
  by (simp add: getCacheRecords_def split_beta split: option.splits)

lemma cacheInsert_cachedAt:
  "cachedAt (cacheInsert L t rr c) n ty =
     (if n = toLower (hdr_Name rr) \<and> ty = hdr_Rrtype rr
      then fmupd (RRString L (rr\<lparr>hdr_Ttl := 0\<rparr>)) \<lparr>ci_ttl = hdr_Ttl rr, ci_createTime = t\<rparr>
             (cachedAt c n ty)
      else cachedAt c n ty)"
  by (auto simp: cacheInsert_def cachedAt_def Let_def split: option.splits)

lemma addCacheRecord_cache:
  "cache (addCacheRecord L E rr w s) =
     (if hdr_Name rr = ''.'' then cache s else cacheInsert L (now E) rr (cache s))"
  by (simp add: addCacheRecord_def whisperAddCacheRecord_def)

lemma addCacheRecords_simps [simp]:
  "addCacheRecords L E [] s = s"
  "addCacheRecords L E (rr # rrs) s = addCacheRecords L E rrs (addCacheRecord L E rr True s)"
  by (simp_all add: addCacheRecords_def)

lemma cacheEntry_SomeD:
  assumes "cacheEntry L t k ci = Some rr"
  shows "\<exists>cr. parseRR L k = Some cr \<and> timeDiff t (ci_createTime ci) < ci_ttl ci \<and>
              rr = cr\<lparr>hdr_Ttl := ci_ttl ci - timeDiff t (ci_createTime ci)\<rparr>"
  using assms by (auto simp: cacheEntry_def parseRR_def Let_def split: sum.splits option.splits if_splits)

lemma cacheEntry_parse:
  "cacheEntry L t k ci =
     (if timeDiff t (ci_createTime ci) < ci_ttl ci
      then map_option (\<lambda>cr. cr\<lparr>hdr_Ttl := ci_ttl ci - timeDiff t (ci_createTime ci)\<rparr>) (parseRR L k)
      else None)"
  by (auto simp: cacheEntry_def parseRR_def Let_def split: sum.splits option.splits)

section \<open>Sample surroundings\<close>

text \<open>For the closed examples: maps are visited in the order of their keys.\<close>

definition sampleEnv :: "nat \<Rightarrow> env" where
  "sampleEnv t = \<lparr>now = t, rangeCache = (\<lambda>m. map fst (sorted_list_of_fmap m)), early = (\<lambda>_. False)\<rparr>"

lemma sampleEnv_ok [simp]: "env_ok (sampleEnv t)"
proof -
  have "set (map fst (sorted_list_of_fmap m)) = fmdom' m" for m :: cacheRRs
    using dom_map_of_conv_image_fst [of "sorted_list_of_fmap m"] by simp
  then show ?thesis
    by (simp add: env_ok_def sampleEnv_def enumerates_def distinct_sorted_list_of_fmap)
qed

lemma sampleEnv_now [simp]: "now (sampleEnv t) = t"
  by (simp add: sampleEnv_def)

definition sampleBase :: store_base where
  "sampleBase = \<lparr>proposeC = [], cache = fmempty, cluster = [''p1'', ''p2'', ''p3''], node_id = 2,
     whispered = []\<rparr>"

section \<open>Properties\<close>



text \<open>
  What the cache answers does not depend on the order in which the map is visited: for two
  orders of iteration at the same clock reading the answers are the same up to order, they are
  exactly the entries still alive, each with a positive TTL, and afterwards exactly the live
  entries are left under that name and type and everything else in the cache is as before.
\<close>

theorem cache_lookup_order_independent:
  assumes "env_ok E" and "env_ok E'" and "now E = now E'"
  shows "mset (fst (getCacheRecords L E n ty s)) = mset (fst (getCacheRecords L E' n ty s))
    \<and> set (fst (getCacheRecords L E n ty s))
        = {rr. \<exists>k. liveAt L (now E) (cachedAt (cache s) n ty) k = Some rr}
    \<and> (\<forall>rr \<in> set (fst (getCacheRecords L E n ty s)). 0 < hdr_Ttl rr)
    \<and> (\<forall>n' ty' k. fmlookup (cachedAt (cache (snd (getCacheRecords L E n ty s))) n' ty') k
         = (if n' = n \<and> ty' = ty \<and> liveAt L (now E) (cachedAt (cache s) n ty) k = None
            then None else fmlookup (cachedAt (cache s) n' ty') k))"
proof -
  let ?m = "cachedAt (cache s) n ty"
  let ?live = "liveAt L (now E) ?m"
  have ks: "mset (rangeCache E ?m) = mset (rangeCache E' ?m)"
    by (rule enumerates_perm) (rule env_okD [OF assms(1)], rule env_okD [OF assms(2)])
  then have 1: "mset (fst (getCacheRecords L E n ty s)) = mset (fst (getCacheRecords L E' n ty s))"
    unfolding getCacheRecords_records [OF assms(1)] getCacheRecords_records [OF assms(2)]
      assms(3) [symmetric] by (rule mset_map_filter)
  have dom: "k \<in> set (rangeCache E ?m)" if "?live k = Some rr" for k rr
    using that enumerates_lookup [OF env_okD [OF assms(1), of ?m]]
    by (auto simp: liveAt_def split: Option.bind_splits)
  have 2: "set (fst (getCacheRecords L E n ty s)) = {rr. \<exists>k. ?live k = Some rr}"
    unfolding getCacheRecords_records [OF assms(1)]
    by (blast intro: dom set_map_filter_iff [THEN iffD2] dest: set_map_filter_iff [THEN iffD1])
  have 3: "0 < hdr_Ttl rr" if "?live k = Some rr" for k rr
  proof -
    from that obtain ci where "cacheEntry L (now E) k ci = Some rr"
      by (auto simp: liveAt_def split: Option.bind_splits)
    from cacheEntry_SomeD [OF this]
    have "timeDiff (now E) (ci_createTime ci) < ci_ttl ci"
      and "hdr_Ttl rr = ci_ttl ci - timeDiff (now E) (ci_createTime ci)" by auto
    then show ?thesis by (simp add: word_greater_zero_iff)
  qed
  have 4: "fmlookup (cachedAt (cache (snd (getCacheRecords L E n ty s))) n' ty') k
      = (if n' = n \<and> ty' = ty \<and> ?live k = None then None else fmlookup (cachedAt (cache s) n' ty') k)"
    for n' ty' k
    by (simp add: getCacheRecords_cache [OF assms(1)])
  have 5: "\<forall>rr \<in> set (fst (getCacheRecords L E n ty s)). 0 < hdr_Ttl rr"
    unfolding 2 by (blast dest: 3)
  show ?thesis
    using 1 2 5 4 by (intro conjI allI) blast+
qed

lemma cache_lookup_order_independent_witness:
  "let s = addCacheRecord sampleLib (sampleEnv 0) (sampleRR ''b.'' TypeA ''10.0.0.3'') False
             (addCacheRecord sampleLib (sampleEnv 0) (sampleRR ''b.'' TypeA ''10.0.0.2'') False sampleBase)
   in mset (fst (getCacheRecords sampleLib (sampleEnv 5) ''b.'' TypeA s))
      = mset (fst (getCacheRecords sampleLib
          ((sampleEnv 5)\<lparr>rangeCache := \<lambda>m. rev (rangeCache (sampleEnv 5) m)\<rparr>) ''b.'' TypeA s))"
proof -
  have rev: "env_ok ((sampleEnv 5)\<lparr>rangeCache := \<lambda>m. rev (rangeCache (sampleEnv 5) m)\<rparr>)"
    using sampleEnv_ok [of 5] by (simp add: env_ok_def enumerates_def)
  have now: "now (sampleEnv 5) = now ((sampleEnv 5)\<lparr>rangeCache := \<lambda>m. rev (rangeCache (sampleEnv 5) m)\<rparr>)"
    by simp
  show ?thesis
    unfolding Let_def
    using cache_lookup_order_independent [OF sampleEnv_ok rev now] by blast
qed

text \<open>
  A record refreshes itself: adding a record that is already cached, with whatever TTL,
  replaces its entry instead of adding one, so the number of entries of its name and type does
  not grow.
\<close>

theorem cache_refresh:
  assumes "fmlookup (cachedAt (cache s) (toLower (hdr_Name rr)) (hdr_Rrtype rr))
             (RRString L (rr\<lparr>hdr_Ttl := 0\<rparr>)) \<noteq> None"
  shows "fm_len (cachedAt (cache (addCacheRecord L E (rr\<lparr>hdr_Ttl := t\<rparr>) w s))
             (toLower (hdr_Name rr)) (hdr_Rrtype rr))
         = fm_len (cachedAt (cache s) (toLower (hdr_Name rr)) (hdr_Rrtype rr))"
  using assms
  by (auto simp: addCacheRecord_cache cacheInsert_cachedAt fm_len_def fmlookup_dom_iff finsert_absorb)

lemma cache_refresh_witness:
  "let rr = sampleRR ''b.'' TypeA ''10.0.0.2'';
       s1 = addCacheRecord sampleLib (sampleEnv 0) rr False sampleBase
   in fm_len (cachedAt (cache (addCacheRecord sampleLib (sampleEnv 9) (rr\<lparr>hdr_Ttl := 7\<rparr>) False s1))
        ''b.'' TypeA) = fm_len (cachedAt (cache s1) ''b.'' TypeA)"
proof -
  have n: "toLower ''b.'' = ''b.''" by (simp add: toLower_def toLowerChar_def)
  show ?thesis
    using cache_refresh [where rr = "sampleRR ''b.'' TypeA ''10.0.0.2''" and L = sampleLib
        and E = "sampleEnv 9" and t = 7 and w = False
        and s = "addCacheRecord sampleLib (sampleEnv 0) (sampleRR ''b.'' TypeA ''10.0.0.2'') False sampleBase"]
    by (simp add: Let_def n sampleRR_def addCacheRecord_cache cacheInsert_cachedAt)
qed

text \<open>
  A new cache record is whispered to every other machine of the cluster and not to the
  machine itself: one message per peer, in the order of the configuration, none for the entry at
  the machine's own (one-based) position, and nothing but the outgoing messages changes.
\<close>

theorem whisper_destinations:
  assumes "0 < node_id s" and "node_id s \<le> int (length (cluster s))"
  shows "map fst (whispered (whisperAddCacheRecord L E rr s))
         = map fst (whispered s) @
           map (\<lambda>peer. peer @ ''/addcache'')
             (take (nat (node_id s) - 1) (cluster s) @ drop (nat (node_id s)) (cluster s))
    \<and> whisperAddCacheRecord L E rr s
         = s\<lparr>whispered := whispered (whisperAddCacheRecord L E rr s)\<rparr>"
proof -
  have skip: "map snd (filter (\<lambda>(i, p). i \<noteq> k) (List.enumerate 0 xs))
      = take k xs @ drop (Suc k) xs" if "k < length xs" for k and xs :: "string list"
  proof -
    have split: "xs = take k xs @ xs ! k # drop (Suc k) xs"
      using that by (rule id_take_nth_drop)
    have keep: "filter (\<lambda>(i, p). i \<noteq> k) (List.enumerate n ys) = List.enumerate n ys"
      if "n + length ys \<le> k \<or> k < n" for n and ys :: "string list"
      using that by (auto simp: filter_id_conv in_set_enumerate_eq)
    show ?thesis
      using that
      by (subst split) (auto simp: enumerate_append_eq keep min_def simp del: append_take_drop_id)
  qed
  let ?F = "filter (\<lambda>(i, p). int i \<noteq> node_id s - 1) (List.enumerate 0 (cluster s))"
  have n: "nat (node_id s) - 1 < length (cluster s)" "Suc (nat (node_id s) - 1) = nat (node_id s)"
    "int i \<noteq> node_id s - 1 \<longleftrightarrow> i \<noteq> nat (node_id s) - 1" for i
    using assms by linarith+
  have F: "map snd ?F = take (nat (node_id s) - 1) (cluster s) @ drop (nat (node_id s)) (cluster s)"
    using skip [OF n(1)] by (simp only: n(2,3))
  have "map fst (whispered (whisperAddCacheRecord L E rr s))
      = map fst (whispered s) @ map (\<lambda>peer. peer @ ''/addcache'') (map snd ?F)"
    by (simp add: whisperAddCacheRecord_def split_beta)
  with F show ?thesis
    by (simp add: whisperAddCacheRecord_def)
qed

lemma whisper_destinations_witness:
  "map fst (whispered (whisperAddCacheRecord sampleLib (sampleEnv 0) (sampleRR ''b.'' TypeA ''10'') sampleBase))
   = [''p1/addcache'', ''p3/addcache'']"
  using whisper_destinations [of sampleBase sampleLib "sampleEnv 0" "sampleRR ''b.'' TypeA ''10''"]
  by (simp add: sampleBase_def)

end
