(* ===== verification/Dns_Store.thy ===== *)
theory Dns_Store
  imports Dns_Cache Go_Json Raft_Commit Sample_Lib
begin

text \<open>
  \<open>dns/dns_store.go\<close>: the in-memory store of authoritative records, a map from lower-case names
  to types to record strings, changed only by committed proposals; its proposals, its commit
  loop and its snapshots. The two operations on the map itself (\<open>storeInsert\<close>, \<open>storeDelete\<close>) are
  stated on maps, because the pages of the paged store have the same content.
\<close>

section \<open>State\<close>

type_synonym dnsRRTypeMap = "(rrType, string list) fmap"
type_synonym storeMap = "(string, dnsRRTypeMap) fmap"

text \<open>The cluster configuration of \<open>dns/dns.go\<close>.\<close>

record jsonNsInfo =
  NsName :: string
  GlueRecord :: string

record jsonClusterInfo =
  ClusterToken :: string
  Members :: "jsonNsInfo list"

text \<open>
  \<open>consistent.Consistent\<close> is not under \<open>src/\<close>; what determines its answers is the configuration
  it was built with and the members added, in order.
\<close>

record consistentRing =
  PartitionCount :: nat
  ringMembers :: "string list"

record dnsStore = store_base +
  store :: storeMap
  config :: "jsonClusterInfo list"
  lookup :: "consistentRing option"

definition emptyDNSStore :: "string list \<Rightarrow> int \<Rightarrow> dnsStore" where
  "emptyDNSStore cl i =
     \<lparr>proposeC = [], cache = fmempty, cluster = cl, node_id = i, whispered = [],
      store = fmempty, config = [], lookup = None\<rparr>"

section \<open>The record map\<close>

definition storeInsert :: "dns_lib \<Rightarrow> dnsRR \<Rightarrow> storeMap \<Rightarrow> storeMap" where
  "storeInsert L rr st =
     (let domainName = toLower (hdr_Name rr);
          typeMap = (case fmlookup st domainName of None \<Rightarrow> fmempty | Some m \<Rightarrow> m);
          rrs = (case fmlookup typeMap (hdr_Rrtype rr) of None \<Rightarrow> [] | Some l \<Rightarrow> l)
      in fmupd domainName (fmupd (hdr_Rrtype rr) (rrs @ [RRString L rr]) typeMap) st)"

definition storeDelete :: "string \<Rightarrow> rrType \<Rightarrow> storeMap \<Rightarrow> storeMap" where
  "storeDelete name rrType st =
     (case fmlookup st name of
        None \<Rightarrow> st
      | Some typeMap \<Rightarrow>
          (let typeMap' = (case fmlookup typeMap rrType of
                             None \<Rightarrow> typeMap | Some _ \<Rightarrow> fmdrop rrType typeMap);
               st' = fmupd name typeMap' st
           in if fm_len typeMap' = 0 then fmdrop name st' else st'))"

section \<open>Operations\<close>

definition lookupNameMap :: "string \<Rightarrow> dnsStore \<Rightarrow> dnsRRTypeMap option" where
  "lookupNameMap domainName s = fmlookup (store s) domainName"

definition ProposeAddRR :: "gob_lib \<Rightarrow> string \<Rightarrow> 'a store_base_scheme \<Rightarrow> 'a store_base_scheme" where
  "ProposeAddRR G rrString s =
     s\<lparr>proposeC := proposeC s @ [gobEncode G (addProposal rrString)]\<rparr>"

definition ProposeDeleteRRs ::
    "gob_lib \<Rightarrow> string \<Rightarrow> rrType \<Rightarrow> 'a store_base_scheme \<Rightarrow> 'a store_base_scheme" where
  "ProposeDeleteRRs G name rrType s =
     s\<lparr>proposeC := proposeC s @ [gobEncode G (deleteProposal name rrType)]\<rparr>"

definition insertRR :: "dns_lib \<Rightarrow> dnsRR \<Rightarrow> dnsStore \<Rightarrow> dnsStore" where
  "insertRR L rr s = s\<lparr>store := storeInsert L rr (store s)\<rparr>"

text \<open>The records a zone parser yields until its first error, or the error of opening the file.\<close>

definition loadFromZoneFile :: "dns_lib \<Rightarrow> string + dnsRR list \<Rightarrow> dnsStore \<Rightarrow> string option \<times> dnsStore" where
  "loadFromZoneFile L zoneFile s = (case zoneFile of
       Inl err \<Rightarrow> (Some err, s)
     | Inr rrs \<Rightarrow> (None, fold (insertRR L) rrs s))"

text \<open>One turn of the commit loop: decode the proposal and carry it out.\<close>

definition applyProposal :: "dns_lib \<Rightarrow> gob_lib \<Rightarrow> commitInfo \<Rightarrow> dnsStore \<Rightarrow> dnsStore go" where
  "applyProposal L G ci s =
     (case gobDecode G (ci_data ci) of
        None \<Rightarrow> Inl (Fatal ''dnsStore: could not decode message'')
      | Some proposal \<Rightarrow>
          if ProposalType proposal = AddRR then
            Inr (case NewRR L (p_RRString proposal) of
                   Inl _ \<Rightarrow> s
                 | Inr None \<Rightarrow> s
                 | Inr (Some rr) \<Rightarrow> insertRR L rr s)
          else if ProposalType proposal = DeleteRR then
            Inr (s\<lparr>store := storeDelete (p_Name proposal) (p_RRType proposal) (store s)\<rparr>)
          else Inl (Fatal ''dnsStore: bad proposal type''))"

section \<open>Snapshots\<close>

definition marshalStore :: "storeMap \<Rightarrow> json" where
  "marshalStore = marshalMap id (marshalMap (decimal \<circ> unat) (marshalList JString))"

definition unmarshalStore :: "json \<Rightarrow> storeMap option" where
  "unmarshalStore = unmarshalMap Some (unmarshalMap parseUint (unmarshalList unmarshalString))"

definition getSnapshot :: "dnsStore \<Rightarrow> string" where
  "getSnapshot s = printJson (marshalStore (store s))"

definition recoverFromSnapshot :: "string \<Rightarrow> dnsStore \<Rightarrow> dnsStore go" where
  "recoverFromSnapshot snapshot s =
     (case Option.bind (parseJson snapshot) unmarshalStore of
        None \<Rightarrow> Inl (Panic ''recoverFromSnapshot'')
      | Some st \<Rightarrow> Inr (s\<lparr>store := st\<rparr>))"

definition newDNSStore ::
    "dns_lib \<Rightarrow> gob_lib \<Rightarrow> load_result \<Rightarrow> commit_event list \<Rightarrow> string list \<Rightarrow> int
       \<Rightarrow> (loop_status \<times> commit_event list \<times> dnsStore) go" where
  "newDNSStore L G load es cl i =
     startReading (applyProposal L G) recoverFromSnapshot load es (emptyDNSStore cl i)"

section \<open>Lemmas: the record map\<close>

text \<open>The strings stored for a name and a type.\<close>

definition rrsAt :: "storeMap \<Rightarrow> string \<Rightarrow> rrType \<Rightarrow> string list" where
  "rrsAt st n ty = (case fmlookup st n of None \<Rightarrow> [] | Some tm \<Rightarrow> fm_getl tm ty)"

lemma rrsAt_empty [simp]: "rrsAt fmempty n ty = []"
  by (simp add: rrsAt_def)

lemma rrsAt_insert [go_simps]:
  "rrsAt (storeInsert L rr st) n ty =
     (if n = toLower (hdr_Name rr) \<and> ty = hdr_Rrtype rr
      then rrsAt st n ty @ [RRString L rr] else rrsAt st n ty)"
  by (auto simp: rrsAt_def storeInsert_def Let_def fm_getl_def split: option.splits)

lemma rrsAt_delete [go_simps]:
  "rrsAt (storeDelete name rrType st) n ty =
     (if n = name \<and> ty = rrType then [] else rrsAt st n ty)"
  by (auto simp: rrsAt_def storeDelete_def Let_def fm_getl_def fmdrop_eq_empty_iff
      fmempty_iff_lookup split: option.splits)

text \<open>
  The shape every reachable map has: names in lower case, no empty type map, no empty list.
\<close>

definition typeMap_wf :: "dnsRRTypeMap \<Rightarrow> bool" where
  "typeMap_wf tm \<longleftrightarrow> tm \<noteq> fmempty \<and> fmpred (\<lambda>_ l. l \<noteq> []) tm"

definition store_wf :: "storeMap \<Rightarrow> bool" where
  "store_wf st \<longleftrightarrow> fmpred (\<lambda>n tm. is_lower n \<and> typeMap_wf tm) st"

lemma store_wf_empty [simp]: "store_wf fmempty"
  by (simp add: store_wf_def)

lemma store_wf_insert [inv_intros]: "store_wf st \<Longrightarrow> store_wf (storeInsert L rr st)"
  by (auto simp: store_wf_def storeInsert_def Let_def typeMap_wf_def fmpred_iff split: option.splits)

lemma store_wf_delete [inv_intros]: "store_wf st \<Longrightarrow> store_wf (storeDelete name rrType st)"
  by (auto simp: store_wf_def storeDelete_def Let_def typeMap_wf_def fmpred_iff split: option.splits)

lemma store_wfD: "store_wf st \<Longrightarrow> fmlookup st n = Some tm \<Longrightarrow> is_lower n \<and> typeMap_wf tm"
  by (auto simp: store_wf_def)

text \<open>Deleting by a name that is not in lower case never finds anything.\<close>

lemma storeDelete_not_lower: "store_wf st \<Longrightarrow> \<not> is_lower n \<Longrightarrow> storeDelete n ty st = st"
  by (auto simp: storeDelete_def split: option.splits dest: store_wfD)

text \<open>Two maps of that shape are equal when they store the same strings.\<close>

lemma typeMap_ext:
  assumes "typeMap_wf tm" "typeMap_wf tm'" "\<And>ty. fm_getl tm ty = fm_getl tm' ty"
  shows "tm = tm'"
proof (rule fmap_ext)
  fix ty
  have "fmlookup tm ty \<noteq> Some []" "fmlookup tm' ty \<noteq> Some []"
    using assms(1,2) by (auto simp: typeMap_wf_def)
  with assms(3) [of ty] show "fmlookup tm ty = fmlookup tm' ty"
    by (auto simp: fm_getl_def split: option.splits)
qed

lemma store_sub:
  assumes "store_wf a" "store_wf b" and eq: "\<And>n ty. rrsAt a n ty = rrsAt b n ty"
    and tm: "fmlookup a n = Some tm"
  shows "fmlookup b n = Some tm"
proof -
  have wf: "typeMap_wf tm" using assms(1) tm by (auto dest: store_wfD)
  then obtain ty l where "fmlookup tm ty = Some l" "l \<noteq> []"
    by (auto simp: typeMap_wf_def fmempty_iff_lookup)
  with tm eq [of n ty] have "rrsAt b n ty \<noteq> []" by (simp add: rrsAt_def fm_getl_def)
  then obtain tm' where tm': "fmlookup b n = Some tm'"
    by (auto simp: rrsAt_def split: option.splits)
  have "fm_getl tm ty = fm_getl tm' ty" for ty
    using eq [of n ty] tm tm' by (simp add: rrsAt_def)
  moreover have "typeMap_wf tm'" using assms(2) tm' by (auto dest: store_wfD)
  ultimately have "tm = tm'" using wf by (intro typeMap_ext)
  with tm' show ?thesis by simp
qed

lemma store_ext:
  assumes "store_wf st" "store_wf st'" "\<And>n ty. rrsAt st n ty = rrsAt st' n ty"
  shows "st = st'"
proof (rule fmap_ext)
  fix n
  show "fmlookup st n = fmlookup st' n"
  proof (cases "fmlookup st n")
    case None
    then show ?thesis
      using store_sub [OF assms(2,1) assms(3) [symmetric], of n] by (cases "fmlookup st' n") auto
  next
    case (Some tm)
    with store_sub [OF assms this] show ?thesis by simp
  qed
qed

text \<open>Every stored string reads as a record of the name and type it is stored under.\<close>

definition records_ok :: "dns_lib \<Rightarrow> storeMap \<Rightarrow> bool" where
  "records_ok L st \<longleftrightarrow> (\<forall>n ty s. s \<in> set (rrsAt st n ty) \<longrightarrow>
     (\<exists>rr. parseRR L s = Some rr \<and> toLower (hdr_Name rr) = n \<and> hdr_Rrtype rr = ty))"

lemma records_ok_empty [simp]: "records_ok L fmempty"
  by (simp add: records_ok_def)

lemma records_ok_insert [inv_intros]:
  assumes "records_ok L st" "rr_text_roundtrip L" "parseRR L s = Some rr"
  shows "records_ok L (storeInsert L rr st)"
  using assms(1) rr_text_roundtrip_same [OF assms(2,3)]
  by (auto simp: records_ok_def rrsAt_insert)

lemma records_ok_delete [inv_intros]: "records_ok L st \<Longrightarrow> records_ok L (storeDelete n ty st)"
  by (auto simp: records_ok_def rrsAt_delete)

section \<open>Runs of committed proposals\<close>

text \<open>
  What a log of proposals leaves under a name and a type: the records added since the last
  deletion of that name and type, in the order of the log.
\<close>

definition deletes :: "string \<Rightarrow> rrType \<Rightarrow> dnsProposal \<Rightarrow> bool" where
  "deletes n ty p \<longleftrightarrow> ProposalType p = DeleteRR \<and> p_Name p = n \<and> p_RRType p = ty"

definition addedAt :: "dns_lib \<Rightarrow> string \<Rightarrow> rrType \<Rightarrow> dnsProposal \<Rightarrow> string option" where
  "addedAt L n ty p =
     (if ProposalType p = AddRR
      then (case parseRR L (p_RRString p) of
              None \<Rightarrow> None
            | Some rr \<Rightarrow> if toLower (hdr_Name rr) = n \<and> hdr_Rrtype rr = ty
                         then Some (RRString L rr) else None)
      else None)"

definition logContents :: "dns_lib \<Rightarrow> string \<Rightarrow> rrType \<Rightarrow> dnsProposal list \<Rightarrow> string list" where
  "logContents L n ty ps =
     List.map_filter (addedAt L n ty) (rev (takeWhile (\<lambda>p. \<not> deletes n ty p) (rev ps)))"

definition valid_proposal :: "dnsProposal \<Rightarrow> bool" where
  "valid_proposal p \<longleftrightarrow> ProposalType p \<in> {AddRR, DeleteRR}"

lemma logContents_snoc:
  "logContents L n ty (ps @ [p]) =
     (if deletes n ty p then []
      else case addedAt L n ty p of None \<Rightarrow> logContents L n ty ps
           | Some s \<Rightarrow> logContents L n ty ps @ [s])"
  by (auto simp: logContents_def List.map_filter_def)

lemma AddRR_neq_DeleteRR [simp]: "AddRR \<noteq> DeleteRR" "DeleteRR \<noteq> AddRR"
  by (simp_all add: AddRR_def DeleteRR_def)

text \<open>The change a proposal makes to the record map.\<close>

definition applyTo :: "dns_lib \<Rightarrow> dnsProposal \<Rightarrow> storeMap \<Rightarrow> storeMap" where
  "applyTo L p st =
     (if ProposalType p = AddRR
      then (case parseRR L (p_RRString p) of None \<Rightarrow> st | Some rr \<Rightarrow> storeInsert L rr st)
      else storeDelete (p_Name p) (p_RRType p) st)"

lemma rrsAt_applyTo:
  "valid_proposal p \<Longrightarrow> rrsAt (applyTo L p st) n ty =
     (if deletes n ty p then []
      else case addedAt L n ty p of None \<Rightarrow> rrsAt st n ty | Some s \<Rightarrow> rrsAt st n ty @ [s])"
  by (auto simp: applyTo_def valid_proposal_def deletes_def addedAt_def go_simps split: option.splits)

lemma rrsAt_log:
  "\<forall>p \<in> set ps. valid_proposal p \<Longrightarrow> rrsAt (fold (applyTo L) ps fmempty) n ty = logContents L n ty ps"
proof (induction ps rule: rev_induct)
  case (snoc p ps)
  then show ?case by (simp add: rrsAt_applyTo logContents_snoc split: option.splits)
qed (simp add: logContents_def map_filter_simps)

lemma applyProposal_eq:
  assumes "gob_ok G" "ci_data ci = gobEncode G p" "valid_proposal p"
  shows "applyProposal L G ci s = Inr (s\<lparr>store := applyTo L p (store s)\<rparr>)"
  using assms
  by (auto simp: applyProposal_def applyTo_def valid_proposal_def parseRR_def insertRR_def
      split: sum.splits option.splits)

lemma applyProposal_InrD:
  assumes "applyProposal L G ci s = Inr s'"
  shows "\<exists>p. gobDecode G (ci_data ci) = Some p \<and> valid_proposal p \<and>
             s' = s\<lparr>store := applyTo L p (store s)\<rparr>"
  using assms
  by (auto simp: applyProposal_def applyTo_def valid_proposal_def parseRR_def insertRR_def
      split: sum.splits option.splits if_splits)

lemma runCommits_log:
  assumes "gob_ok G" and "map ci_data cs = map (gobEncode G) ps" and "\<forall>p \<in> set ps. valid_proposal p"
  shows "runCommits (applyProposal L G) cs s = Inr (s\<lparr>store := fold (applyTo L) ps (store s)\<rparr>)"
  using assms(2,3)
proof (induction cs arbitrary: ps s)
  case (Cons c cs)
  then obtain p ps' where "ps = p # ps'" "ci_data c = gobEncode G p"
      "map ci_data cs = map (gobEncode G) ps'" by (cases ps) auto
  with Cons applyProposal_eq [OF assms(1)] show ?case by simp
qed simp

text \<open>Every map the loop can build is well formed and holds readable records only.\<close>

definition reach_ok :: "dns_lib \<Rightarrow> dnsStore \<Rightarrow> bool" where
  "reach_ok L s \<longleftrightarrow> store_wf (store s) \<and> records_ok L (store s)"

lemma reach_ok_apply:
  assumes "reach_ok L s" "rr_text_roundtrip L" "applyProposal L G ci s = Inr s'"
  shows "reach_ok L s'"
  using assms(1) applyProposal_InrD [OF assms(3)] assms(2)
  by (auto simp: reach_ok_def applyTo_def inv_intros split: option.splits)

section \<open>Snapshots and restarts\<close>

lemma unmarshalStore_marshalStore: "unmarshalStore (marshalStore st) = Some st"
  unfolding unmarshalStore_def marshalStore_def
  by (intro unmarshalMap_marshalMap conjI unmarshalList_marshalList) simp_all

lemma okJson_marshalStore: "okJson (marshalStore st)"
  unfolding marshalStore_def
  by (intro okJson_marshalMap okJson_marshalList) simp

lemma recover_getSnapshot: "recoverFromSnapshot (getSnapshot s) t = Inr (t\<lparr>store := store s\<rparr>)"
  by (simp add: recoverFromSnapshot_def getSnapshot_def parseJson_printJson okJson_marshalStore
      unmarshalStore_marshalStore)

interpretation dm: commit_machine "applyProposal L G" getSnapshot recoverFromSnapshot store
  for L G
proof unfold_locales
  show "rel_sum (=) (\<lambda>s' t'. store s' = store t') (applyProposal L G c s) (applyProposal L G c t)"
    if "store s = store t" for s t c
    using that by (auto simp: applyProposal_def insertRR_def split: sum.splits option.splits)
  show "\<exists>t'. recoverFromSnapshot (getSnapshot s) t = Inr t' \<and> store t' = store s" for s t
    by (simp add: recover_getSnapshot)
qed

section \<open>Properties\<close>

text \<open>
  C1. The store refines its log: after applying the commits of any list of add and delete
  proposals, what is stored under a name and a type is exactly the records added for them since
  their last deletion, in the order of the log; the run never ends the process.
\<close>

theorem store_refines_log:
  assumes "gob_ok G" and "\<forall>p \<in> set ps. valid_proposal p"
    and "map ci_data cs = map (gobEncode G) ps"
  shows "\<exists>s. runCommits (applyProposal L G) cs (emptyDNSStore cl i) = Inr s \<and>
             (\<forall>n ty. rrsAt (store s) n ty = logContents L n ty ps)"
  using runCommits_log [OF assms(1,3,2), of L "emptyDNSStore cl i"] rrsAt_log [OF assms(2), of L]
  by (simp add: emptyDNSStore_def)

lemma store_refines_log_witness:
  "\<exists>s. runCommits (applyProposal sampleLib sampleGob)
         [\<lparr>ci_index = 1, ci_data = sampleEncode (addProposal ''a. 60 1 10.0.0.1'')\<rparr>,
          \<lparr>ci_index = 2, ci_data = sampleEncode (deleteProposal ''a.'' TypeNS)\<rparr>]
         (emptyDNSStore [] 1) = Inr s \<and>
       (\<forall>n ty. rrsAt (store s) n ty = logContents sampleLib n ty
          [addProposal ''a. 60 1 10.0.0.1'', deleteProposal ''a.'' TypeNS])"
  by (rule store_refines_log)
    (simp_all add: valid_proposal_def addProposal_def deleteProposal_def, simp add: sampleGob_def)

text \<open>
  C16. Type invariant of the store: whatever commits are applied to a new store, if the run does
  not end the process, every name in it is in lower case, no name has an empty type map and no
  type an empty list, and every stored string reads as a record of the name and the type it is
  stored under.
\<close>

theorem store_invariant:
  assumes "rr_text_roundtrip L"
    and "runCommits (applyProposal L G) cs (emptyDNSStore cl i) = Inr s"
  shows "store_wf (store s) \<and> records_ok L (store s)"
proof -
  have "reach_ok L s"
  proof (rule runCommits_inv [OF assms(2), where P = "reach_ok L"])
    show "reach_ok L (emptyDNSStore cl i)" by (simp add: reach_ok_def emptyDNSStore_def)
  qed (blast intro: reach_ok_apply assms(1))
  then show ?thesis by (simp add: reach_ok_def)
qed

lemma store_invariant_witness:
  "store_wf (fold (applyTo sampleLib) [addProposal ''a. 60 1 10.0.0.1''] fmempty) \<and>
   records_ok sampleLib (fold (applyTo sampleLib) [addProposal ''a. 60 1 10.0.0.1''] fmempty)"
proof -
  let ?p = "addProposal ''a. 60 1 10.0.0.1''"
  have "runCommits (applyProposal sampleLib sampleGob)
          [\<lparr>ci_index = 1, ci_data = gobEncode sampleGob ?p\<rparr>] (emptyDNSStore [] 1)
        = Inr ((emptyDNSStore [] 1)\<lparr>store := fold (applyTo sampleLib) [?p] (store (emptyDNSStore [] 1))\<rparr>)"
    by (rule runCommits_log) (simp_all add: valid_proposal_def addProposal_def)
  from store_invariant [OF sampleLib_roundtrip this] show ?thesis
    by (simp add: emptyDNSStore_def)
qed

text \<open>
  C17. Snapshot round trip: recovering from the JSON text of a store's snapshot, in any state,
  gives back exactly the snapshotted record map and changes nothing else.
\<close>

theorem snapshot_roundtrip:
  "recoverFromSnapshot (getSnapshot s) t = Inr (t\<lparr>store := store s\<rparr>)"
  by (rule recover_getSnapshot)

text \<open>
  C18. A restart loses nothing: a store that loads the snapshot taken after the first commits and
  replays the later ones ends, when the replay's final nil arrives, with the record map of the
  store that applied them all.
\<close>

theorem restart_equals_full_replay:
  assumes "runCommits (applyProposal L G) cs s = Inr s1"
    and "runCommits (applyProposal L G) ds s1 = Inr s2"
  shows "\<exists>t. readCommits (applyProposal L G) recoverFromSnapshot (Loaded (getSnapshot s1)) True
               (map CommitData ds @ [CommitNil l]) s0 = Inr (Returned, [], t) \<and> store t = store s2"
  using assms by (rule dm.restart)

lemma restart_equals_full_replay_witness:
  "\<exists>t. readCommits (applyProposal sampleLib sampleGob) recoverFromSnapshot
         (Loaded (getSnapshot (emptyDNSStore [] 1))) True
         (map CommitData [\<lparr>ci_index = 7, ci_data = gobEncode sampleGob (deleteProposal ''a.'' TypeA)\<rparr>]
            @ [CommitNil ErrNoSnapshot]) (emptyDNSStore [] 2) = Inr (Returned, [], t) \<and>
       store t = fmempty"
proof -
  let ?p = "deleteProposal ''a.'' TypeA"
  have "runCommits (applyProposal sampleLib sampleGob)
          [\<lparr>ci_index = 7, ci_data = gobEncode sampleGob ?p\<rparr>] (emptyDNSStore [] 1)
        = Inr ((emptyDNSStore [] 1)\<lparr>store := fold (applyTo sampleLib) [?p] (store (emptyDNSStore [] 1))\<rparr>)"
    by (rule runCommits_log) (simp_all add: valid_proposal_def deleteProposal_def)
  from restart_equals_full_replay [OF runCommits.simps(1) this, of ErrNoSnapshot "emptyDNSStore [] 2"]
  show ?thesis
    by (simp add: emptyDNSStore_def applyTo_def deleteProposal_def storeDelete_def)
qed

text \<open>
  Deletion does not fold case although insertion does: on every map the store can reach, a
  committed delete whose name is not in lower case changes nothing, so a record that was added
  under such a spelling survives its own deletion.
\<close>

theorem delete_is_case_sensitive:
  assumes "store_wf st" and "\<not> is_lower name"
  shows "storeDelete name rrType st = st"
  using assms by (rule storeDelete_not_lower)

lemma delete_is_case_sensitive_witness:
  "let st = storeInsert sampleLib (sampleRR ''A.com.'' TypeA ''10.0.0.1'') fmempty
   in storeDelete ''A.com.'' TypeA st = st \<and> rrsAt st ''a.com.'' TypeA \<noteq> []"
proof -
  let ?st = "storeInsert sampleLib (sampleRR ''A.com.'' TypeA ''10.0.0.1'') fmempty"
  have "\<not> is_lower ''A.com.''" "toLower ''A.com.'' = ''a.com.''"
    by (simp_all add: is_lower_def toLower_def toLowerChar_def char_of_code)
  moreover have "store_wf ?st" by (simp add: inv_intros)
  ultimately have "storeDelete ''A.com.'' TypeA ?st = ?st" "rrsAt ?st ''a.com.'' TypeA \<noteq> []"
    by (simp_all add: delete_is_case_sensitive go_simps sampleRR_def)
  then show ?thesis by simp
qed

end
