(* ===== verification/Dns_Query.thy ===== *)
theory Dns_Query
  imports Dns_Store
begin

text \<open>
  Query resolution, \<open>dns/dns.go\<close> (and, with the same text over pages, \<open>dns/paged_dns.go\<close>): exact
  match, CNAME chasing, cache, delegation with glue, wildcards, and the recursive query for what
  is left. The two servers differ only in how they look a name up (\<open>s.store[name]\<close> against
  \<open>s.getPage(name).Store[name]\<close>, which moves pages about), so the code is stated over a lookup
  \<open>look\<close> that returns the type map and the new state; \<open>HandleSingleQuestion\<close> and
  \<open>ProcessDNSQuery\<close> are the instances for the in-memory store.

  The locale \<open>name_finder\<close> is what resolution needs of a lookup; in it the code is proved to
  compute the reference definition \<open>resolve\<close>, which works on the record map and the cache alone.
\<close>

section \<open>The code\<close>

type_synonym 's finder = "string \<Rightarrow> 's \<Rightarrow> dnsRRTypeMap option \<times> 's"

text \<open>The valid records of a type in the type map a lookup returned.\<close>

definition recordsOf :: "dns_lib \<Rightarrow> rrType \<Rightarrow> dnsRRTypeMap option \<Rightarrow> dnsRR list" where
  "recordsOf L ty tm = (case tm of None \<Rightarrow> [] | Some typeMap \<Rightarrow> parseRRs L (fm_getl typeMap ty))"

text \<open>
  The wildcard loop: drop the leftmost label, look up \<open>*.\<close> and the rest, stop at the first name
  with a valid record of the type.
\<close>

function wildcardLoop :: "'s finder \<Rightarrow> dns_lib \<Rightarrow> rrType \<Rightarrow> string \<Rightarrow> 's \<Rightarrow> dnsRR list \<times> 's" where
  "wildcardLoop look L ty rest s =
     (let (leftLabel, rest') = popLeftmostLabel rest
      in if leftLabel = [] then ([], s)
         else (let (typeMap, s') = look (''*.'' @ rest') s;
                   rrs = recordsOf L ty typeMap
               in if rrs \<noteq> [] then (rrs, s') else wildcardLoop look L ty rest' s'))"
  by pat_completeness auto
termination
  by (relation "measure (\<lambda>(look, L, ty, rest, s). length rest)")
    (auto simp: popLeftmostLabel_shorter dest: sym)

declare wildcardLoop.simps [simp del]

definition getGlueRecords :: "'s finder \<Rightarrow> dns_lib \<Rightarrow> string \<Rightarrow> 's \<Rightarrow> dnsRR list \<times> 's" where
  "getGlueRecords look L nsName s =
     (let (typeMap, s1) = look nsName s;
          glueRecords = recordsOf L TypeA typeMap
      in if glueRecords \<noteq> [] then (glueRecords, s1) else wildcardLoop look L TypeA nsName s1)"

text \<open>Glue for every name server record of a delegation.\<close>

fun collectGlue :: "'s finder \<Rightarrow> dns_lib \<Rightarrow> dnsRR option list \<Rightarrow> 's \<Rightarrow> dnsRR list \<times> 's" where
  "collectGlue look L [] s = ([], s)"
| "collectGlue look L (rr # rrs) s =
     (case rr of
        None \<Rightarrow> collectGlue look L rrs s
      | Some nsRR \<Rightarrow>
          (case rr_data nsRR of
             RD_NS ns \<Rightarrow>
               (let (glue, s1) = getGlueRecords look L ns s;
                    (glues, s2) = collectGlue look L rrs s1
                in (glue @ glues, s2))
           | _ \<Rightarrow> collectGlue look L rrs s))"

text \<open>The border of a zone: nothing, or the response with the delegation.\<close>

definition delegate ::
    "'s finder \<Rightarrow> dns_lib \<Rightarrow> dnsRRTypeMap option \<Rightarrow> dnsMsg \<Rightarrow> 's \<Rightarrow> (dnsMsg \<times> 's) option" where
  "delegate look L tm r s = (case tm of
       None \<Rightarrow> None
     | Some typeMap \<Rightarrow>
         (let rrs = stringsToRRs L (fm_getl typeMap TypeNS)
          in if rrs = [] then None
             else (let (glueRRs, s') = collectGlue look L rrs s
                   in Some (r\<lparr>Ns := Ns r @ rrs, Extra := Extra r @ glueRRs\<rparr>, s'))))"

text \<open>What happens without an exact match: the cache, the zone border, the wildcards.\<close>

definition answerBelow ::
    "'a store_base_scheme finder \<Rightarrow> dns_lib \<Rightarrow> env \<Rightarrow> string \<Rightarrow> rrType \<Rightarrow> dnsRRTypeMap option
       \<Rightarrow> dnsMsg \<Rightarrow> 'a store_base_scheme \<Rightarrow> bool \<times> dnsMsg \<times> 'a store_base_scheme" where
  "answerBelow look L E domainName qType tm r s =
     (let (crs, s1) = getCacheRecords L E domainName qType s;
          r1 = r\<lparr>Answer := Answer r @ crs\<rparr>
      in if crs \<noteq> [] then (True, r1, s1)
         else (case delegate look L tm r1 s1 of
             Some (r2, s2) \<Rightarrow> (False, r2, s2)
           | None \<Rightarrow>
               (let (rrs, s2) = wildcardLoop look L qType domainName s1
                in (rrs \<noteq> [],
                    r1\<lparr>Answer := Answer r1 @ map (\<lambda>rr. rr\<lparr>hdr_Name := domainName\<rparr>) rrs\<rparr>, s2))))"

text \<open>The CNAME record that is followed when a name has no record of the type asked for.\<close>

definition cnameRecord :: "dns_lib \<Rightarrow> rrType \<Rightarrow> dnsRRTypeMap option \<Rightarrow> dnsRR option" where
  "cnameRecord L qType tm =
     (if qType = TypeCNAME then None
      else case tm of
          None \<Rightarrow> None
        | Some typeMap \<Rightarrow> (case fm_getl typeMap TypeCNAME of [] \<Rightarrow> None | c # _ \<Rightarrow> parseRR L c))"

text \<open>
  \<open>HandleSingleQuestion\<close>. The recursion over CNAME records has no bound in the source, so the
  result is an option: \<open>None\<close> is a call that does not return.
\<close>

partial_function (option) HandleQuestion ::
    "'a store_base_scheme finder \<Rightarrow> dns_lib \<Rightarrow> env \<Rightarrow> string \<Rightarrow> rrType \<Rightarrow> dnsMsg
       \<Rightarrow> 'a store_base_scheme \<Rightarrow> (bool \<times> dnsMsg \<times> 'a store_base_scheme) option" where
  "HandleQuestion look L E name qType r s =
     (let domainName = toLower name;
          fs = look domainName s;
          exact = recordsOf L qType (fst fs)
      in if exact \<noteq> [] then Some (True, r\<lparr>Answer := Answer r @ exact\<rparr>, snd fs)
         else (case cnameRecord L qType (fst fs) of
             None \<Rightarrow> Some (answerBelow look L E domainName qType (fst fs) r (snd fs))
           | Some cnameRR \<Rightarrow>
               (case rr_data cnameRR of
                  RD_CNAME cnameData \<Rightarrow>
                    HandleQuestion look L E cnameData qType
                      (r\<lparr>Answer := Answer r @ [cnameRR]\<rparr>) (snd fs)
                | _ \<Rightarrow> Some (answerBelow look L E domainName qType (fst fs)
                         (r\<lparr>Answer := Answer r @ [cnameRR]\<rparr>) (snd fs)))))"

text \<open>The loop over the questions: what cannot be handled here is collected, in order.\<close>

fun handleQuestions ::
    "'a store_base_scheme finder \<Rightarrow> dns_lib \<Rightarrow> env \<Rightarrow> dnsQuestion list \<Rightarrow> dnsMsg
       \<Rightarrow> 'a store_base_scheme \<Rightarrow> (dnsQuestion list \<times> dnsMsg \<times> 'a store_base_scheme) option" where
  "handleQuestions look L E [] res s = Some ([], res, s)"
| "handleQuestions look L E (q # qs) res s =
     (case HandleQuestion look L E (q_Name q) (q_Qtype q) res s of
        None \<Rightarrow> None
      | Some (canHandle, res1, s1) \<Rightarrow>
          (case handleQuestions look L E qs res1 s1 of
             None \<Rightarrow> None
           | Some (unhandled, res2, s2) \<Rightarrow>
               Some (if canHandle then unhandled else q # unhandled, res2, s2)))"

text \<open>
  The recursive query asks one upstream server; \<open>exchange\<close> is its reply, if there is one. A reply
  read from the network holds no nil records.
\<close>

definition HandleRecursiveQuery ::
    "dns_lib \<Rightarrow> env \<Rightarrow> (dnsMsg \<Rightarrow> dnsMsg option) \<Rightarrow> dnsMsg \<Rightarrow> dnsMsg \<Rightarrow> 'a store_base_scheme
       \<Rightarrow> dnsMsg \<times> 'a store_base_scheme" where
  "HandleRecursiveQuery L E exchange req r s = (case exchange req of
       None \<Rightarrow> (r, s)
     | Some reply \<Rightarrow>
         (let r' = r\<lparr>Answer := Answer reply, Ns := Ns reply, Extra := Extra reply\<rparr>;
              s1 = addCacheRecords L E (Answer r') s;
              s2 = addCacheRecords L E (List.map_filter id (Ns r')) s1;
              s3 = addCacheRecords L E (Extra r') s2
          in (r', s3)))"

text \<open>\<open>SetReply\<close> is the library's; it makes the empty reply that belongs to a request.\<close>

definition ProcessQuery ::
    "'a store_base_scheme finder \<Rightarrow> dns_lib \<Rightarrow> env \<Rightarrow> (dnsMsg \<Rightarrow> dnsMsg) \<Rightarrow> (dnsMsg \<Rightarrow> dnsMsg option)
       \<Rightarrow> dnsMsg \<Rightarrow> 'a store_base_scheme \<Rightarrow> (dnsMsg \<times> 'a store_base_scheme) option" where
  "ProcessQuery look L E setReply exchange req s =
     (case handleQuestions look L E (Questions req) (setReply req) s of
        None \<Rightarrow> None
      | Some (unhandledQuestions, res, s1) \<Rightarrow>
          (let res1 = res\<lparr>RecursionAvailable := True\<rparr>
           in if RecursionDesired req \<and> unhandledQuestions \<noteq> []
              then (let (resRec, s2) = HandleRecursiveQuery L E exchange
                          (req\<lparr>Questions := unhandledQuestions\<rparr>) newMsg s1
                    in Some (res1\<lparr>Answer := Answer res1 @ Answer resRec,
                                  Extra := Extra res1 @ Extra resRec,
                                  Ns := Ns res1 @ Ns resRec\<rparr>, s2))
              else Some (res1, s1)))"

section \<open>The reference\<close>

text \<open>The first wildcard name above \<open>name\<close>, nearest first, that has valid records of the type.\<close>

definition refWildcard :: "dns_lib \<Rightarrow> storeMap \<Rightarrow> rrType \<Rightarrow> string \<Rightarrow> dnsRR list" where
  "refWildcard L st ty name =
     (case List.find (\<lambda>rrs. rrs \<noteq> [])
             (map (\<lambda>p. parseRRs L (rrsAt st (''*.'' @ p) ty)) (parents name)) of
        None \<Rightarrow> [] | Some rrs \<Rightarrow> rrs)"

definition refGlue :: "dns_lib \<Rightarrow> storeMap \<Rightarrow> string \<Rightarrow> dnsRR list" where
  "refGlue L st ns =
     (let own = parseRRs L (rrsAt st ns TypeA) in if own \<noteq> [] then own else refWildcard L st TypeA ns)"

definition refGlues :: "dns_lib \<Rightarrow> storeMap \<Rightarrow> dnsRR option list \<Rightarrow> dnsRR list" where
  "refGlues L st rrs = concat (map (\<lambda>rr. case rr of
       None \<Rightarrow> []
     | Some nsRR \<Rightarrow> (case rr_data nsRR of RD_NS ns \<Rightarrow> refGlue L st ns | _ \<Rightarrow> [])) rrs)"

definition refBelow ::
    "dns_lib \<Rightarrow> env \<Rightarrow> storeMap \<Rightarrow> string \<Rightarrow> rrType \<Rightarrow> dnsMsg \<Rightarrow> store_base
       \<Rightarrow> bool \<times> dnsMsg \<times> store_base" where
  "refBelow L E st n ty r b =
     (let (crs, b1) = getCacheRecords L E n ty b;
          rrs = stringsToRRs L (rrsAt st n TypeNS);
          stars = refWildcard L st ty n
      in if crs \<noteq> [] then (True, r\<lparr>Answer := Answer r @ crs\<rparr>, b1)
         else if rrs \<noteq> [] then (False, r\<lparr>Ns := Ns r @ rrs, Extra := Extra r @ refGlues L st rrs\<rparr>, b1)
         else (stars \<noteq> [], r\<lparr>Answer := Answer r @ map (\<lambda>rr. rr\<lparr>hdr_Name := n\<rparr>) stars\<rparr>, b1))"

definition refCname :: "dns_lib \<Rightarrow> storeMap \<Rightarrow> rrType \<Rightarrow> string \<Rightarrow> dnsRR option" where
  "refCname L st ty n =
     (if ty = TypeCNAME then None
      else case rrsAt st n TypeCNAME of [] \<Rightarrow> None | c # _ \<Rightarrow> parseRR L c)"

partial_function (option) resolve ::
    "dns_lib \<Rightarrow> env \<Rightarrow> storeMap \<Rightarrow> string \<Rightarrow> rrType \<Rightarrow> dnsMsg \<Rightarrow> store_base
       \<Rightarrow> (bool \<times> dnsMsg \<times> store_base) option" where
  "resolve L E st name ty r b =
     (let n = toLower name; exact = parseRRs L (rrsAt st n ty)
      in if exact \<noteq> [] then Some (True, r\<lparr>Answer := Answer r @ exact\<rparr>, b)
         else (case refCname L st ty n of
             None \<Rightarrow> Some (refBelow L E st n ty r b)
           | Some rr \<Rightarrow>
               (case rr_data rr of
                  RD_CNAME target \<Rightarrow> resolve L E st target ty (r\<lparr>Answer := Answer r @ [rr]\<rparr>) b
                | _ \<Rightarrow> Some (refBelow L E st n ty (r\<lparr>Answer := Answer r @ [rr]\<rparr>) b))))"

lemma recordsOf_lookup [simp]: "recordsOf L ty (fmlookup st n) = parseRRs L (rrsAt st n ty)"
  by (simp add: recordsOf_def rrsAt_def split: option.split)

lemma cnameRecord_lookup [simp]: "cnameRecord L ty (fmlookup st n) = refCname L st ty n"
  by (simp add: cnameRecord_def refCname_def rrsAt_def split: option.split)

lemma wildcardLoop_stop:
  "popLeftmostLabel n = ([], r) \<Longrightarrow> wildcardLoop look L ty n s = ([], s)"
  by (subst wildcardLoop.simps) simp

lemma wildcardLoop_hit:
  "popLeftmostLabel n = (l, r) \<Longrightarrow> l \<noteq> [] \<Longrightarrow> recordsOf L ty (fst (look (''*.'' @ r) s)) \<noteq> [] \<Longrightarrow>
     wildcardLoop look L ty n s
     = (recordsOf L ty (fst (look (''*.'' @ r) s)), snd (look (''*.'' @ r) s))"
  by (subst wildcardLoop.simps) (simp add: split_beta)

lemma wildcardLoop_next:
  "popLeftmostLabel n = (l, r) \<Longrightarrow> l \<noteq> [] \<Longrightarrow> recordsOf L ty (fst (look (''*.'' @ r) s)) = [] \<Longrightarrow>
     wildcardLoop look L ty n s = wildcardLoop look L ty r (snd (look (''*.'' @ r) s))"
  by (subst wildcardLoop.simps) (simp add: split_beta)

lemma parents_next:
  "popLeftmostLabel n = (l, r) \<Longrightarrow> l \<noteq> [] \<Longrightarrow> parents n = r # parents r"
  by (subst parents.simps) simp

lemma refWildcard_stop: "popLeftmostLabel n = ([], r) \<Longrightarrow> refWildcard L st ty n = []"
  by (simp add: refWildcard_def parents_stop)

lemma refWildcard_hit:
  "popLeftmostLabel n = (l, r) \<Longrightarrow> l \<noteq> [] \<Longrightarrow> parseRRs L (rrsAt st (''*.'' @ r) ty) \<noteq> [] \<Longrightarrow>
     refWildcard L st ty n = parseRRs L (rrsAt st (''*.'' @ r) ty)"
  by (simp add: refWildcard_def parents_next)

lemma refWildcard_next:
  "popLeftmostLabel n = (l, r) \<Longrightarrow> l \<noteq> [] \<Longrightarrow> parseRRs L (rrsAt st (''*.'' @ r) ty) = [] \<Longrightarrow>
     refWildcard L st ty n = refWildcard L st ty r"
  by (simp add: refWildcard_def parents_next)

lemma getCacheRecords_base:
  "fst (getCacheRecords L E n ty (store_base.truncate s)) = fst (getCacheRecords L E n ty s)"
  "snd (getCacheRecords L E n ty (store_base.truncate s))
     = store_base.truncate (snd (getCacheRecords L E n ty s))"
  by (simp_all add: getCacheRecords_def store_base.truncate_def split_beta split: option.splits)

lemma truncate_cache [simp]: "cache (store_base.truncate s) = cache s"
  by (simp add: store_base.truncate_def)

text \<open>Only the cache and the whispered messages change.\<close>

definition cacheFrame :: "'a store_base_scheme \<Rightarrow> 'a store_base_scheme \<Rightarrow> bool" where
  "cacheFrame s t \<longleftrightarrow> t = s\<lparr>cache := cache t, whispered := whispered t\<rparr>"

lemma cacheFrame_refl [simp]: "cacheFrame s s"
  by (simp add: cacheFrame_def)

lemma cacheFrame_trans: "cacheFrame s t \<Longrightarrow> cacheFrame t u \<Longrightarrow> cacheFrame s u"
  by (cases s, cases t, cases u) (simp add: cacheFrame_def)

lemma cacheFrame_update: "cacheFrame s0 s \<Longrightarrow> cacheFrame s0 (s\<lparr>cache := c, whispered := w\<rparr>)"
  by (cases s0, cases s) (simp add: cacheFrame_def)

lemma getCacheRecords_cacheFrame: "cacheFrame s (snd (getCacheRecords L E n ty s))"
  by (simp add: cacheFrame_def getCacheRecords_def split_beta split: option.split)

section \<open>What resolution needs of a lookup\<close>

text \<open>
  \<open>names\<close> is the record map a state stands for. A lookup reads it, may rearrange the state
  otherwise, and leaves the fields of the base record alone; the cache is no part of it.
\<close>

locale name_finder =
  fixes look :: "'a store_base_scheme finder"
    and names :: "'a store_base_scheme \<Rightarrow> storeMap"
    and ok :: "'a store_base_scheme \<Rightarrow> bool"
  assumes look_val: "ok s \<Longrightarrow> fst (look n s) = fmlookup (names s) n"
    and look_ok: "ok s \<Longrightarrow> ok (snd (look n s))"
    and look_names: "ok s \<Longrightarrow> names (snd (look n s)) = names s"
    and look_base: "ok s \<Longrightarrow> store_base.truncate (snd (look n s)) = store_base.truncate s"
    and cache_ok: "ok s \<Longrightarrow> ok (s\<lparr>cache := c, whispered := w\<rparr>)"
    and cache_names: "names (s\<lparr>cache := c, whispered := w\<rparr>) = names s"
begin

lemma frame_laws:
  assumes "cacheFrame s t" "ok s"
  shows "ok t" "names t = names s"
  using assms cache_ok [of s "whispered t"] cache_names unfolding cacheFrame_def by metis+

lemmas look_laws = look_val look_ok look_names look_base

lemma wildcard_ref:
  "ok s \<Longrightarrow> fst (wildcardLoop look L ty n s) = refWildcard L (names s) ty n
    \<and> ok (snd (wildcardLoop look L ty n s))
    \<and> names (snd (wildcardLoop look L ty n s)) = names s
    \<and> store_base.truncate (snd (wildcardLoop look L ty n s)) = store_base.truncate s"
proof (induction "length n" arbitrary: n s rule: less_induct)
  case less
  obtain l r where pop: "popLeftmostLabel n = (l, r)" by fastforce
  let ?s = "snd (look (''*.'' @ r) s)"
  have val: "recordsOf L ty (fst (look (''*.'' @ r) s)) = parseRRs L (rrsAt (names s) (''*.'' @ r) ty)"
    by (simp add: look_val less.prems)
  note laws = look_ok [OF less.prems] look_names [OF less.prems] look_base [OF less.prems]
  consider "l = []" | "l \<noteq> []" "parseRRs L (rrsAt (names s) (''*.'' @ r) ty) \<noteq> []"
    | "l \<noteq> []" "parseRRs L (rrsAt (names s) (''*.'' @ r) ty) = []" by blast
  then show ?case
  proof cases
    case 1
    with pop less.prems show ?thesis by (simp add: wildcardLoop_stop refWildcard_stop)
  next
    case 2
    with pop laws val show ?thesis by (simp add: wildcardLoop_hit refWildcard_hit)
  next
    case 3
    from pop 3(1) have "length r < length n" by (rule popLeftmostLabel_shorter)
    from less.hyps [OF this laws(1)] pop 3 laws val show ?thesis
      by (simp add: wildcardLoop_next refWildcard_next)
  qed
qed

lemma glue_ref:
  assumes "ok s"
  shows "fst (getGlueRecords look L n s) = refGlue L (names s) n
    \<and> ok (snd (getGlueRecords look L n s))
    \<and> names (snd (getGlueRecords look L n s)) = names s
    \<and> store_base.truncate (snd (getGlueRecords look L n s)) = store_base.truncate s"
  using look_laws [OF assms, of n] wildcard_ref [OF look_ok [OF assms], of L TypeA n n]
  by (simp add: getGlueRecords_def refGlue_def split_beta Let_def)

lemma glues_ref:
  "ok s \<Longrightarrow> fst (collectGlue look L rrs s) = refGlues L (names s) rrs
    \<and> ok (snd (collectGlue look L rrs s))
    \<and> names (snd (collectGlue look L rrs s)) = names s
    \<and> store_base.truncate (snd (collectGlue look L rrs s)) = store_base.truncate s"
proof (induction rrs arbitrary: s)
  case (Cons rr rrs)
  show ?case
  proof (cases "\<exists>x ns. rr = Some x \<and> rr_data x = RD_NS ns")
    case True
    then obtain x ns where "rr = Some x" "rr_data x = RD_NS ns" by blast
    with glue_ref [OF Cons.prems, of L ns] Cons.IH [of "snd (getGlueRecords look L ns s)"]
    show ?thesis by (simp add: split_beta refGlues_def)
  next
    case False
    with Cons show ?thesis by (auto simp: refGlues_def split: option.splits rdata.splits)
  qed
qed (simp add: refGlues_def)

lemma below_ref:
  assumes "ok s"
  shows "fst (answerBelow look L E n ty (fmlookup (names s) n) r s)
           = fst (refBelow L E (names s) n ty r (store_base.truncate s))
    \<and> fst (snd (answerBelow look L E n ty (fmlookup (names s) n) r s))
           = fst (snd (refBelow L E (names s) n ty r (store_base.truncate s)))
    \<and> store_base.truncate (snd (snd (answerBelow look L E n ty (fmlookup (names s) n) r s)))
           = snd (snd (refBelow L E (names s) n ty r (store_base.truncate s)))
    \<and> ok (snd (snd (answerBelow look L E n ty (fmlookup (names s) n) r s)))
    \<and> names (snd (snd (answerBelow look L E n ty (fmlookup (names s) n) r s))) = names s"
proof -
  let ?s = "snd (getCacheRecords L E n ty s)"
  have s: "ok ?s" "names ?s = names s"
    by (rule frame_laws [OF getCacheRecords_cacheFrame assms])+
  have ns: "stringsToRRs L (rrsAt st n TypeNS) = (case fmlookup st n of None \<Rightarrow> []
      | Some tm \<Rightarrow> stringsToRRs L (fm_getl tm TypeNS))" for st
    by (simp add: rrsAt_def stringsToRRs_def split: option.split)
  show ?thesis
    using s glues_ref [OF s(1), of L] wildcard_ref [OF s(1), of L ty n]
    by (auto simp: answerBelow_def refBelow_def delegate_def ns split_beta Let_def
        getCacheRecords_base split: option.splits)
qed

lemma handle_step:
  assumes "ok s" "n = toLower name"
  shows "HandleQuestion look L E name ty r s =
      (let exact = parseRRs L (rrsAt (names s) n ty); t = snd (look n s)
       in if exact \<noteq> [] then Some (True, r\<lparr>Answer := Answer r @ exact\<rparr>, t)
          else (case refCname L (names s) ty n of
              None \<Rightarrow> Some (answerBelow look L E n ty (fmlookup (names s) n) r t)
            | Some rr \<Rightarrow>
                (case rr_data rr of
                   RD_CNAME target \<Rightarrow> HandleQuestion look L E target ty (r\<lparr>Answer := Answer r @ [rr]\<rparr>) t
                 | _ \<Rightarrow> Some (answerBelow look L E n ty (fmlookup (names s) n)
                          (r\<lparr>Answer := Answer r @ [rr]\<rparr>) t))))"
  unfolding assms(2)
  by (subst HandleQuestion.simps) (simp add: Let_def look_val [OF assms(1)] split: option.split rdata.split)

lemma handle_sound:
  assumes "HandleQuestion lk L E name ty r s = Some y" "lk = look" "ok s"
  shows "resolve L E (names s) name ty r (store_base.truncate s)
           = Some (fst y, fst (snd y), store_base.truncate (snd (snd y)))
    \<and> ok (snd (snd y)) \<and> names (snd (snd y)) = names s"
  using assms
proof (induction rule: HandleQuestion.raw_induct [rotated, consumes 1, case_names step])
  case (step f lk L E name ty r s y)
  let ?n = "toLower name"
  let ?s = "snd (look ?n s)"
  let ?exact = "parseRRs L (rrsAt (names s) ?n ty)"
  note laws = look_laws [OF \<open>ok s\<close>, of ?n]
  note below = below_ref [OF laws(2), of L E ?n ty, unfolded laws(3,4)]
  note eq = step.hyps [unfolded \<open>lk = look\<close>]
  show ?case
  proof (cases "?exact = []")
    case False
    with eq laws show ?thesis by (auto simp: resolve.simps [of L E "names s"] Let_def)
  next
    case True
    show ?thesis
    proof (cases "\<exists>rr tgt. refCname L (names s) ty ?n = Some rr \<and> rr_data rr = RD_CNAME tgt")
      case found: True
      then obtain rr tgt where rr: "refCname L (names s) ty ?n = Some rr" "rr_data rr = RD_CNAME tgt"
        by blast
      with eq True laws have "f look L E tgt ty (r\<lparr>Answer := Answer r @ [rr]\<rparr>) ?s = Some y"
        by (simp add: Let_def)
      from step.IH [OF this refl laws(2)] True rr laws show ?thesis
        by (simp add: resolve.simps [of L E "names s" name] Let_def)
    next
      case nf: False
      then obtain r' where r': "resolve L E (names s) name ty r (store_base.truncate s)
             = Some (refBelow L E (names s) ?n ty r' (store_base.truncate s))"
          "y = answerBelow look L E ?n ty (fmlookup (names s) ?n) r' ?s"
        using eq True laws
        by (auto simp: resolve.simps [of L E "names s" name] Let_def split: option.splits rdata.splits)
      then show ?thesis using below [of r'] laws(3) by (simp add: prod_eq_iff)
    qed
  qed
qed

lemma handle_complete:
  assumes "resolve L E st name ty r b = Some z" "st = names s" "ok s"
  shows "HandleQuestion look L E name ty r s \<noteq> None"
  using assms
proof (induction arbitrary: s rule: resolve.raw_induct [rotated, consumes 1, case_names step])
  case (step f L E st name ty r b z)
  let ?n = "toLower name"
  note laws = look_laws [OF \<open>ok s\<close>, of ?n]
  have IH: "f L E st tgt ty (r\<lparr>Answer := Answer r @ [rr]\<rparr>) b = Some z \<Longrightarrow>
      HandleQuestion look L E tgt ty (r\<lparr>Answer := Answer r @ [rr]\<rparr>) (snd (look ?n s)) \<noteq> None"
    for tgt rr using step.IH step.prems laws by simp
  show ?case
    using step.hyps step.prems IH
    by (auto simp: handle_step [OF _ refl] Let_def simp del: not_None_eq
        split: option.splits rdata.splits if_splits)
qed

lemma handle_resolve:
  assumes "ok s"
  shows "map_option (\<lambda>(h, r', s'). (h, r', store_base.truncate s'))
           (HandleQuestion look L E name ty r s)
         = resolve L E (names s) name ty r (store_base.truncate s)"
proof (cases "HandleQuestion look L E name ty r s")
  case None
  with handle_complete [OF _ refl assms] show ?thesis
    by (cases "resolve L E (names s) name ty r (store_base.truncate s)") fastforce+
next
  case (Some y)
  with handle_sound [OF Some refl assms] show ?thesis by (simp add: split_beta)
qed

lemma handle_frame:
  "HandleQuestion look L E name ty r s = Some (h, r', s') \<Longrightarrow> ok s \<Longrightarrow> ok s' \<and> names s' = names s"
  using handle_sound by fastforce

end

section \<open>The two simplest lookups\<close>

text \<open>The in-memory store, and a fixed record map beside a base record.\<close>

definition flatFinder :: "dnsStore finder" where
  "flatFinder n s = (lookupNameMap n s, s)"

definition fixedFinder :: "storeMap \<Rightarrow> store_base finder" where
  "fixedFinder st n b = (fmlookup st n, b)"

definition HandleSingleQuestion ::
    "dns_lib \<Rightarrow> env \<Rightarrow> string \<Rightarrow> rrType \<Rightarrow> dnsMsg \<Rightarrow> dnsStore \<Rightarrow> (bool \<times> dnsMsg \<times> dnsStore) option" where
  "HandleSingleQuestion = HandleQuestion flatFinder"

definition ProcessDNSQuery ::
    "dns_lib \<Rightarrow> env \<Rightarrow> (dnsMsg \<Rightarrow> dnsMsg) \<Rightarrow> (dnsMsg \<Rightarrow> dnsMsg option) \<Rightarrow> dnsMsg \<Rightarrow> dnsStore
       \<Rightarrow> (dnsMsg \<times> dnsStore) option" where
  "ProcessDNSQuery = ProcessQuery flatFinder"

text \<open>For the in-memory store the kept condition is that nothing but the cache has changed.\<close>

interpretation ff: name_finder flatFinder store "cacheFrame s0" for s0
  by unfold_locales (simp_all add: flatFinder_def lookupNameMap_def cacheFrame_update)

interpretation xf: name_finder "fixedFinder st" "\<lambda>b. st" "\<lambda>b. True" for st
  by unfold_locales (simp_all add: fixedFinder_def)

lemma truncate_base [simp]: "store_base.truncate (b :: store_base) = b"
  by (simp add: store_base.truncate_def)

lemma handle_fixed: "HandleQuestion (fixedFinder st) L E name ty r b = resolve L E st name ty r b"
  using xf.handle_resolve [where s = b and st = st and L = L and E = E and name = name and ty = ty and r = r] by (simp add: option.map_id0 id_def [symmetric] split_beta)

lemma addCacheRecords_base:
  "addCacheRecords L E rrs (store_base.truncate s) = store_base.truncate (addCacheRecords L E rrs s)"
proof (induction rrs arbitrary: s)
  case (Cons rr rrs)
  have "addCacheRecord L E rr True (store_base.truncate s)
        = store_base.truncate (addCacheRecord L E rr True s)"
    by (simp add: addCacheRecord_def whisperAddCacheRecord_def store_base.truncate_def Let_def)
  with Cons show ?case by simp
qed simp

lemma addCacheRecords_frame: "cacheFrame s (addCacheRecords L E rrs s)"
proof (induction rrs arbitrary: s)
  case (Cons rr rrs)
  have "cacheFrame s (addCacheRecord L E rr True s)"
    by (simp add: cacheFrame_def addCacheRecord_def whisperAddCacheRecord_def Let_def)
  from cacheFrame_trans [OF this Cons] show ?case by simp
qed simp

lemma recursive_frame: "cacheFrame s (snd (HandleRecursiveQuery L E exchange req r s))"
  by (simp add: HandleRecursiveQuery_def Let_def split: option.split)
    (meson cacheFrame_trans addCacheRecords_frame)

lemma recursive_base:
  "HandleRecursiveQuery L E exchange req r (store_base.truncate s)
   = map_prod id store_base.truncate (HandleRecursiveQuery L E exchange req r s)"
  by (simp add: HandleRecursiveQuery_def addCacheRecords_base Let_def split: option.split)

context name_finder begin

lemma handle_fixed_eq:
  assumes "ok s"
  shows "map_option (\<lambda>(h, r', s'). (h, r', store_base.truncate s'))
           (HandleQuestion look L E name ty r s)
         = HandleQuestion (fixedFinder (names s)) L E name ty r (store_base.truncate s)"
  by (simp add: handle_fixed handle_resolve [OF assms])

lemma questions_ref:
  "ok s \<Longrightarrow> map_option (\<lambda>(u, r', s'). (u, r', store_base.truncate s')) (handleQuestions look L E qs r s)
     = handleQuestions (fixedFinder (names s)) L E qs r (store_base.truncate s)
   \<and> (\<forall>u r' s'. handleQuestions look L E qs r s = Some (u, r', s') \<longrightarrow> ok s' \<and> names s' = names s)"
proof (induction qs arbitrary: r s)
  case (Cons q qs)
  show ?case
  proof (cases "HandleQuestion look L E (q_Name q) (q_Qtype q) r s")
    case None
    with handle_fixed_eq [OF Cons.prems, of L E "q_Name q" "q_Qtype q" r] show ?thesis by simp
  next
    case (Some y)
    obtain h r1 s1 where y: "y = (h, r1, s1)" by (cases y)
    from handle_fixed_eq [OF Cons.prems, of L E "q_Name q" "q_Qtype q" r] Some y
    have fx: "HandleQuestion (fixedFinder (names s)) L E (q_Name q) (q_Qtype q) r (store_base.truncate s)
        = Some (h, r1, store_base.truncate s1)" by simp
    from handle_frame [OF Some [unfolded y] Cons.prems] have s1: "ok s1" "names s1 = names s"
      by simp_all
    show ?thesis
    proof (cases "handleQuestions look L E qs r1 s1")
      case None
      with Cons.IH [OF s1(1), of r1] fx Some y s1(2) show ?thesis by simp
    next
      case (Some z)
      obtain u r2 s2 where z: "z = (u, r2, s2)" by (cases z)
      with Some Cons.IH [OF s1(1), of r1] s1(2)
      have "handleQuestions (fixedFinder (names s)) L E qs r1 (store_base.truncate s1)
            = Some (u, r2, store_base.truncate s2)" "ok s2" "names s2 = names s" by auto
      with fx \<open>HandleQuestion look L E (q_Name q) (q_Qtype q) r s = Some y\<close> y Some z s1 show ?thesis
        by simp
    qed
  qed
qed simp

lemma process_ref:
  assumes "ok s"
  shows "map_option (map_prod id store_base.truncate) (ProcessQuery look L E setReply exchange req s)
         = ProcessQuery (fixedFinder (names s)) L E setReply exchange req (store_base.truncate s)"
proof (cases "handleQuestions look L E (Questions req) (setReply req) s")
  case None
  with questions_ref [OF assms, of L E "Questions req" "setReply req"] show ?thesis
    by (simp add: ProcessQuery_def)
next
  case (Some y)
  obtain u r1 s1 where "y = (u, r1, s1)" by (cases y)
  with Some questions_ref [OF assms, of L E "Questions req" "setReply req"] show ?thesis
    by (auto simp: ProcessQuery_def Let_def recursive_base split_beta dest!: sym [of "Some _"])
qed

lemma process_frame:
  assumes "ProcessQuery look L E setReply exchange req s = Some (r', s')" "ok s"
  shows "ok s' \<and> names s' = names s"
proof -
  obtain u r1 s1 where q: "handleQuestions look L E (Questions req) (setReply req) s = Some (u, r1, s1)"
    using assms by (auto simp: ProcessQuery_def split: option.splits)
  with questions_ref [OF assms(2), of L E "Questions req" "setReply req"]
  have s1: "ok s1" "names s1 = names s" by blast+
  have "cacheFrame s1 s'"
    using assms(1) q recursive_frame [of s1]
    by (auto simp: ProcessQuery_def Let_def split_beta split: if_splits)
  from frame_laws [OF this s1(1)] s1(2) show ?thesis by simp
qed

end

section \<open>CNAME chains\<close>

text \<open>One step along a CNAME record, for a name that has no record of the type asked for.\<close>

definition cnameNext :: "dns_lib \<Rightarrow> storeMap \<Rightarrow> rrType \<Rightarrow> string \<Rightarrow> string option" where
  "cnameNext L st ty n =
     (if parseRRs L (rrsAt st n ty) \<noteq> [] then None
      else case refCname L st ty n of
          None \<Rightarrow> None
        | Some rr \<Rightarrow> (case rr_data rr of RD_CNAME target \<Rightarrow> Some (toLower target) | _ \<Rightarrow> None))"

inductive cnameStep :: "dns_lib \<Rightarrow> storeMap \<Rightarrow> rrType \<Rightarrow> string \<Rightarrow> string \<Rightarrow> bool"
  for L st ty where
  "cnameNext L st ty n = Some m \<Longrightarrow> cnameStep L st ty n m"

inductive_simps cnameStep_iff: "cnameStep L st ty n m"

lemma cnameNext_dom: "cnameNext L st ty n = Some m \<Longrightarrow> n \<in> fmdom' st"
  by (rule ccontr) (simp add: cnameNext_def refCname_def rrsAt_def fmlookup_dom'_iff split: if_splits)

lemma resolve_next:
  "cnameNext L st ty (toLower name) = Some m \<Longrightarrow>
     \<exists>t rr. m = toLower t \<and>
       resolve L E st name ty r b = resolve L E st t ty (r\<lparr>Answer := Answer r @ [rr]\<rparr>) b"
  by (auto simp: cnameNext_def resolve.simps [of L E st name] Let_def
      split: if_splits option.splits rdata.splits)

lemma resolve_last:
  "cnameNext L st ty (toLower name) = None \<Longrightarrow> resolve L E st name ty r b \<noteq> None"
  by (auto simp: cnameNext_def resolve.simps [of L E st name] Let_def simp del: not_None_eq
      split: if_splits option.splits rdata.splits)

lemma resolve_Some_acyclic:
  "resolve L E st name ty r b = Some z \<Longrightarrow> (cnameStep L st ty)\<^sup>*\<^sup>* (toLower name) m \<Longrightarrow>
     \<not> (cnameStep L st ty)\<^sup>+\<^sup>+ m m"
proof (induction arbitrary: m rule: resolve.raw_induct [rotated, consumes 1, case_names step])
  case (step f L E st name ty r b z)
  let ?R = "cnameStep L st ty"
  show ?case
  proof (cases "cnameNext L st ty (toLower name)")
    case None
    then have stop: "\<not> ?R (toLower name) k" for k by (simp add: cnameStep_iff)
    with step.prems have "m = toLower name" by (auto elim: converse_rtranclpE)
    with stop show ?thesis by (auto dest: tranclpD)
  next
    case (Some k)
    with step.hyps obtain t rr where k: "k = toLower t"
        "f L E st t ty (r\<lparr>Answer := Answer r @ [rr]\<rparr>) b = Some z"
      by (auto simp: cnameNext_def Let_def split: if_splits option.splits rdata.splits)
    have det: "?R (toLower name) j \<Longrightarrow> j = k" for j using Some by (simp add: cnameStep_iff)
    show ?thesis
    proof (cases "m = toLower name")
      case True
      have "\<not> ?R\<^sup>+\<^sup>+ (toLower name) (toLower name)"
      proof
        assume cyc: "?R\<^sup>+\<^sup>+ (toLower name) (toLower name)"
        then obtain j where "?R (toLower name) j" "?R\<^sup>*\<^sup>* j (toLower name)" by (blast dest: tranclpD)
        with det k step.IH [OF k(2), of "toLower name"] cyc show False by simp
      qed
      with True show ?thesis by simp
    next
      case False
      with step.prems det k have "?R\<^sup>*\<^sup>* (toLower t) m" by (metis converse_rtranclpE)
      with step.IH [OF k(2)] show ?thesis by simp
    qed
  qed
qed

lemma resolve_None_cycle:
  assumes "resolve L E st name ty r b = None"
  shows "\<exists>m. (cnameStep L st ty)\<^sup>*\<^sup>* (toLower name) m \<and> (cnameStep L st ty)\<^sup>+\<^sup>+ m m"
proof (rule ccontr)
  let ?R = "cnameStep L st ty" and ?n = "toLower name"
  assume no_cycle: "\<not> ?thesis"
  let ?S = "{(m, k). ?R k m \<and> ?R\<^sup>*\<^sup>* ?n k}"
  have "?S \<subseteq> (\<lambda>k. (the (cnameNext L st ty k), k)) ` fmdom' st"
    by (auto simp: cnameStep_iff image_iff dest: cnameNext_dom)
  then have "finite ?S" by (rule finite_subset) simp
  moreover have "acyclic ?S"
  proof (rule acyclicI, intro allI notI)
    fix m assume "(m, m) \<in> ?S\<^sup>+"
    have "?R\<^sup>+\<^sup>+ k j \<and> ?R\<^sup>*\<^sup>* ?n k" if "(j, k) \<in> ?S\<^sup>+" for j k
      using that by (induction rule: trancl_induct) (auto intro: tranclp_into_tranclp2)
    from this [OF \<open>(m, m) \<in> ?S\<^sup>+\<close>] no_cycle show False by blast
  qed
  ultimately have "wf ?S" by (rule finite_acyclic_wf)
  then have "toLower x = k \<Longrightarrow> ?R\<^sup>*\<^sup>* ?n k \<Longrightarrow> resolve L E st x ty r b \<noteq> None" for k x r
  proof (induction k arbitrary: x r)
    case (less k)
    show ?case
    proof (cases "cnameNext L st ty k")
      case None
      from resolve_last [OF this [folded less.prems(1)]] show ?thesis .
    next
      case (Some m)
      from resolve_next [OF this [folded less.prems(1)]]
      obtain t rr where t: "m = toLower t"
          "resolve L E st x ty r b = resolve L E st t ty (r\<lparr>Answer := Answer r @ [rr]\<rparr>) b"
        by blast
      from Some have step: "?R k m" by (rule cnameStep.intros)
      with less.prems(2) have "(m, k) \<in> ?S" "?R\<^sup>*\<^sup>* ?n m" by (blast, rule rtranclp.rtrancl_into_rtrancl)
      from less.IH [OF this(1) t(1) [symmetric] this(2)] show ?thesis unfolding t(2) .
    qed
  qed
  from this [OF refl rtranclp.rtrancl_refl] assms show False by blast
qed


section \<open>Answers\<close>

text \<open>A response only gets records appended to its sections.\<close>

definition msgGrows :: "dnsMsg \<Rightarrow> dnsMsg \<Rightarrow> bool" where
  "msgGrows r r' \<longleftrightarrow> (\<exists>as ns ex.
     r' = r\<lparr>Answer := Answer r @ as, Ns := Ns r @ ns, Extra := Extra r @ ex\<rparr>)"

lemma msgGrows_refl [simp]: "msgGrows r r"
  unfolding msgGrows_def by (intro exI [of _ "[]"]) simp

lemma msgGrows_answer [simp]: "msgGrows r (r\<lparr>Answer := Answer r @ as\<rparr>)"
  unfolding msgGrows_def by (intro exI [of _ as] exI [of _ "[]"]) simp

lemma msgGrows_referral [simp]: "msgGrows r (r\<lparr>Ns := Ns r @ ns, Extra := Extra r @ ex\<rparr>)"
  unfolding msgGrows_def by (rule exI [of _ "[]"], rule exI [of _ ns], rule exI [of _ ex]) simp

lemma msgGrows_trans: "msgGrows r r' \<Longrightarrow> msgGrows r' r'' \<Longrightarrow> msgGrows r r''"
  unfolding msgGrows_def by auto blast

lemma refBelow_grows: "msgGrows r (fst (snd (refBelow L E st n ty r b)))"
  by (simp add: refBelow_def Let_def split_beta)

lemma resolve_grows:
  "resolve L E st name ty r b = Some z \<Longrightarrow> msgGrows r (fst (snd z))"
proof (induction rule: resolve.raw_induct [rotated, consumes 1, case_names step])
  case (step f L E st name ty r b z)
  have below: "msgGrows r (fst (snd (refBelow L E st n ty (r\<lparr>Answer := Answer r @ as\<rparr>) b)))" for as n
    by (rule msgGrows_trans [OF msgGrows_answer refBelow_grows])
  have IH: "f L E st t ty (r\<lparr>Answer := Answer r @ [rr]\<rparr>) b = Some z \<Longrightarrow> msgGrows r (fst (snd z))" for t rr
    by (rule msgGrows_trans [OF msgGrows_answer step.IH])
  from step.hyps show ?case
    by (auto simp: Let_def below refBelow_grows IH split: if_splits option.splits rdata.splits)
qed

lemma resolve_exact:
  "parseRRs L (rrsAt st (toLower name) ty) \<noteq> [] \<Longrightarrow> resolve L E st name ty r b
     = Some (True, r\<lparr>Answer := Answer r @ parseRRs L (rrsAt st (toLower name) ty)\<rparr>, b)"
  by (simp add: resolve.simps Let_def)

lemma HandleSingleQuestion_exact:
  "parseRRs L (rrsAt (store s) (toLower name) ty) \<noteq> [] \<Longrightarrow>
   HandleSingleQuestion L E name ty r s
     = Some (True, r\<lparr>Answer := Answer r @ parseRRs L (rrsAt (store s) (toLower name) ty)\<rparr>, s)"
  unfolding HandleSingleQuestion_def
  by (subst ff.handle_step [OF cacheFrame_refl refl]) (simp add: flatFinder_def)

lemma HandleSingleQuestion_None_iff:
  "HandleSingleQuestion L E name ty r s = None
     \<longleftrightarrow> resolve L E (store s) name ty r (store_base.truncate s) = None"
  unfolding HandleSingleQuestion_def
  using ff.handle_resolve [OF cacheFrame_refl, of L E name ty r s] by (metis option.map_disc_iff)

lemma find_append_first: "\<forall>y \<in> set ys. \<not> P y \<Longrightarrow> P x \<Longrightarrow> List.find P (ys @ x # zs) = Some x"
  by (induction ys) simp_all

lemma refWildcard_nearest:
  assumes "parents n = ps @ p # qs" "\<forall>q \<in> set ps. parseRRs L (rrsAt st (''*.'' @ q) ty) = []"
    and "parseRRs L (rrsAt st (''*.'' @ p) ty) \<noteq> []"
  shows "refWildcard L st ty n = parseRRs L (rrsAt st (''*.'' @ p) ty)"
  using find_append_first [of "map (\<lambda>p. parseRRs L (rrsAt st (''*.'' @ p) ty)) ps" "\<lambda>rrs. rrs \<noteq> []"
      "parseRRs L (rrsAt st (''*.'' @ p) ty)"] assms
  by (simp add: refWildcard_def)

lemma flat_query:
  assumes "HandleSingleQuestion L E name ty r s = Some (h, r', s')"
  shows "resolve L E (store s) name ty r (store_base.truncate s) = Some (h, r', store_base.truncate s')"
    "store s' = store s" "cacheFrame s s'"
  using ff.handle_sound [OF assms [unfolded HandleSingleQuestion_def] refl cacheFrame_refl]
  by simp_all


lemma flat_query_exists:
  assumes "resolve L E (store s) name ty r (store_base.truncate s) = Some (h, r', b)"
  shows "\<exists>s'. HandleSingleQuestion L E name ty r s = Some (h, r', s') \<and> store s' = store s"
proof -
  from assms obtain y where y: "HandleSingleQuestion L E name ty r s = Some y"
    using HandleSingleQuestion_None_iff [of L E name ty r s] by force
  obtain h2 r2 s2 where "y = (h2, r2, s2)" by (cases y)
  with flat_query [OF y [unfolded this]] y assms show ?thesis by simp
qed

text \<open>A store with one record, for the examples.\<close>

definition oneRecord :: "dnsRR \<Rightarrow> dnsStore" where
  "oneRecord rr = (emptyDNSStore [] 1)\<lparr>store := storeInsert sampleLib rr fmempty\<rparr>"

lemma oneRecord_simps [simp]:
  "rrsAt (store (oneRecord rr)) n ty =
     (if n = toLower (hdr_Name rr) \<and> ty = hdr_Rrtype rr then [RRString sampleLib rr] else [])"
  "cache (oneRecord rr) = fmempty"
  by (auto simp: oneRecord_def emptyDNSStore_def go_simps)

lemma getCacheRecords_empty: "cache s = fmempty \<Longrightarrow> getCacheRecords L E n ty s = ([], s)"
  by (simp add: getCacheRecords_def)

section \<open>Properties\<close>

text \<open>
  C4. Resolution is the reference: \<open>HandleSingleQuestion\<close> returns exactly when \<open>resolve\<close> does, with
  the same verdict, the same response and the same cache, and leaves the records alone.
\<close>

theorem question_equals_reference:
  "map_option (\<lambda>(h, r', s'). (h, r', store_base.truncate s', store s'))
     (HandleSingleQuestion L E name ty r s)
   = map_option (\<lambda>(h, r', b). (h, r', b, store s))
       (resolve L E (store s) name ty r (store_base.truncate s))"
proof (cases "HandleSingleQuestion L E name ty r s")
  case None
  then show ?thesis by (simp add: HandleSingleQuestion_None_iff)
next
  case (Some y)
  then show ?thesis using flat_query [of L E name ty r s] by (cases y) auto
qed

text \<open>
  C19. CNAME chasing: \<open>HandleSingleQuestion\<close> fails to return exactly when the CNAME records of the
  store lead from the name asked for (in lower case) into a cycle; the store being finite, every
  other chain ends.
\<close>

theorem question_diverges_iff_cname_cycle:
  "HandleSingleQuestion L E name ty r s = None \<longleftrightarrow>
     (\<exists>m. (cnameStep L (store s) ty)\<^sup>*\<^sup>* (toLower name) m \<and> (cnameStep L (store s) ty)\<^sup>+\<^sup>+ m m)"
proof
  assume "HandleSingleQuestion L E name ty r s = None"
  then show "\<exists>m. (cnameStep L (store s) ty)\<^sup>*\<^sup>* (toLower name) m \<and> (cnameStep L (store s) ty)\<^sup>+\<^sup>+ m m"
    unfolding HandleSingleQuestion_None_iff by (rule resolve_None_cycle)
next
  assume "\<exists>m. (cnameStep L (store s) ty)\<^sup>*\<^sup>* (toLower name) m \<and> (cnameStep L (store s) ty)\<^sup>+\<^sup>+ m m"
  then show "HandleSingleQuestion L E name ty r s = None"
    unfolding HandleSingleQuestion_None_iff using resolve_Some_acyclic by (metis not_Some_eq)
qed

text \<open>
  C8. Read your writes: after the commits of any list of proposals on a new store, a question for
  a name and a type whose committed records are readable is answered with exactly those records,
  in log order, appended to the answer section; nothing else is consulted or changed.
\<close>

theorem query_reads_committed_log:
  assumes "gob_ok G" and "\<forall>p \<in> set ps. valid_proposal p"
    and "map ci_data cs = map (gobEncode G) ps"
    and "parseRRs L (logContents L (toLower name) ty ps) \<noteq> []"
  shows "\<exists>s. runCommits (applyProposal L G) cs (emptyDNSStore cl i) = Inr s \<and>
           HandleSingleQuestion L E name ty r s = Some (True,
             r\<lparr>Answer := Answer r @ parseRRs L (logContents L (toLower name) ty ps)\<rparr>, s)"
  using runCommits_log [OF assms(1,3,2), of L "emptyDNSStore cl i"] rrsAt_log [OF assms(2), of L]
    HandleSingleQuestion_exact [of L _ name ty] assms(4)
  by (simp add: emptyDNSStore_def)

lemma query_reads_committed_log_witness:
  "\<exists>s. runCommits (applyProposal sampleLib sampleGob)
         [\<lparr>ci_index = 1, ci_data = gobEncode sampleGob
             (addProposal (RRString sampleLib (sampleRR ''a.'' TypeA ''10.0.0.1'')))\<rparr>]
         (emptyDNSStore [] 1) = Inr s \<and>
       HandleSingleQuestion sampleLib (sampleEnv 0) ''A.'' TypeA newMsg s
         = Some (True, newMsg\<lparr>Answer := [sampleRR ''a.'' TypeA ''10.0.0.1'']\<rparr>, s)"
proof -
  let ?rr = "sampleRR ''a.'' TypeA ''10.0.0.1''"
  let ?p = "addProposal (RRString sampleLib ?rr)"
  have lower: "toLower ''A.'' = ''a.''" "toLower ''a.'' = ''a.''"
    by (simp_all add: toLower_def toLowerChar_def char_of_code)
  have parse: "parseRR sampleLib (RRString sampleLib ?rr) = Some ?rr" by (simp add: sampleLib_parse)
  have "logContents sampleLib ''a.'' TypeA [?p] = [RRString sampleLib ?rr]"
    using parse lower(2)
    by (simp add: logContents_def addedAt_def deletes_def addProposal_def map_filter_simps)
  then have "parseRRs sampleLib (logContents sampleLib (toLower ''A.'') TypeA [?p]) = [?rr]"
    by (simp add: lower parseRRs_def map_filter_simps parse)
  then show ?thesis
    using query_reads_committed_log [OF sampleGob_ok, where ps = "[?p]"
        and cs = "[\<lparr>ci_index = 1, ci_data = gobEncode sampleGob ?p\<rparr>]"
        and name = "''A.''" and ty = TypeA and L = sampleLib and E = "sampleEnv 0" and r = newMsg
        and cl = "[]" and i = 1]
    by (simp add: valid_proposal_def addProposal_def newMsg_def)
qed



text \<open>
  C22. Referrals: when a name has no readable record of the type, no CNAME to follow and nothing in
  the cache, but name server records, the question is reported as not handled, the name server
  records go to the authority section and the address records of the servers named there (their
  own, or else the nearest wildcard's) to the additional section.
\<close>

theorem referral_with_glue:
  assumes "n = toLower name" and "parseRRs L (rrsAt (store s) n ty) = []"
    and "refCname L (store s) ty n = None" and "fst (getCacheRecords L E n ty s) = []"
    and "stringsToRRs L (rrsAt (store s) n TypeNS) = nss" and "nss \<noteq> []"
  shows "\<exists>s'. HandleSingleQuestion L E name ty r s = Some (False, r\<lparr>Ns := Ns r @ nss,
           Extra := Extra r @ refGlues L (store s) nss\<rparr>, s') \<and> store s' = store s"
proof (rule flat_query_exists)
  show "resolve L E (store s) name ty r (store_base.truncate s)
      = Some (False, r\<lparr>Ns := Ns r @ nss, Extra := Extra r @ refGlues L (store s) nss\<rparr>,
         snd (getCacheRecords L E n ty (store_base.truncate s)))"
    using assms by (simp add: resolve.simps Let_def refBelow_def split_beta getCacheRecords_base)
qed

lemma referral_with_glue_witness:
  "\<exists>s'. HandleSingleQuestion sampleLib (sampleEnv 0) ''b.'' TypeA newMsg
           (oneRecord (sampleRR ''b.'' TypeNS ''ns.b.''))
        = Some (False, newMsg\<lparr>Ns := [Some (sampleRR ''b.'' TypeNS ''ns.b.'')]\<rparr>, s')"
proof -
  let ?rr = "sampleRR ''b.'' TypeNS ''ns.b.''"
  have lower: "toLower ''b.'' = ''b.''"
    by (simp_all add: toLower_def toLowerChar_def char_of_code)
  have "NewRR sampleLib (RRString sampleLib ?rr) = Inr (Some ?rr)"
    using sampleLib_parse [of "''b.''" "''ns.b.''" TypeNS]
    by (simp add: parseRR_def split: sum.splits)
  then have nss: "stringsToRRs sampleLib [RRString sampleLib ?rr] = [Some ?rr]"
    by (simp add: stringsToRRs_def map_filter_simps)
  have parents: "parents ''ns.b.'' = [''b.'', []]"
    using parents_label [of "''ns''" "''b.''"] parents_label [of "''b''" "[]"]
      parents_stop [of "[]"] by (simp add: popLeftmostLabel_def)
  have "refGlues sampleLib (store (oneRecord ?rr)) [Some ?rr] = []"
    by (simp add: refGlues_def refGlue_def refWildcard_def parents sampleRR_def sampleData_def
        rrType_defs lower parseRRs_def map_filter_simps)
  then show ?thesis
    using referral_with_glue [where n = "''b.''" and name = "''b.''" and s = "oneRecord ?rr"
        and L = sampleLib and E = "sampleEnv 0" and ty = TypeA and r = newMsg and nss = "[Some ?rr]"]
      nss
    by (auto simp: lower sampleRR_def refCname_def getCacheRecords_empty newMsg_def rrType_defs
        parseRRs_def map_filter_simps)
qed

text \<open>
  A question never takes an answer away: whatever \<open>HandleSingleQuestion\<close> does, the response it
  leaves is the one it got with records appended to its three sections, and of the store only the
  cache has changed.
\<close>

theorem question_appends_only:
  assumes "HandleSingleQuestion L E name ty r s = Some (h, r', s')"
  shows "msgGrows r r' \<and> cacheFrame s s'"
  using flat_query [OF assms] resolve_grows by fastforce

lemma question_appends_only_witness:
  "\<exists>h r' s'. HandleSingleQuestion sampleLib (sampleEnv 0) ''a.'' TypeA newMsg
       (oneRecord (sampleRR ''a.'' TypeA ''10.0.0.1'')) = Some (h, r', s')
     \<and> msgGrows newMsg r' \<and> cacheFrame (oneRecord (sampleRR ''a.'' TypeA ''10.0.0.1'')) s'"
proof -
  let ?rr = "sampleRR ''a.'' TypeA ''10.0.0.1''"
  have "toLower ''a.'' = ''a.''"
    by (simp_all add: toLower_def toLowerChar_def char_of_code)
  moreover have "parseRRs sampleLib [RRString sampleLib ?rr] = [?rr]"
    by (simp add: parseRRs_def map_filter_simps sampleLib_parse)
  ultimately have q: "HandleSingleQuestion sampleLib (sampleEnv 0) ''a.'' TypeA newMsg (oneRecord ?rr)
      = Some (True, newMsg\<lparr>Answer := [?rr]\<rparr>, oneRecord ?rr)"
    using HandleSingleQuestion_exact [of sampleLib "oneRecord ?rr" "''a.''" TypeA]
    by (simp add: sampleRR_def newMsg_def)
  from question_appends_only [OF q] q show ?thesis by blast
qed

text \<open>
  Queries do not write: processing a whole request, the recursive query upstream included,
  changes nothing of the store but its cache and the records sent to its peers; in particular no
  query proposes anything.
\<close>

theorem query_changes_cache_only:
  assumes "ProcessDNSQuery L E setReply exchange req s = Some (res, s')"
  shows "s' = s\<lparr>cache := cache s', whispered := whispered s'\<rparr>"
  using ff.process_frame [OF assms [unfolded ProcessDNSQuery_def] cacheFrame_refl]
  by (simp add: cacheFrame_def)

lemma query_changes_cache_only_witness:
  "\<exists>s' res. ProcessDNSQuery sampleLib (sampleEnv 0) (\<lambda>q. newMsg) (\<lambda>q. None) newMsg
         (emptyDNSStore [] 1) = Some (res, s') \<and>
       s' = (emptyDNSStore [] 1)\<lparr>cache := cache s', whispered := whispered s'\<rparr>"
proof -
  have "\<exists>p. ProcessDNSQuery sampleLib (sampleEnv 0) (\<lambda>q. newMsg) (\<lambda>q. None) newMsg
         (emptyDNSStore [] 1) = Some p"
    by (simp add: ProcessDNSQuery_def ProcessQuery_def newMsg_def)
  then obtain res s' where q: "ProcessDNSQuery sampleLib (sampleEnv 0) (\<lambda>q. newMsg) (\<lambda>q. None) newMsg
         (emptyDNSStore [] 1) = Some (res, s')" by auto
  from query_changes_cache_only [OF this] q show ?thesis by blast
qed

end
