(* ===== verification/Raft_Node.thy ===== *)
theory Raft_Node
  imports Raft_Commit
begin

text \<open>
  The raft driver, \<open>dns/raft.go\<close>: what it does with the batches the etcd raft library hands it.
  The library (\<open>raft.Node\<close>, \<open>raft.MemoryStorage\<close>, \<open>wal.WAL\<close>, \<open>snap.Snapshotter\<close>, \<open>rafthttp\<close>) is not
  under \<open>src/\<close>: the calls made on it are recorded in order in \<open>calls\<close>, what it returns is a
  parameter. Indices keep their 64 bits.

  The sends on \<open>commitC\<close> that race with \<open>stopc\<close> take their outcome from a list of choices (an
  exhausted list sends). Errors of the log and snapshot files come from \<open>raft_env\<close>.
\<close>

section \<open>Data\<close>

datatype EntryType = EntryNormal | EntryConfChange

record Entry =
  Type :: EntryType
  Index :: "64 word"
  Data :: string

datatype ConfChangeType = ConfChangeAddNode | ConfChangeRemoveNode | ConfChangeUpdateNode

record ConfChange =
  cc_Type :: ConfChangeType
  NodeID :: "64 word"
  Context :: string

type_synonym ConfState = "64 word list"

record Snapshot =
  snap_Index :: "64 word"
  snap_Term :: "64 word"
  snap_ConfState :: ConfState
  snap_Data :: string

datatype 'c call =
    WalSave "Entry list"
  | WalSaveSnapshot "64 word" "64 word"
  | SaveSnap Snapshot
  | ReleaseLockTo "64 word"
  | StorageApplySnapshot Snapshot
  | StorageAppend "Entry list"
  | StorageCreateSnapshot "64 word" string
  | StorageCompact "64 word"
  | TransportSend
  | TransportAddPeer "64 word" string
  | TransportRemovePeer "64 word"
  | CommitSend "'c stream_event"
  | Advance
  | Tick
  | TransportStop
  | NodeStop
  | WalClose

record 'c raftNode =
  rc_id :: int
  lastIndex :: "64 word"
  confState :: ConfState
  snapshotIndex :: "64 word"
  appliedIndex :: "64 word"
  snapCount :: "64 word"
  calls :: "'c call list"

text \<open>
  What the driver gets from its surroundings in one step: the decoding of configuration changes
  and their effect, the store's snapshot, the term, the error of each library call that can return
  one, and the snapshot a store would load at a nil.
\<close>

record raft_env =
  UnmarshalCC :: "string \<Rightarrow> ConfChange"
  ApplyConfChange :: "ConfChange \<Rightarrow> ConfState \<Rightarrow> ConfState"
  storeSnapshot :: "string + string"
  currentTerm :: "64 word"
  createSnapError :: "string option"
  walSnapError :: "string option"
  saveSnapError :: "string option"
  releaseError :: "string option"
  compactError :: "string option"
  loadable :: load_result

definition defaultSnapCount :: "64 word" where
  "defaultSnapCount = 10000"

definition snapshotCatchUpEntriesN :: "64 word" where
  "snapshotCatchUpEntriesN = 10000"

definition call :: "'c call \<Rightarrow> 'c raftNode \<Rightarrow> 'c raftNode" where
  "call c rc = rc\<lparr>calls := calls rc @ [c]\<rparr>"

definition newRaftNode :: "int \<Rightarrow> 'c raftNode" where
  "newRaftNode i = \<lparr>rc_id = i, lastIndex = 0, confState = [], snapshotIndex = 0, appliedIndex = 0,
     snapCount = defaultSnapCount, calls = []\<rparr>"

section \<open>Publishing\<close>

definition entriesToApply :: "'c raftNode \<Rightarrow> Entry list \<Rightarrow> Entry list go" where
  "entriesToApply rc ents = (case ents of
       [] \<Rightarrow> Inr []
     | e # _ \<Rightarrow>
         (let firstIdx = Index e
          in if appliedIndex rc + 1 < firstIdx
             then Inl (Fatal ''first index of committed entry should <= progress.appliedIndex'')
             else if appliedIndex rc - firstIdx + 1 < word_of_nat (length ents)
                  then Inr (drop (unat (appliedIndex rc - firstIdx + 1)) ents)
                  else Inr []))"

text \<open>A send that races with the stop channel: whether it was made, and the choices left.\<close>

definition trySend :: "'c stream_event \<Rightarrow> bool list \<Rightarrow> 'c raftNode \<Rightarrow> bool \<times> bool list \<times> 'c raftNode" where
  "trySend ev choices rc = (case choices of
       False # cs \<Rightarrow> (False, cs, rc)
     | True # cs \<Rightarrow> (True, cs, call (CommitSend ev) rc)
     | [] \<Rightarrow> (True, [], call (CommitSend ev) rc))"

text \<open>The switch on the entry's type: whether to go on.\<close>

definition publishOne ::
    "raft_env \<Rightarrow> Entry \<Rightarrow> bool list \<Rightarrow> commitInfo raftNode \<Rightarrow> bool \<times> bool list \<times> commitInfo raftNode" where
  "publishOne E e choices rc = (case Type e of
       EntryNormal \<Rightarrow>
         if Data e = [] then (True, choices, rc)
         else trySend (CommitData \<lparr>ci_index = Index e, ci_data = Data e\<rparr>) choices rc
     | EntryConfChange \<Rightarrow>
         (let cc = UnmarshalCC E (Data e);
              rc1 = rc\<lparr>confState := ApplyConfChange E cc (confState rc)\<rparr>
          in case cc_Type cc of
               ConfChangeAddNode \<Rightarrow>
                 (True, choices,
                  if Context cc \<noteq> [] then call (TransportAddPeer (NodeID cc) (Context cc)) rc1 else rc1)
             | ConfChangeRemoveNode \<Rightarrow>
                 if NodeID cc = word_of_int (rc_id rc) then (False, choices, rc1)
                 else (True, choices, call (TransportRemovePeer (NodeID cc)) rc1)
             | ConfChangeUpdateNode \<Rightarrow> (True, choices, rc1)))"

fun publishEntries ::
    "raft_env \<Rightarrow> Entry list \<Rightarrow> bool list \<Rightarrow> commitInfo raftNode \<Rightarrow> bool \<times> bool list \<times> commitInfo raftNode" where
  "publishEntries E [] choices rc = (True, choices, rc)"
| "publishEntries E (e # ents) choices rc =
     (let (ok, cs, rc1) = publishOne E e choices rc
      in if \<not> ok then (False, cs, rc1)
         else (let rc2 = rc1\<lparr>appliedIndex := Index e\<rparr>
               in if Index e = lastIndex rc2
                  then (let (ok', cs', rc3) = trySend (CommitNil (loadable E)) cs rc2
                        in if ok' then publishEntries E ents cs' rc3 else (False, cs', rc3))
                  else publishEntries E ents cs rc2))"

section \<open>Snapshots\<close>

text \<open>The snapshot's index goes to the log before the snapshot is saved; the first error is returned.\<close>

definition saveSnap :: "raft_env \<Rightarrow> Snapshot \<Rightarrow> 'c raftNode \<Rightarrow> string option \<times> 'c raftNode" where
  "saveSnap E snap rc =
     (let rc1 = call (WalSaveSnapshot (snap_Index snap) (snap_Term snap)) rc
      in case walSnapError E of
           Some err \<Rightarrow> (Some err, rc1)
         | None \<Rightarrow>
             (let rc2 = call (SaveSnap snap) rc1
              in case saveSnapError E of
                   Some err \<Rightarrow> (Some err, rc2)
                 | None \<Rightarrow> (releaseError E, call (ReleaseLockTo (snap_Index snap)) rc2)))"

definition IsEmptySnap :: "Snapshot \<Rightarrow> bool" where
  "IsEmptySnap snap \<longleftrightarrow> snap_Index snap = 0"

definition publishSnapshot :: "raft_env \<Rightarrow> Snapshot \<Rightarrow> 'c raftNode \<Rightarrow> 'c raftNode go" where
  "publishSnapshot E snapshotToSave rc =
     (if IsEmptySnap snapshotToSave then Inr rc
      else if snap_Index snapshotToSave \<le> appliedIndex rc
           then Inl (Fatal ''snapshot index should > progress.appliedIndex'')
           else Inr ((call (CommitSend (CommitNil (loadable E))) rc)
                  \<lparr>confState := snap_ConfState snapshotToSave,
                   snapshotIndex := snap_Index snapshotToSave,
                   appliedIndex := snap_Index snapshotToSave\<rparr>))"

definition compactIndexOf :: "64 word \<Rightarrow> 64 word" where
  "compactIndexOf applied =
     (if snapshotCatchUpEntriesN < applied then applied - snapshotCatchUpEntriesN else 1)"

definition maybeTriggerSnapshot :: "raft_env \<Rightarrow> 'c raftNode \<Rightarrow> 'c raftNode go" where
  "maybeTriggerSnapshot E rc =
     (if appliedIndex rc - snapshotIndex rc \<le> snapCount rc then Inr rc
      else case storeSnapshot E of
          Inl err \<Rightarrow> Inl (Panic err)
        | Inr d \<Rightarrow>
            (case createSnapError E of
               Some err \<Rightarrow> Inl (Panic err)
             | None \<Rightarrow>
                 (let snap = \<lparr>snap_Index = appliedIndex rc, snap_Term = currentTerm E,
                             snap_ConfState = confState rc, snap_Data = d\<rparr>;
                      rc1 = call (StorageCreateSnapshot (appliedIndex rc) d) rc;
                      (err, rc2) = saveSnap E snap rc1
                  in case err of
                       Some e \<Rightarrow> Inl (Panic e)
                     | None \<Rightarrow>
                         (case compactError E of
                            Some e \<Rightarrow> Inl (Panic e)
                          | None \<Rightarrow>
                              Inr ((call (StorageCompact (compactIndexOf (appliedIndex rc2))) rc2)
                                \<lparr>snapshotIndex := appliedIndex rc2\<rparr>)))))"

section \<open>Stopping\<close>

text \<open>
  Both stop the transport, with its listener, close the channels and stop the raft node; \<open>stop\<close>
  closes both channels, \<open>writeError\<close> leaves the error to be read.
\<close>

definition stopNode :: "'c raftNode \<Rightarrow> 'c raftNode" where
  "stopNode rc = call NodeStop (call (CommitSend (CommitClosed None)) (call TransportStop rc))"

definition writeError :: "string \<Rightarrow> 'c raftNode \<Rightarrow> 'c raftNode" where
  "writeError err rc = call NodeStop (call (CommitSend (CommitClosed (Some err))) (call TransportStop rc))"

section \<open>Starting\<close>

text \<open>
  \<open>replayWAL\<close>: the entries of the log after the snapshot go to the storage; \<open>lastIndex\<close> is where
  the replay will be over, and without entries it is over at once.
\<close>

definition replayWAL :: "load_result \<Rightarrow> Snapshot option \<Rightarrow> Entry list \<Rightarrow> 'c raftNode \<Rightarrow> 'c raftNode" where
  "replayWAL ld snapshot ents rc =
     (let rc1 = (case snapshot of None \<Rightarrow> rc | Some s \<Rightarrow> call (StorageApplySnapshot s) rc);
          rc2 = call (StorageAppend ents) rc1
      in if ents \<noteq> [] then rc2\<lparr>lastIndex := Index (last ents)\<rparr>
         else call (CommitSend (CommitNil ld)) rc2)"

text \<open>The first lines of \<open>serveChannels\<close>.\<close>

definition initChannels :: "Snapshot option \<Rightarrow> 'c raftNode \<Rightarrow> 'c raftNode" where
  "initChannels snapshot rc = (case snapshot of
       None \<Rightarrow> rc\<lparr>confState := [], snapshotIndex := 0, appliedIndex := 0\<rparr>
     | Some s \<Rightarrow> rc\<lparr>confState := snap_ConfState s, snapshotIndex := snap_Index s,
                    appliedIndex := snap_Index s\<rparr>)"

section \<open>The event loop\<close>

record Ready =
  Entries :: "Entry list"
  rd_Snapshot :: Snapshot
  CommittedEntries :: "Entry list"

text \<open>One batch; \<open>False\<close>: the loop has stopped. The error of \<open>saveSnap\<close> is not looked at here.\<close>

definition handleReady ::
    "raft_env \<Rightarrow> Ready \<Rightarrow> bool list \<Rightarrow> commitInfo raftNode \<Rightarrow> (bool \<times> commitInfo raftNode) go" where
  "handleReady E rd choices rc =
     (let rc1 = call (WalSave (Entries rd)) rc
      in go_bind
        (if IsEmptySnap (rd_Snapshot rd) then Inr rc1
         else (let rc2 = snd (saveSnap E (rd_Snapshot rd) rc1)
               in publishSnapshot E (rd_Snapshot rd)
                    (call (StorageApplySnapshot (rd_Snapshot rd)) rc2)))
        (\<lambda>rc3.
          let rc4 = call TransportSend (call (StorageAppend (Entries rd)) rc3)
          in go_bind (entriesToApply rc4 (CommittedEntries rd))
            (\<lambda>nents.
              let (ok, cs, rc5) = publishEntries E nents choices rc4
              in if \<not> ok then Inr (False, stopNode rc5)
                 else go_bind (maybeTriggerSnapshot E rc5)
                        (\<lambda>rc6. Inr (True, call Advance rc6)))))"


text \<open>
  What the loop of \<open>serveChannels\<close> receives: a tick, a batch (with what its surroundings do), an error of
  the transport, or the closing of \<open>stopc\<close>. The log file is closed when the loop has ended.
\<close>

datatype loop_event = TickC | ReadyC raft_env Ready "bool list" | TransportErrorC string | StopC

fun serve :: "loop_event list \<Rightarrow> commitInfo raftNode \<Rightarrow> (bool \<times> commitInfo raftNode) go" where
  "serve [] rc = Inr (True, rc)"
| "serve (TickC # evs) rc = serve evs (call Tick rc)"
| "serve (ReadyC E rd choices # evs) rc =
     go_bind (handleReady E rd choices rc)
       (\<lambda>(ok, rc'). if ok then serve evs rc' else Inr (False, call WalClose rc'))"
| "serve (TransportErrorC err # evs) rc = Inr (False, call WalClose (writeError err rc))"
| "serve (StopC # evs) rc = Inr (False, call WalClose (stopNode rc))"

section \<open>What was sent\<close>

definition sent :: "'c raftNode \<Rightarrow> 'c stream_event list" where
  "sent rc = List.map_filter (\<lambda>c. case c of CommitSend ev \<Rightarrow> Some ev | _ \<Rightarrow> None) (calls rc)"

definition sentCommits :: "'c raftNode \<Rightarrow> 'c list" where
  "sentCommits rc = List.map_filter (\<lambda>ev. case ev of CommitData ci \<Rightarrow> Some ci | _ \<Rightarrow> None) (sent rc)"

text \<open>The commits a list of entries stands for: the normal ones that are not empty.\<close>

definition commitOf :: "Entry \<Rightarrow> commitInfo option" where
  "commitOf e = (if Type e = EntryNormal \<and> Data e \<noteq> []
                 then Some \<lparr>ci_index = Index e, ci_data = Data e\<rparr> else None)"

definition commitsOf :: "Entry list \<Rightarrow> commitInfo list" where
  "commitsOf ents = List.map_filter commitOf ents"

lemma map_filter_append [simp]:
  "List.map_filter f (xs @ ys) = List.map_filter f xs @ List.map_filter f ys"
  by (simp add: List.map_filter_def)

lemma commitsOf_simps [simp]:
  "commitsOf [] = []"
  "commitsOf (e # ents) = (case commitOf e of None \<Rightarrow> [] | Some c \<Rightarrow> [c]) @ commitsOf ents"
  "commitsOf (ents @ fs) = commitsOf ents @ commitsOf fs"
  by (simp_all add: commitsOf_def map_filter_simps split: option.split)

lemma sent_call [simp]:
  "sent (call c rc) = sent rc @ (case c of CommitSend ev \<Rightarrow> [ev] | _ \<Rightarrow> [])"
  "appliedIndex (call c rc) = appliedIndex rc" "snapshotIndex (call c rc) = snapshotIndex rc"
  "lastIndex (call c rc) = lastIndex rc" "snapCount (call c rc) = snapCount rc"
  "calls (call c rc) = calls rc @ [c]" "confState (call c rc) = confState rc" "rc_id (call c rc) = rc_id rc"
  by (simp_all add: sent_def call_def map_filter_simps split: call.split)

lemma sent_upd [simp]:
  "sent (rc\<lparr>appliedIndex := i\<rparr>) = sent rc" "sent (rc\<lparr>confState := c\<rparr>) = sent rc"
  "sent (rc\<lparr>snapshotIndex := i\<rparr>) = sent rc" "sent (rc\<lparr>lastIndex := i\<rparr>) = sent rc"
  by (simp_all add: sent_def)

text \<open>The events of an entry: its commit, and a nil if the replay ends with it.\<close>

definition eventsOf :: "raft_env \<Rightarrow> 64 word \<Rightarrow> Entry \<Rightarrow> commit_event list" where
  "eventsOf E li e = (case commitOf e of None \<Rightarrow> [] | Some c \<Rightarrow> [CommitData c])
     @ (if Index e = li then [CommitNil (loadable E)] else [])"

lemma trySend_form:
  "trySend ev choices rc = (True, cs, rc') \<Longrightarrow> rc' = call (CommitSend ev) rc"
  "trySend ev choices rc = (False, cs, rc') \<Longrightarrow> rc' = rc"
  by (auto simp: trySend_def split: list.splits bool.splits)

lemma publishOne_ok:
  assumes "publishOne E e choices rc = (ok, cs, rc')"
  shows "appliedIndex rc' = appliedIndex rc \<and> snapshotIndex rc' = snapshotIndex rc \<and>
    lastIndex rc' = lastIndex rc \<and> snapCount rc' = snapCount rc \<and>
    (ok \<longrightarrow> sent rc' = sent rc @ (case commitOf e of None \<Rightarrow> [] | Some c \<Rightarrow> [CommitData c])) \<and>
    (\<not> ok \<longrightarrow> sent rc' = sent rc)"
  using assms
  by (auto simp: publishOne_def commitOf_def Let_def dest!: trySend_form
      split: EntryType.splits ConfChangeType.splits if_splits; cases ok; auto dest!: trySend_form)

lemma publish_all:
  "publishEntries E ents choices rc = (True, cs, rc') \<Longrightarrow>
     sent rc' = sent rc @ concat (map (eventsOf E (lastIndex rc)) ents) \<and>
     appliedIndex rc' = (if ents = [] then appliedIndex rc else Index (last ents)) \<and>
     snapshotIndex rc' = snapshotIndex rc \<and> lastIndex rc' = lastIndex rc \<and> snapCount rc' = snapCount rc"
proof (induction ents arbitrary: choices rc)
  case (Cons e ents)
  obtain ok cs1 rc1 where one: "publishOne E e choices rc = (ok, cs1, rc1)" by (cases "publishOne E e choices rc")
  with Cons.prems have ok: ok by (auto split: if_splits)
  note p1 = publishOne_ok [OF one]
  show ?case
  proof (cases "Index e = lastIndex rc")
    case False
    with Cons.prems one ok p1 have "publishEntries E ents cs1 (rc1\<lparr>appliedIndex := Index e\<rparr>) = (True, cs, rc')"
      by (simp add: Let_def)
    from Cons.IH [OF this] p1 ok False show ?thesis by (auto simp: eventsOf_def)
  next
    case True
    obtain ok2 cs2 rc2 where two: "trySend (CommitNil (loadable E)) cs1 (rc1\<lparr>appliedIndex := Index e\<rparr>)
        = (ok2, cs2, rc2)" by (cases "trySend (CommitNil (loadable E)) cs1 (rc1\<lparr>appliedIndex := Index e\<rparr>)")
    with Cons.prems one ok p1 True have ok2: ok2 and rest: "publishEntries E ents cs2 rc2 = (True, cs, rc')"
      by (auto simp: Let_def split: if_splits)
    from two ok2 have "rc2 = call (CommitSend (CommitNil (loadable E))) (rc1\<lparr>appliedIndex := Index e\<rparr>)"
      by (simp add: trySend_form(1))
    with Cons.IH [OF rest] p1 ok True show ?thesis by (auto simp: eventsOf_def)
  qed
qed simp

lemma sentCommits_call [simp]:
  "sentCommits (call c rc) = sentCommits rc @ (case c of CommitSend (CommitData ci) \<Rightarrow> [ci] | _ \<Rightarrow> [])"
  by (auto simp: sentCommits_def map_filter_simps split: call.split stream_event.split)

lemma sentCommits_upd [simp]:
  "sentCommits (rc\<lparr>appliedIndex := i\<rparr>) = sentCommits rc" "sentCommits (rc\<lparr>confState := c\<rparr>) = sentCommits rc"
  "sentCommits (rc\<lparr>snapshotIndex := i\<rparr>) = sentCommits rc" "sentCommits (rc\<lparr>lastIndex := i\<rparr>) = sentCommits rc"
  by (simp_all add: sentCommits_def)

lemma publishOne_commits:
  assumes "publishOne E e choices rc = (ok, cs, rc')"
  shows "sentCommits rc' = sentCommits rc @ (if ok then commitsOf [e] else [])"
  using publishOne_ok [OF assms]
  by (cases ok) (auto simp: sentCommits_def map_filter_simps split: option.split)

text \<open>However publishing ends, a prefix of the entries has been sent.\<close>

lemma publish_prefix:
  "publishEntries E ents choices rc = (ok, cs, rc') \<Longrightarrow>
     \<exists>n \<le> length ents. sentCommits rc' = sentCommits rc @ commitsOf (take n ents) \<and>
       (ok \<longrightarrow> n = length ents) \<and>
       appliedIndex rc' = (if n = 0 then appliedIndex rc else Index (ents ! (n - 1)))"
proof (induction ents arbitrary: choices rc)
  case (Cons e ents)
  obtain ok1 cs1 rc1 where one: "publishOne E e choices rc = (ok1, cs1, rc1)" by (cases "publishOne E e choices rc")
  note p1 = publishOne_ok [OF one] publishOne_commits [OF one]
  have go: ?case if "publishEntries E ents cs' rc2 = (ok, cs, rc')" "ok1"
      "sentCommits rc2 = sentCommits rc1" "appliedIndex rc2 = Index e" for cs' rc2
  proof -
    from Cons.IH [OF that(1)] obtain n where "n \<le> length ents"
      "sentCommits rc' = sentCommits rc2 @ commitsOf (take n ents)" "ok \<longrightarrow> n = length ents"
      "appliedIndex rc' = (if n = 0 then appliedIndex rc2 else Index (ents ! (n - 1)))" by blast
    with that p1 show ?thesis
      by (intro exI [of _ "Suc n"]) (auto simp: nth_Cons split: nat.split)
  qed
  show ?case
  proof (cases ok1)
    case False
    with Cons.prems one p1 show ?thesis by (intro exI [of _ 0]) auto
  next
    case True
    let ?rc2 = "rc1\<lparr>appliedIndex := Index e\<rparr>"
    show ?thesis
    proof (cases "Index e = lastIndex ?rc2")
      case False
      with Cons.prems one True have "publishEntries E ents cs1 ?rc2 = (ok, cs, rc')" by simp
      from go [OF this True] show ?thesis by simp
    next
      case last: True
      obtain ok2 cs2 rc3 where two: "trySend (CommitNil (loadable E)) cs1 ?rc2 = (ok2, cs2, rc3)"
        by (cases "trySend (CommitNil (loadable E)) cs1 ?rc2")
      show ?thesis
      proof (cases ok2)
        case False
        with Cons.prems one True last two have "\<not> ok" "rc' = rc3" by auto
        moreover from two False have "rc3 = ?rc2" by (simp add: trySend_form(2))
        ultimately show ?thesis using p1 True by (intro exI [of _ 1]) auto
      next
        case ok2: True
        with Cons.prems one True last two have "publishEntries E ents cs2 rc3 = (ok, cs, rc')" by simp
        moreover from two ok2 have "rc3 = call (CommitSend (CommitNil (loadable E))) ?rc2"
          by (simp add: trySend_form(1))
        ultimately show ?thesis using go [of cs2 rc3] True by simp
      qed
    qed
  qed
qed simp

section \<open>Batches of the log\<close>

text \<open>Entries numbered one after another, from \<open>i\<close>.\<close>

fun contig :: "nat \<Rightarrow> Entry list \<Rightarrow> bool" where
  "contig i [] = True"
| "contig i (e # ents) = (unat (Index e) = i \<and> contig (Suc i) ents)"

lemma contig_nth: "contig i ents \<Longrightarrow> j < length ents \<Longrightarrow> unat (Index (ents ! j)) = i + j"
  by (induction ents arbitrary: i j) (auto simp: nth_Cons split: nat.split)

lemma contig_drop: "contig i ents \<Longrightarrow> contig (i + n) (drop n ents)"
proof (induction ents arbitrary: i n)
  case (Cons e ents)
  then show ?case using Cons.IH [of "Suc i" "n - 1"] by (cases n) simp_all
qed simp

lemma contig_take: "contig i ents \<Longrightarrow> contig i (take n ents)"
proof (induction ents arbitrary: i n)
  case (Cons e ents)
  then show ?case by (cases n) simp_all
qed simp

lemma contig_bound: "contig i ents \<Longrightarrow> ents \<noteq> [] \<Longrightarrow> i + length ents \<le> 2 ^ 64"
  using contig_nth [of i ents "length ents - 1"] unsigned_less [of "Index (ents ! (length ents - 1))", where 'a = nat]
  by (cases ents) auto

text \<open>For a batch that starts no later than the next index to apply, the entries kept are the new ones.\<close>

lemma entriesToApply_new:
  assumes "contig k ents" "ents \<noteq> []" "0 < k" "k \<le> unat (appliedIndex rc) + 1"
    and "appliedIndex rc \<noteq> - 1"
  shows "entriesToApply rc ents = Inr (drop (unat (appliedIndex rc) + 1 - k) ents)"
proof -
  obtain e es where ents: "ents = e # es" using assms(2) by (cases ents) auto
  let ?a = "appliedIndex rc"
  have k: "unat (Index e) = k" using assms(1) ents by simp
  have suc: "unat (?a + 1) = unat ?a + 1"
    using assms(5) unatSuc [of ?a] by (simp add: add.commute add_eq_0_iff)
  have le: "Index e \<le> ?a + 1" using assms(4) k suc by (simp add: word_le_nat_alt)
  have sub: "unat (?a - Index e + 1) = unat ?a + 1 - k"
    using unat_sub [OF le] suc k by (simp add: algebra_simps)
  have "length ents < 2 ^ 64" using contig_bound [OF assms(1,2)] assms(3) by simp
  then have len: "unat (word_of_nat (length ents) :: 64 word) = length ents"
    by (simp add: unsigned_of_nat take_bit_nat_eq_self)
  have no_gap: "\<not> ?a + 1 < Index e" using le by (simp add: not_less)
  have some: "?a - Index e + 1 < word_of_nat (length ents) \<longleftrightarrow> unat ?a + 1 - k < length ents"
    unfolding word_less_nat_alt sub len ..
  show ?thesis
  proof (cases "unat ?a + 1 - k < length ents")
    case True
    with ents no_gap some sub show ?thesis
      by (simp add: entriesToApply_def Let_def del: of_nat_Suc length_Cons)
  next
    case False
    then have "drop (unat ?a + 1 - k) ents = []" by simp
    with False ents no_gap some show ?thesis
      by (simp add: entriesToApply_def Let_def del: of_nat_Suc length_Cons)
  qed
qed

lemma entriesToApply_gap:
  assumes "contig k ents" "ents \<noteq> []" "unat (appliedIndex rc) + 1 < k" "appliedIndex rc \<noteq> - 1"
  shows "\<exists>m. entriesToApply rc ents = Inl (Fatal m)"
proof -
  obtain e es where ents: "ents = e # es" using assms(2) by (cases ents) auto
  have "unat (appliedIndex rc + 1) = unat (appliedIndex rc) + 1"
    using assms(4) unatSuc [of "appliedIndex rc"] by (simp add: add.commute add_eq_0_iff)
  then have "appliedIndex rc + 1 < Index e" using assms(1,3) ents by (simp add: word_less_nat_alt)
  then show ?thesis using ents by (simp add: entriesToApply_def)
qed

lemma saveSnap_frame:
  assumes "saveSnap E snap rc = (err, rc')"
  shows "sentCommits rc' = sentCommits rc" "sent rc' = sent rc" "appliedIndex rc' = appliedIndex rc"
    "snapshotIndex rc' = snapshotIndex rc" "snapCount rc' = snapCount rc" "lastIndex rc' = lastIndex rc"
    "confState rc' = confState rc"
  using assms by (auto simp: saveSnap_def Let_def split: option.splits)

lemma maybeTriggerSnapshot_frame:
  assumes "maybeTriggerSnapshot E rc = Inr rc'"
  shows "sentCommits rc' = sentCommits rc" "sent rc' = sent rc" "appliedIndex rc' = appliedIndex rc"
    "snapCount rc' = snapCount rc" "lastIndex rc' = lastIndex rc"
    "snapshotIndex rc' \<in> {snapshotIndex rc, appliedIndex rc}"
  using assms
  by (auto simp: maybeTriggerSnapshot_def Let_def split: if_splits sum.splits option.splits prod.splits
      dest: saveSnap_frame)

text \<open>What raft hands over: a piece of the log, wherever it starts.\<close>

definition logPiece :: "Entry list \<Rightarrow> Entry list \<Rightarrow> bool" where
  "logPiece log ents \<longleftrightarrow> (\<exists>k m. ents = take m (drop k log))"

text \<open>The steps of a turn that did not end the process.\<close>

lemma handleReady_steps:
  assumes "handleReady E rd choices rc = Inr (ok, rc')"
  obtains rc3 nents cs rc5 where
    "(if IsEmptySnap (rd_Snapshot rd) then Inr (call (WalSave (Entries rd)) rc)
      else publishSnapshot E (rd_Snapshot rd) (call (StorageApplySnapshot (rd_Snapshot rd))
             (snd (saveSnap E (rd_Snapshot rd) (call (WalSave (Entries rd)) rc))))) = Inr rc3"
    "entriesToApply (call TransportSend (call (StorageAppend (Entries rd)) rc3)) (CommittedEntries rd) = Inr nents"
    "publishEntries E nents choices (call TransportSend (call (StorageAppend (Entries rd)) rc3)) = (ok, cs, rc5)"
    "ok \<Longrightarrow> \<exists>rc6. maybeTriggerSnapshot E rc5 = Inr rc6 \<and> rc' = call Advance rc6"
    "\<not> ok \<Longrightarrow> rc' = stopNode rc5"
proof -
  obtain rc3 where rc3: "(if IsEmptySnap (rd_Snapshot rd) then Inr (call (WalSave (Entries rd)) rc)
      else publishSnapshot E (rd_Snapshot rd) (call (StorageApplySnapshot (rd_Snapshot rd))
             (snd (saveSnap E (rd_Snapshot rd) (call (WalSave (Entries rd)) rc))))) = Inr rc3"
    and r3: "go_bind (entriesToApply (call TransportSend (call (StorageAppend (Entries rd)) rc3))
          (CommittedEntries rd)) (\<lambda>nents.
        let (ok, cs, rc5) = publishEntries E nents choices
              (call TransportSend (call (StorageAppend (Entries rd)) rc3))
        in if \<not> ok then Inr (False, stopNode rc5)
           else go_bind (maybeTriggerSnapshot E rc5) (\<lambda>rc6. Inr (True, call Advance rc6)))
      = Inr (ok, rc')"
    using assms unfolding handleReady_def Let_def go_bind_Inr_iff by blast
  let ?rc4 = "call TransportSend (call (StorageAppend (Entries rd)) rc3)"
  from r3 obtain nents where n: "entriesToApply ?rc4 (CommittedEntries rd) = Inr nents"
    and rest: "(let (ok, cs, rc5) = publishEntries E nents choices ?rc4
        in if \<not> ok then Inr (False, stopNode rc5)
           else go_bind (maybeTriggerSnapshot E rc5) (\<lambda>rc6. Inr (True, call Advance rc6)))
      = Inr (ok, rc')" unfolding go_bind_Inr_iff by blast
  obtain ok5 cs rc5 where p: "publishEntries E nents choices ?rc4 = (ok5, cs, rc5)"
    by (cases "publishEntries E nents choices ?rc4")
  with rest have "ok5 = ok" by (auto simp: go_bind_Inr_iff split: if_splits)
  with n p rest rc3 show thesis
    by (intro that [of rc3 nents cs rc5]) (auto simp: go_bind_Inr_iff split: if_splits)
qed

text \<open>The entries that are published continue the log where it had been applied to.\<close>

lemma entriesToApply_log:
  assumes "entriesToApply rc ents = Inr nents" "contig 1 log" "length log < 2 ^ 64 - 1"
    and "logPiece log ents" "unat (appliedIndex rc) \<le> length log"
  shows "\<exists>x. nents = take x (drop (unat (appliedIndex rc)) log)"
proof -
  let ?a = "unat (appliedIndex rc)"
  obtain k m where km: "ents = take m (drop k log)" using assms(4) by (auto simp: logPiece_def)
  have piece: "contig (Suc k) (take m (drop k log))"
    using contig_take [OF contig_drop [OF assms(2), of k]] by simp
  have max: "appliedIndex rc \<noteq> - 1"
  proof
    assume "appliedIndex rc = - 1"
    moreover have "unat (- 1 :: 64 word) = 2 ^ 64 - 1"
      by (simp add: unsigned_minus_1_eq_mask mask_eq_exp_minus_1)
    ultimately show False using assms(3,5) by simp
  qed
  show ?thesis
  proof (cases "ents = []")
    case True
    with assms(1) show ?thesis by (auto simp: entriesToApply_def intro: exI [of _ 0])
  next
    case False
    then have "k \<le> ?a" using entriesToApply_gap [of "Suc k" "ents" rc] assms(1) piece km max
      by (cases "k \<le> ?a") auto
    with entriesToApply_new [of "Suc k" "ents" rc] assms(1) piece km max False
    have "nents = drop (?a - k) (take m (drop k log))" by simp
    also have "\<dots> = take (m - (?a - k)) (drop ?a log)" using \<open>k \<le> ?a\<close> by (simp add: drop_take)
    finally show ?thesis by blast
  qed
qed

lemma handleReady_log:
  assumes "handleReady E rd choices rc = Inr (ok, rc')" "IsEmptySnap (rd_Snapshot rd)"
    and "contig 1 log" "length log < 2 ^ 64 - 1" "logPiece log (CommittedEntries rd)"
    and "unat (appliedIndex rc) \<le> length log"
  shows "\<exists>j. unat (appliedIndex rc) \<le> j \<and> j \<le> length log \<and> unat (appliedIndex rc') = j \<and>
     sentCommits rc' = sentCommits rc @ commitsOf (drop (unat (appliedIndex rc)) (take j log))"
proof -
  let ?a = "unat (appliedIndex rc)"
  let ?rc4 = "call TransportSend (call (StorageAppend (Entries rd)) (call (WalSave (Entries rd)) rc))"
  obtain nents cs rc5 where n: "entriesToApply ?rc4 (CommittedEntries rd) = Inr nents"
    and p: "publishEntries E nents choices ?rc4 = (ok, cs, rc5)"
    and rc': "ok \<Longrightarrow> \<exists>rc6. maybeTriggerSnapshot E rc5 = Inr rc6 \<and> rc' = call Advance rc6"
      "\<not> ok \<Longrightarrow> rc' = stopNode rc5"
    using assms(2) by (rule_tac handleReady_steps [OF assms(1)]) simp
  have post: "sentCommits rc' = sentCommits rc5" "appliedIndex rc' = appliedIndex rc5"
    using rc' by (cases ok; auto simp: stopNode_def dest: maybeTriggerSnapshot_frame)+
  have "unat (appliedIndex ?rc4) \<le> length log" using assms(6) by simp
  with entriesToApply_log [OF n assms(3-5)] obtain x where x: "nents = take x (drop ?a log)" by auto
  from publish_prefix [OF p] obtain i where i0: "i \<le> length nents"
      "sentCommits rc5 = sentCommits ?rc4 @ commitsOf (take i nents)"
      "appliedIndex rc5 = (if i = 0 then appliedIndex ?rc4 else Index (nents ! (i - 1)))" by blast
  then have i: "i \<le> length nents" "sentCommits rc5 = sentCommits rc @ commitsOf (take i nents)"
      "appliedIndex rc5 = (if i = 0 then appliedIndex rc else Index (nents ! (i - 1)))" by simp_all
  have take_i: "take i nents = drop ?a (take (?a + i) log)"
    using i(1) x by (simp add: take_drop min_absorb1 add.commute)
  have "unat (appliedIndex rc5) = ?a + i"
  proof (cases "i = 0")
    case False
    have "contig (Suc ?a) nents" unfolding x using contig_take [OF contig_drop [OF assms(3), of ?a]] by simp
    from contig_nth [OF this, of "i - 1"] False i show ?thesis by simp
  qed (use i in simp)
  moreover have "?a + i \<le> length log" using i(1) x assms(6) by auto
  ultimately show ?thesis using post i(2) take_i by (intro exI [of _ "?a + i"]) simp
qed

text \<open>Batches without snapshots, of pieces of the log.\<close>

definition servesLog :: "Entry list \<Rightarrow> loop_event \<Rightarrow> bool" where
  "servesLog log ev \<longleftrightarrow> (case ev of
       ReadyC E rd choices \<Rightarrow> IsEmptySnap (rd_Snapshot rd) \<and> logPiece log (CommittedEntries rd)
     | _ \<Rightarrow> True)"

lemma servesLog_simps [simp]:
  "servesLog log (ReadyC E rd choices) \<longleftrightarrow> IsEmptySnap (rd_Snapshot rd) \<and> logPiece log (CommittedEntries rd)"
  "servesLog log TickC" "servesLog log (TransportErrorC err)" "servesLog log StopC"
  by (simp_all add: servesLog_def)

lemma stop_frame [simp]:
  "sentCommits (stopNode rc) = sentCommits rc" "appliedIndex (stopNode rc) = appliedIndex rc"
  "sentCommits (writeError err rc) = sentCommits rc" "appliedIndex (writeError err rc) = appliedIndex rc"
  by (simp_all add: stopNode_def writeError_def)

text \<open>Two stretches of the log in a row.\<close>

lemma drop_take_split:
  "a \<le> j \<Longrightarrow> j \<le> i \<Longrightarrow> drop a (take i xs) = drop a (take j xs) @ drop j (take i xs)"
  using append_take_drop_id [of "j - a" "drop a (take i xs)"]
  by (simp add: take_drop min_absorb1 add.commute)

lemma serve_log:
  assumes "contig 1 log" "length log < 2 ^ 64 - 1"
  shows "serve evs rc = Inr (ok, rc') \<Longrightarrow> \<forall>ev \<in> set evs. servesLog log ev \<Longrightarrow>
     unat (appliedIndex rc) \<le> length log \<Longrightarrow>
     \<exists>j. unat (appliedIndex rc) \<le> j \<and> j \<le> length log \<and> unat (appliedIndex rc') = j \<and>
       sentCommits rc' = sentCommits rc @ commitsOf (drop (unat (appliedIndex rc)) (take j log))"
proof (induction evs rc rule: serve.induct)
  case (3 E rd choices evs rc)
  obtain ok1 rc1 where one: "handleReady E rd choices rc = Inr (ok1, rc1)"
    and rest: "ok1 \<Longrightarrow> serve evs rc1 = Inr (ok, rc')" "\<not> ok1 \<Longrightarrow> rc' = call WalClose rc1"
    using "3.prems"(1) by (auto simp: go_bind_Inr_iff split: if_splits)
  let ?a = "unat (appliedIndex rc)"
  from handleReady_log [OF one _ assms _ "3.prems"(3)] "3.prems"(2)
  obtain j where j: "?a \<le> j" "j \<le> length log" "unat (appliedIndex rc1) = j"
      "sentCommits rc1 = sentCommits rc @ commitsOf (drop ?a (take j log))" by auto
  show ?case
  proof (cases ok1)
    case False
    with rest j show ?thesis by auto
  next
    case True
    from "3.IH" [OF True rest(1) [OF True]] "3.prems"(2) j
    obtain i where "j \<le> i" "i \<le> length log" "unat (appliedIndex rc') = i"
        "sentCommits rc' = sentCommits rc1 @ commitsOf (drop j (take i log))" by auto
    with drop_take_split [OF j(1), of i log] j show ?thesis by (intro exI [of _ i]) simp
  qed
qed auto

text \<open>Calls are only ever added.\<close>

definition callsExtend :: "'c raftNode \<Rightarrow> 'c raftNode \<Rightarrow> bool" where
  "callsExtend rc rc' \<longleftrightarrow> (\<exists>cs. calls rc' = calls rc @ cs)"

lemma callsExtend_trans: "callsExtend a b \<Longrightarrow> callsExtend b c \<Longrightarrow> callsExtend a c"
  by (auto simp: callsExtend_def)

lemma callsExtend_call [simp]: "callsExtend rc (call c rc)"
  by (simp add: callsExtend_def)

lemma callsExtend_refl [simp]: "callsExtend rc rc"
  by (simp add: callsExtend_def)

lemma callsExtend_stop [simp]: "callsExtend rc (stopNode rc)"
  by (simp add: callsExtend_def stopNode_def)

lemma publishOne_extends: "callsExtend rc (snd (snd (publishOne E e choices rc)))"
  by (auto simp: publishOne_def trySend_def Let_def callsExtend_def
      split: EntryType.split ConfChangeType.split list.split bool.split)

lemma publish_extends: "publishEntries E ents choices rc = (ok, cs, rc') \<Longrightarrow> callsExtend rc rc'"
proof (induction ents arbitrary: choices rc)
  case (Cons e ents)
  obtain ok1 cs1 rc1 where one: "publishOne E e choices rc = (ok1, cs1, rc1)" by (cases "publishOne E e choices rc")
  let ?rc2 = "rc1\<lparr>appliedIndex := Index e\<rparr>"
  have ext1: "callsExtend rc ?rc2" using publishOne_extends [of rc E e choices] one by (simp add: callsExtend_def)
  obtain ok2 cs2 rc3 where two: "trySend (CommitNil (loadable E)) cs1 ?rc2 = (ok2, cs2, rc3)"
    by (cases "trySend (CommitNil (loadable E)) cs1 ?rc2")
  then have "callsExtend ?rc2 rc3" by (cases ok2) (auto dest: trySend_form)
  then have ext2: "callsExtend rc rc3" by (rule callsExtend_trans [OF ext1])
  have ext0: "callsExtend rc rc1" using ext1 by (simp add: callsExtend_def)
  consider "rc' = rc1" | "rc' = rc3" | "publishEntries E ents cs2 rc3 = (ok, cs, rc')"
    | "publishEntries E ents cs1 ?rc2 = (ok, cs, rc')"
    using Cons.prems one two by (auto simp: Let_def split: if_splits)
  then show ?case
    using ext0 ext1 ext2 Cons.IH callsExtend_trans by cases blast+
qed simp

lemma maybeTrigger_extends: "maybeTriggerSnapshot E rc = Inr rc' \<Longrightarrow> callsExtend rc rc'"
  by (auto simp: maybeTriggerSnapshot_def saveSnap_def Let_def callsExtend_def
      split: if_splits sum.splits option.splits)

text \<open>What a received snapshot causes, and what follows it in a turn.\<close>

lemma install_calls:
  assumes "publishSnapshot E snap (call (StorageApplySnapshot snap) (snd (saveSnap E snap rc))) = Inr rc'"
    and "\<not> IsEmptySnap snap"
  shows "\<exists>saves. calls rc' = calls rc @ WalSaveSnapshot (snap_Index snap) (snap_Term snap) # saves
       @ [StorageApplySnapshot snap, CommitSend (CommitNil (loadable E))] \<and>
     (saves = [] \<or> saves = [SaveSnap snap] \<or> saves = [SaveSnap snap, ReleaseLockTo (snap_Index snap)])"
  using assms by (auto simp: publishSnapshot_def saveSnap_def Let_def split: if_splits option.splits)

lemma turn_extends:
  assumes "publishEntries E nents choices rc4 = (ok, cs, rc5)"
    and "ok \<Longrightarrow> \<exists>rc6. maybeTriggerSnapshot E rc5 = Inr rc6 \<and> rc' = call Advance rc6"
    and "\<not> ok \<Longrightarrow> rc' = stopNode rc5"
  shows "callsExtend rc4 rc'"
proof (rule callsExtend_trans [OF publish_extends [OF assms(1)]])
  show "callsExtend rc5 rc'"
    using assms(2,3) by (cases ok) (auto intro: callsExtend_trans [OF maybeTrigger_extends callsExtend_call])
qed

text \<open>Whether \<open>commitC\<close> has not been closed.\<close>

definition channelOpen :: "'c raftNode \<Rightarrow> bool" where
  "channelOpen rc \<longleftrightarrow> (\<forall>err. CommitSend (CommitClosed err) \<notin> set (calls rc))"

lemma channelOpen_call [simp]:
  "channelOpen (call c rc) \<longleftrightarrow> channelOpen rc \<and> (\<forall>err. c \<noteq> CommitSend (CommitClosed err))"
  by (auto simp: channelOpen_def)

lemma channelOpen_upd [simp]:
  "channelOpen (rc\<lparr>appliedIndex := i\<rparr>) = channelOpen rc" "channelOpen (rc\<lparr>snapshotIndex := i\<rparr>) = channelOpen rc"
  "channelOpen (rc\<lparr>confState := st\<rparr>) = channelOpen rc"
  by (simp_all add: channelOpen_def)

lemma channelOpen_trySend:
  "trySend ev choices rc = (ok, cs, rc') \<Longrightarrow> \<forall>err. ev \<noteq> CommitClosed err \<Longrightarrow> channelOpen rc \<Longrightarrow> channelOpen rc'"
  by (cases ok) (auto dest!: trySend_form)

lemma channelOpen_publishOne:
  "publishOne E e choices rc = (ok, cs, rc') \<Longrightarrow> channelOpen rc \<Longrightarrow> channelOpen rc'"
  by (auto simp: publishOne_def Let_def dest: channelOpen_trySend
      split: EntryType.splits ConfChangeType.splits if_splits)

lemma channelOpen_publish:
  "publishEntries E ents choices rc = (ok, cs, rc') \<Longrightarrow> channelOpen rc \<Longrightarrow> channelOpen rc'"
proof (induction ents arbitrary: choices rc)
  case (Cons e ents)
  obtain ok1 cs1 rc1 where one: "publishOne E e choices rc = (ok1, cs1, rc1)" by (cases "publishOne E e choices rc")
  let ?rc2 = "rc1\<lparr>appliedIndex := Index e\<rparr>"
  obtain ok2 cs2 rc3 where two: "trySend (CommitNil (loadable E)) cs1 ?rc2 = (ok2, cs2, rc3)"
    by (cases "trySend (CommitNil (loadable E)) cs1 ?rc2")
  have "channelOpen rc1" using channelOpen_publishOne [OF one] Cons.prems(2) by simp
  moreover from this channelOpen_trySend [OF two] have "channelOpen rc3" by simp
  ultimately show ?case using Cons.prems(1) one two Cons.IH [of cs2 rc3] Cons.IH [of cs1 ?rc2]
    by (auto simp: Let_def split: if_splits)
qed simp

lemma channelOpen_saveSnap: "channelOpen (snd (saveSnap E snap rc)) = channelOpen rc"
  by (simp add: saveSnap_def Let_def split: option.split)

lemma channelOpen_maybeTrigger: "maybeTriggerSnapshot E rc = Inr rc' \<Longrightarrow> channelOpen rc' = channelOpen rc"
  by (auto simp: maybeTriggerSnapshot_def Let_def split_beta channelOpen_saveSnap
      split: if_splits sum.splits option.splits)

lemma channelOpen_publishSnapshot: "publishSnapshot E snap rc = Inr rc' \<Longrightarrow> channelOpen rc' = channelOpen rc"
  by (auto simp: publishSnapshot_def split: if_splits)

text \<open>A turn leaves the channel open, or it ends with \<open>stop\<close>.\<close>

lemma handleReady_channel:
  assumes "handleReady E rd choices rc = Inr (ok, rc')" "channelOpen rc"
  shows "if ok then channelOpen rc' else (\<exists>rc5. channelOpen rc5 \<and> rc' = stopNode rc5)"
proof -
  obtain rc3 nents cs rc5 where
    rc3: "(if IsEmptySnap (rd_Snapshot rd) then Inr (call (WalSave (Entries rd)) rc)
      else publishSnapshot E (rd_Snapshot rd) (call (StorageApplySnapshot (rd_Snapshot rd))
             (snd (saveSnap E (rd_Snapshot rd) (call (WalSave (Entries rd)) rc))))) = Inr rc3"
    and p: "publishEntries E nents choices (call TransportSend (call (StorageAppend (Entries rd)) rc3)) = (ok, cs, rc5)"
    and rc': "ok \<Longrightarrow> \<exists>rc6. maybeTriggerSnapshot E rc5 = Inr rc6 \<and> rc' = call Advance rc6"
      "\<not> ok \<Longrightarrow> rc' = stopNode rc5"
    using handleReady_steps [OF assms(1)] by metis
  have "channelOpen rc3"
    using rc3 assms(2) by (auto simp: channelOpen_saveSnap dest!: channelOpen_publishSnapshot split: if_splits)
  with channelOpen_publish [OF p] have "channelOpen rc5" by simp
  with rc' show ?thesis by (cases ok) (auto dest: channelOpen_maybeTrigger)
qed

lemma serve_channel:
  "serve evs rc = Inr (ok, rc') \<Longrightarrow> channelOpen rc \<Longrightarrow>
     if ok then channelOpen rc'
     else (\<exists>rc5 err. channelOpen rc5 \<and> rc' = call WalClose (call NodeStop (call (CommitSend (CommitClosed err)) (call TransportStop rc5))))"
proof (induction evs rc rule: serve.induct)
  case (3 E rd choices evs rc)
  obtain ok1 rc1 where one: "handleReady E rd choices rc = Inr (ok1, rc1)"
    and rest: "ok1 \<Longrightarrow> serve evs rc1 = Inr (ok, rc')" "\<not> ok1 \<Longrightarrow> \<not> ok \<and> rc' = call WalClose rc1"
    using "3.prems"(1) by (auto simp: go_bind_Inr_iff split: if_splits)
  from handleReady_channel [OF one "3.prems"(2)] rest "3.IH" [OF _ rest(1)] show ?case
    by (cases ok1) (auto simp: stopNode_def)
qed (auto simp: stopNode_def writeError_def)

section \<open>Properties\<close>

text \<open>
  C3. In order, exactly once: whatever pieces of the committed log raft hands over, repeated or
  overlapping, and wherever the loop stops, the commits sent on \<open>commitC\<close> are those of one
  contiguous stretch of the log that starts right after \<open>appliedIndex\<close>; none is skipped and none
  is sent twice. (A gap would end the process.)
\<close>

theorem commits_in_order_exactly_once:
  assumes "contig 1 log" "length log < 2 ^ 64 - 1"
    and "\<forall>ev \<in> set evs. servesLog log ev"
    and "unat (appliedIndex rc) \<le> length log"
    and "serve evs rc = Inr (ok, rc')"
  shows "unat (appliedIndex rc) \<le> unat (appliedIndex rc') \<and> unat (appliedIndex rc') \<le> length log \<and>
     sentCommits rc' = sentCommits rc
       @ commitsOf (drop (unat (appliedIndex rc)) (take (unat (appliedIndex rc')) log))"
  using serve_log [OF assms(1,2,5,3,4)] by auto

text \<open>Surroundings and entries for the examples.\<close>

definition sampleRaftEnv :: raft_env where
  "sampleRaftEnv = \<lparr>UnmarshalCC = \<lambda>s. \<lparr>cc_Type = ConfChangeAddNode, NodeID = 2, Context = s\<rparr>,
     ApplyConfChange = \<lambda>cc cs. NodeID cc # cs, storeSnapshot = Inr ''{}'', currentTerm = 1,
     createSnapError = None, walSnapError = None, saveSnapError = None, releaseError = None,
     compactError = None, loadable = ErrNoSnapshot\<rparr>"

definition noSnapshot :: Snapshot where
  "noSnapshot = \<lparr>snap_Index = 0, snap_Term = 0, snap_ConfState = [], snap_Data = []\<rparr>"

definition normalEntry :: "64 word \<Rightarrow> string \<Rightarrow> Entry" where
  "normalEntry i d = \<lparr>Type = EntryNormal, Index = i, Data = d\<rparr>"

definition readyOf :: "Entry list \<Rightarrow> Ready" where
  "readyOf ents = \<lparr>Entries = ents, rd_Snapshot = noSnapshot, CommittedEntries = ents\<rparr>"

lemma commits_in_order_exactly_once_witness:
  "\<exists>rc'. serve [ReadyC sampleRaftEnv (readyOf [normalEntry 1 ''x'']) [],
              TickC, ReadyC sampleRaftEnv (readyOf [normalEntry 1 ''x'', normalEntry 2 ''y'']) []] (newRaftNode 1)
       = Inr (True, rc') \<and>
     sentCommits rc' = [\<lparr>ci_index = 1, ci_data = ''x''\<rparr>, \<lparr>ci_index = 2, ci_data = ''y''\<rparr>]"
proof -
  let ?log = "[normalEntry 1 ''x'', normalEntry 2 ''y'']"
  let ?evs = "[ReadyC sampleRaftEnv (readyOf [normalEntry 1 ''x'']) [], TickC, ReadyC sampleRaftEnv (readyOf ?log) []]"
  have "\<exists>rc'. serve ?evs (newRaftNode 1) = Inr (True, rc') \<and> appliedIndex rc' = 2"
    by (simp add: handleReady_def readyOf_def noSnapshot_def IsEmptySnap_def entriesToApply_def
        newRaftNode_def call_def normalEntry_def publishOne_def trySend_def maybeTriggerSnapshot_def
        defaultSnapCount_def Let_def)
  then obtain rc' where rc': "serve ?evs (newRaftNode 1) = Inr (True, rc')" "appliedIndex rc' = 2" by blast
  have pieces: "logPiece ?log [normalEntry 1 ''x'']" "logPiece ?log ?log"
    unfolding logPiece_def by (rule exI [of _ 0], rule exI [of _ 1], simp)
      (rule exI [of _ 0], rule exI [of _ 2], simp)
  have "sentCommits rc' = sentCommits (newRaftNode 1) @ commitsOf (drop (unat (appliedIndex (newRaftNode 1)))
      (take (unat (appliedIndex rc')) ?log))"
    using commits_in_order_exactly_once [OF _ _ _ _ rc'(1), of ?log] pieces
    by (simp add: readyOf_def noSnapshot_def IsEmptySnap_def newRaftNode_def normalEntry_def)
  with rc' show ?thesis
    by (simp add: newRaftNode_def sentCommits_def sent_def map_filter_simps commitOf_def normalEntry_def)
qed

text \<open>
  C27. The driver closes \<open>commitC\<close> once, at its very end: while the event loop runs the channel stays
  open, whatever it receives; when the loop stops, because of an error of the transport, the closing of
  the proposal channels, or the node's removal, its last calls stop the transport, close the channel, stop
  the raft node and close the log file, and nothing was closed before.
\<close>

theorem commit_channel_closed_once:
  assumes "serve evs rc = Inr (ok, rc')" and "channelOpen rc"
  shows "(ok \<longrightarrow> channelOpen rc') \<and>
     (\<not> ok \<longrightarrow> (\<exists>cs err. calls rc' = cs @ [TransportStop, CommitSend (CommitClosed err), NodeStop, WalClose] \<and>
        (\<forall>e. CommitSend (CommitClosed e) \<notin> set cs)))"
  using serve_channel [OF assms] by (cases ok) (auto simp: channelOpen_def)

lemma commit_channel_closed_once_witness:
  "\<exists>rc'. serve [TickC, ReadyC sampleRaftEnv (readyOf [normalEntry 1 ''x'']) [False]] (newRaftNode 1) = Inr (False, rc') \<and>
     (\<exists>cs err. calls rc' = cs @ [TransportStop, CommitSend (CommitClosed err), NodeStop, WalClose])"
proof -
  let ?evs = "[TickC, ReadyC sampleRaftEnv (readyOf [normalEntry 1 ''x'']) [False]]"
  have "\<exists>rc'. serve ?evs (newRaftNode 1) = Inr (False, rc')"
    by (simp add: handleReady_def readyOf_def noSnapshot_def IsEmptySnap_def entriesToApply_def
        newRaftNode_def call_def normalEntry_def publishOne_def trySend_def Let_def)
  then obtain rc' where rc': "serve ?evs (newRaftNode 1) = Inr (False, rc')" by blast
  have "channelOpen (newRaftNode 1 :: commitInfo raftNode)" by (simp add: channelOpen_def newRaftNode_def)
  from commit_channel_closed_once [OF rc' this] rc' show ?thesis by auto
qed

text \<open>
  The end of the replay is signalled once: when a batch is published completely, what is sent
  is the commits of its entries with a nil right after the entry with number \<open>lastIndex\<close>, and
  nowhere else.
\<close>

theorem nil_marks_end_of_replay:
  assumes "publishEntries E ents choices rc = (True, cs, rc')"
  shows "sent rc' = sent rc @ concat (map (\<lambda>e.
            (case commitOf e of None \<Rightarrow> [] | Some c \<Rightarrow> [CommitData c])
            @ (if Index e = lastIndex rc then [CommitNil (loadable E)] else [])) ents)"
  using publish_all [OF assms] by (simp add: eventsOf_def [abs_def])

lemma nil_marks_end_of_replay_witness:
  "sent (snd (snd (publishEntries sampleRaftEnv [normalEntry 1 ''x'', normalEntry 2 ''y''] []
        ((newRaftNode 1)\<lparr>lastIndex := 1\<rparr>))))
   = [CommitData \<lparr>ci_index = 1, ci_data = ''x''\<rparr>, CommitNil ErrNoSnapshot,
      CommitData \<lparr>ci_index = 2, ci_data = ''y''\<rparr>]"
proof -
  let ?rc = "(newRaftNode 1)\<lparr>lastIndex := 1\<rparr>"
  have "fst (publishEntries sampleRaftEnv [normalEntry 1 ''x'', normalEntry 2 ''y''] [] ?rc)"
    by (simp add: publishOne_def trySend_def normalEntry_def newRaftNode_def Let_def call_def)
  then obtain cs rc' where "publishEntries sampleRaftEnv [normalEntry 1 ''x'', normalEntry 2 ''y''] [] ?rc
      = (True, cs, rc')" by (metis prod.collapse)
  from nil_marks_end_of_replay [OF this] this show ?thesis
    by (simp add: commitOf_def normalEntry_def sampleRaftEnv_def)
      (simp add: newRaftNode_def sent_def map_filter_simps)
qed



text \<open>
  C28. Snapshots compact safely: when the driver takes a snapshot of its own, it is of the applied
  index, the compaction index lies above the previous snapshot's (so nothing is compacted twice)
  and not above the applied one, and the last \<open>snapshotCatchUpEntriesN\<close> entries stay in the log.
\<close>

theorem compaction_keeps_catch_up:
  assumes "maybeTriggerSnapshot E rc = Inr rc'" and "snapshotIndex rc \<le> appliedIndex rc"
    and "snapCount rc = defaultSnapCount"
  shows "rc' = rc \<or>
     (snapshotIndex rc' = appliedIndex rc \<and> appliedIndex rc' = appliedIndex rc \<and>
      (\<exists>ci. last (calls rc') = StorageCompact ci \<and> snapshotIndex rc < ci \<and> ci \<le> appliedIndex rc \<and>
         unat ci + unat snapshotCatchUpEntriesN \<le> unat (appliedIndex rc)))"
proof (cases "appliedIndex rc - snapshotIndex rc \<le> snapCount rc")
  case True
  with assms(1) show ?thesis by (simp add: maybeTriggerSnapshot_def)
next
  case False
  let ?a = "appliedIndex rc" and ?s = "snapshotIndex rc"
  have gap: "10000 < unat ?a - unat ?s"
    using False assms(2,3) by (simp add: defaultSnapCount_def not_le word_less_nat_alt unat_sub)
  then have big: "snapshotCatchUpEntriesN < ?a"
    by (simp add: snapshotCatchUpEntriesN_def word_less_nat_alt)
  then have ci: "unat (compactIndexOf ?a) = unat ?a - 10000"
    by (simp add: compactIndexOf_def unat_sub less_imp_le) (simp add: snapshotCatchUpEntriesN_def)
  obtain d snap rc1 rc2 where steps: "saveSnap E snap rc1 = (None, rc2)"
      "rc' = (call (StorageCompact (compactIndexOf (appliedIndex rc2))) rc2)\<lparr>snapshotIndex := appliedIndex rc2\<rparr>"
      "appliedIndex rc1 = ?a"
    using assms(1) False
    by (auto simp: maybeTriggerSnapshot_def Let_def split: sum.splits option.splits prod.splits)
  note fr = saveSnap_frame [OF steps(1)]
  have "last (calls rc') = StorageCompact (compactIndexOf ?a)" using steps fr by simp
  moreover have "?s < compactIndexOf ?a" "compactIndexOf ?a \<le> ?a"
    using gap ci by (simp_all add: word_less_nat_alt word_le_nat_alt)
  moreover have "unat (compactIndexOf ?a) + unat snapshotCatchUpEntriesN \<le> unat ?a"
    using gap ci by (simp add: snapshotCatchUpEntriesN_def)
  ultimately show ?thesis using steps fr by auto
qed

lemma compaction_keeps_catch_up_witness:
  "\<exists>rc'. maybeTriggerSnapshot sampleRaftEnv ((newRaftNode 1 :: commitInfo raftNode)\<lparr>appliedIndex := 10001\<rparr>) = Inr rc' \<and>
     snapshotIndex rc' = 10001 \<and> last (calls rc') = StorageCompact 1"
proof -
  let ?rc = "(newRaftNode 1 :: commitInfo raftNode)\<lparr>appliedIndex := 10001\<rparr>"
  have "\<exists>rc'. maybeTriggerSnapshot sampleRaftEnv ?rc = Inr rc' \<and> rc' \<noteq> ?rc \<and> last (calls rc') = StorageCompact 1"
    by (simp add: maybeTriggerSnapshot_def sampleRaftEnv_def newRaftNode_def defaultSnapCount_def
        saveSnap_def Let_def call_def compactIndexOf_def snapshotCatchUpEntriesN_def)
  then obtain rc' where rc': "maybeTriggerSnapshot sampleRaftEnv ?rc = Inr rc'" "rc' \<noteq> ?rc"
      "last (calls rc') = StorageCompact 1" by blast
  from compaction_keeps_catch_up [OF rc'(1)] rc' show ?thesis
    by (auto simp: newRaftNode_def)
qed

end
