(* ===== verification/Http_Api.thy ===== *)
theory Http_Api
  imports Dns_Query Raft_Node
begin

text \<open>
  The HTTP interface of a name server, \<open>dns/httpapi.go\<close> and \<open>dns/paged_httpapi.go\<close>, whose
  \<open>/add\<close>, \<open>/delete\<close>, \<open>/addcache\<close> and \<open>/member\<close> handlers are the same; they only use the fields of
  the base record and are stated over it. A handler takes a request and the store and returns
  the response and the store; where it may end the process or panic, the result is a \<open>go\<close>.

  \<open>/getrecord\<close> keeps the variable \<open>domainNames\<close> of its closure between requests. The consistent
  hashing library is a parameter: \<open>locate ring key\<close> is the token of the member responsible for a
  key, or a panic.
\<close>

section \<open>Requests and responses\<close>

record http_request =
  Method :: string
  Body :: "string + string"

record http_response =
  StatusCode :: nat
  respBody :: string

definition StatusOK :: nat where "StatusOK = 200"
definition StatusNoContent :: nat where "StatusNoContent = 204"
definition StatusBadRequest :: nat where "StatusBadRequest = 400"
definition StatusMethodNotAllowed :: nat where "StatusMethodNotAllowed = 405"
definition StatusInternalServerError :: nat where "StatusInternalServerError = 500"

lemmas status_defs = StatusOK_def StatusNoContent_def StatusBadRequest_def
  StatusMethodNotAllowed_def StatusInternalServerError_def

definition httpError :: "string \<Rightarrow> nat \<Rightarrow> http_response" where
  "httpError msg code = \<lparr>StatusCode = code, respBody = msg @ [CHR 0x0A]\<rparr>"

definition writeHeader :: "nat \<Rightarrow> http_response" where
  "writeHeader code = \<lparr>StatusCode = code, respBody = []\<rparr>"

definition writeString :: "string \<Rightarrow> http_response" where
  "writeString s = \<lparr>StatusCode = StatusOK, respBody = s\<rparr>"

definition badRequest :: "string \<Rightarrow> http_response" where
  "badRequest msg = httpError msg StatusBadRequest"

lemma status_simps [simp]:
  "StatusCode (httpError msg code) = code" "StatusCode (writeHeader code) = code"
  "StatusCode (badRequest msg) = StatusBadRequest" "StatusCode (writeString s) = StatusOK"
  "respBody (writeString s) = s"
  by (simp_all add: httpError_def writeHeader_def badRequest_def writeString_def)

section \<open>Writing records\<close>

definition handleAdd ::
    "dns_lib \<Rightarrow> gob_lib \<Rightarrow> http_request \<Rightarrow> 'a store_base_scheme \<Rightarrow> http_response \<times> 'a store_base_scheme" where
  "handleAdd L G r s =
     (if Method r \<noteq> ''PUT'' then (badRequest ''Method has to be PUT'', s)
      else case Body r of
          Inl err \<Rightarrow> (badRequest ''Bad PUT body'', s)
        | Inr rrString \<Rightarrow>
            if \<not> checkValidRRString L rrString then (badRequest ''Bad RR request'', s)
            else (writeHeader StatusNoContent, ProposeAddRR G rrString s))"

record deleteRequestPayload =
  payload_Name :: string
  RRTypeString :: string

text \<open>\<open>json.NewDecoder(r.Body).Decode\<close>: the first value of the body, what follows is not read.\<close>

definition decodeDeletePayload :: "string \<Rightarrow> deleteRequestPayload option" where
  "decodeDeletePayload body = Option.bind (decodeJson body) (\<lambda>j. case j of
       JObject kvs \<Rightarrow>
         (case (unmarshalField unmarshalString [] ''name'' kvs, unmarshalField unmarshalString [] ''rrType'' kvs) of
            (Some n, Some t) \<Rightarrow> Some \<lparr>payload_Name = n, RRTypeString = t\<rparr>
          | _ \<Rightarrow> None)
     | JNull \<Rightarrow> Some \<lparr>payload_Name = [], RRTypeString = []\<rparr>
     | _ \<Rightarrow> None)"

definition deletableType :: "string \<Rightarrow> rrType option" where
  "deletableType t = (if t = ''A'' then Some TypeA else if t = ''NS'' then Some TypeNS
                      else if t = ''MX'' then Some TypeMX else None)"

definition handleDelete ::
    "gob_lib \<Rightarrow> http_request \<Rightarrow> 'a store_base_scheme \<Rightarrow> http_response \<times> 'a store_base_scheme" where
  "handleDelete G r s =
     (if Method r \<noteq> ''PUT'' then (badRequest ''Method has to be PUT'', s)
      else case Body r of
          Inl err \<Rightarrow> (badRequest ''Bad PUT body'', s)
        | Inr body \<Rightarrow>
            (case decodeDeletePayload body of
               None \<Rightarrow> (badRequest ''Bad PUT body'', s)
             | Some req \<Rightarrow>
                 (case deletableType (RRTypeString req) of
                    None \<Rightarrow> (badRequest ''Unsupported /delete rrType'', s)
                  | Some rrType \<Rightarrow>
                      (writeHeader StatusNoContent, ProposeDeleteRRs G (payload_Name req) rrType s))))"

definition handleAddCache ::
    "dns_lib \<Rightarrow> env \<Rightarrow> http_request \<Rightarrow> 'a store_base_scheme \<Rightarrow> http_response \<times> 'a store_base_scheme" where
  "handleAddCache L E r s =
     (if Method r \<noteq> ''PUT'' then (badRequest ''Method has to be PUT'', s)
      else case Body r of
          Inl err \<Rightarrow> (badRequest ''Bad PUT body'', s)
        | Inr rrString \<Rightarrow>
            (case parseRR L rrString of
               None \<Rightarrow> (badRequest ''Bad RR request'', s)
             | Some rr \<Rightarrow> (writeHeader StatusNoContent, addCacheRecord L E rr False s)))"

section \<open>Cluster configuration and migration\<close>

definition unmarshalNsInfo :: "json \<Rightarrow> jsonNsInfo option" where
  "unmarshalNsInfo j = (case j of
       JObject kvs \<Rightarrow>
         (case (unmarshalField unmarshalString [] ''name'' kvs, unmarshalField unmarshalString [] ''glue'' kvs) of
            (Some n, Some g) \<Rightarrow> Some \<lparr>NsName = n, GlueRecord = g\<rparr> | _ \<Rightarrow> None)
     | JNull \<Rightarrow> Some \<lparr>NsName = [], GlueRecord = []\<rparr>
     | _ \<Rightarrow> None)"

definition unmarshalClusterInfo :: "json \<Rightarrow> jsonClusterInfo option" where
  "unmarshalClusterInfo j = (case j of
       JObject kvs \<Rightarrow>
         (case (unmarshalField unmarshalString [] ''cluster'' kvs,
                unmarshalField (unmarshalList unmarshalNsInfo) [] ''members'' kvs) of
            (Some t, Some ms) \<Rightarrow> Some \<lparr>ClusterToken = t, Members = ms\<rparr> | _ \<Rightarrow> None)
     | JNull \<Rightarrow> Some \<lparr>ClusterToken = [], Members = []\<rparr>
     | _ \<Rightarrow> None)"

definition marshalNsInfo :: "jsonNsInfo \<Rightarrow> json" where
  "marshalNsInfo m = JObject [(''name'', JString (NsName m)), (''glue'', JString (GlueRecord m))]"

definition marshalClusterInfo :: "jsonClusterInfo \<Rightarrow> json" where
  "marshalClusterInfo c = JObject
     [(''cluster'', JString (ClusterToken c)), (''members'', marshalList marshalNsInfo (Members c))]"

definition decodeClusters :: "string \<Rightarrow> jsonClusterInfo list option" where
  "decodeClusters body = Option.bind (parseJson body) (unmarshalList unmarshalClusterInfo)"

definition encodeClusters :: "jsonClusterInfo list \<Rightarrow> string" where
  "encodeClusters cs = printJson (marshalList marshalClusterInfo cs)"

text \<open>\<open>consistent.New\<close> and the calls of \<open>Add\<close>.\<close>

definition newRing :: "nat \<Rightarrow> string list \<Rightarrow> consistentRing" where
  "newRing n tokens = \<lparr>PartitionCount = n, ringMembers = tokens\<rparr>"

definition handleAddCluster :: "http_request \<Rightarrow> dnsStore \<Rightarrow> (http_response \<times> dnsStore) go" where
  "handleAddCluster r s =
     (if Method r \<noteq> ''PUT'' then Inr (badRequest ''Method has to be PUT'', s)
      else case Body r of
          Inl err \<Rightarrow> Inr (badRequest ''Bad PUT body'', s)
        | Inr body \<Rightarrow>
            (case decodeClusters body of
               None \<Rightarrow> Inl (Fatal ''json'')
             | Some jsonClusters \<Rightarrow>
                 Inr (writeHeader StatusNoContent,
                   s\<lparr>config := jsonClusters,
                     lookup := Some (newRing (length jsonClusters) (map ClusterToken jsonClusters))\<rparr>)))"

type_synonym locator = "consistentRing \<Rightarrow> string \<Rightarrow> string go"

text \<open>A nil \<open>lookup\<close>, an empty configuration and the library may panic.\<close>

definition shouldMigrate :: "locator \<Rightarrow> string \<Rightarrow> dnsStore \<Rightarrow> bool go" where
  "shouldMigrate locate domain s = (case lookup s of
       None \<Rightarrow> Inl (Panic ''invalid memory address or nil pointer dereference'')
     | Some ring \<Rightarrow>
         go_bind (locate ring domain) (\<lambda>token.
           if config s = [] then Inl (Panic ''index out of range'')
           else Inr (token = ClusterToken (last (config s)))))"

text \<open>
  The orders in which the handler ranges over the store and over a type map, and the request's
  result: the records, or \<open>Done\<close>. A nil slice is marshalled as \<open>null\<close>.
\<close>

record range_env =
  rangeStore :: "storeMap \<Rightarrow> string list"
  rangeTypes :: "dnsRRTypeMap \<Rightarrow> rrType list"

definition range_ok :: "range_env \<Rightarrow> bool" where
  "range_ok R \<longleftrightarrow> (\<forall>m. enumerates (rangeStore R m) m) \<and> (\<forall>m. enumerates (rangeTypes R m) m)"

definition marshalRecords :: "string list \<Rightarrow> string" where
  "marshalRecords records =
     printJson (if records = [] then JNull else marshalList JString records)"

definition recordsToMigrate :: "range_env \<Rightarrow> string \<Rightarrow> dnsStore \<Rightarrow> string list" where
  "recordsToMigrate R domain s = (case fmlookup (store s) domain of
       None \<Rightarrow> []
     | Some tm \<Rightarrow> concat (map (fm_getl tm) (rangeTypes R tm)))"

definition handleGetRecord ::
    "locator \<Rightarrow> range_env \<Rightarrow> http_request \<Rightarrow> string list \<Rightarrow> dnsStore
       \<Rightarrow> (http_response \<times> string list) go" where
  "handleGetRecord locate R r domainNames s =
     (if Method r \<noteq> ''GET'' then Inr (badRequest ''Method has to be GET'', domainNames)
      else case Body r of
          Inl err \<Rightarrow> Inr (badRequest ''Bad PUT body'', domainNames)
        | Inr body \<Rightarrow>
            (case atoi body of
               None \<Rightarrow> Inr (badRequest ''Bad index'', domainNames)
             | Some index \<Rightarrow>
                 if int (fm_len (store s)) \<le> index
                 then Inr (writeString (marshalRecords [''Done'']), domainNames)
                 else (let names = (if index = 0 then domainNames @ rangeStore R (store s) else domainNames)
                       in if index < 0 \<or> int (length names) \<le> index then Inl (Panic ''index out of range'')
                          else (let domain = names ! nat index
                                in go_bind (shouldMigrate locate domain s)
                                     (\<lambda>m. Inr (writeString (marshalRecords
                                        (if m then recordsToMigrate R domain s else [])), names))))))"

section \<open>Membership\<close>

text \<open>
  \<open>strconv.ParseUint(s, 0, 64)\<close>: the base is in the prefix. (Underscores between the digits are not
  modelled.)
\<close>

definition undigitBase :: "nat \<Rightarrow> char \<Rightarrow> nat option" where
  "undigitBase b c =
     (let n = of_char c :: nat;
          d = (if 48 \<le> n \<and> n \<le> 57 then n - 48
               else if 97 \<le> n \<and> n \<le> 122 then n - 87
               else if 65 \<le> n \<and> n \<le> 90 then n - 55 else b)
      in if d < b then Some d else None)"

fun readBase :: "nat \<Rightarrow> nat \<Rightarrow> string \<Rightarrow> nat option" where
  "readBase b acc [] = Some acc"
| "readBase b acc (c # cs) = (case undigitBase b c of None \<Rightarrow> None | Some d \<Rightarrow> readBase b (acc * b + d) cs)"

definition ParseUint :: "string \<Rightarrow> 64 word option" where
  "ParseUint s =
     (let (b, ds) = (case s of
            c # d # cs \<Rightarrow>
              if c \<noteq> CHR ''0'' then (10, s)
              else if toLowerChar d = CHR ''x'' then (16, cs)
              else if toLowerChar d = CHR ''o'' then (8, cs)
              else if toLowerChar d = CHR ''b'' then (2, cs)
              else (8, d # cs)
          | _ \<Rightarrow> (10, s))
      in if ds = [] then None
         else (case readBase b 0 ds of
             None \<Rightarrow> None
           | Some n \<Rightarrow> if n < 2 ^ 64 then Some (word_of_nat n) else None))"

text \<open>The response and what is sent on \<open>confChangeC\<close>.\<close>

definition handleMember :: "http_request \<Rightarrow> string \<Rightarrow> http_response \<times> ConfChange list" where
  "handleMember r nodeID =
     (if Method r = ''PUT'' then
        (case Body r of
           Inl err \<Rightarrow> (badRequest ''Failed on PUT'', [])
         | Inr url \<Rightarrow>
             (case ParseUint nodeID of
                None \<Rightarrow> (badRequest ''Failed on PUT'', [])
              | Some n \<Rightarrow> (writeHeader StatusNoContent,
                    [\<lparr>cc_Type = ConfChangeAddNode, NodeID = n, Context = url\<rparr>])))
      else if Method r = ''DELETE'' then
        (case ParseUint nodeID of
           None \<Rightarrow> (badRequest ''Failed on DELETE'', [])
         | Some n \<Rightarrow> (writeHeader StatusNoContent,
               [\<lparr>cc_Type = ConfChangeRemoveNode, NodeID = n, Context = []\<rparr>]))
      else (badRequest ''/member Method has to be PUT or DELELTE'', []))"


section \<open>Lemmas\<close>

lemma handleAdd_accepted:
  assumes "StatusCode (fst (handleAdd L G r s)) = StatusNoContent"
  shows "\<exists>b rr. Body r = Inr b \<and> parseRR L b = Some rr \<and>
     snd (handleAdd L G r s) = s\<lparr>proposeC := proposeC s @ [gobEncode G (addProposal b)]\<rparr>"
  using assms
  by (auto simp: handleAdd_def status_defs ProposeAddRR_def checkValidRRString_iff split: if_splits sum.splits)

lemma handleDelete_accepted:
  assumes "StatusCode (fst (handleDelete G r s)) = StatusNoContent"
  shows "\<exists>n ty. ty \<in> {TypeA, TypeNS, TypeMX} \<and>
     snd (handleDelete G r s) = s\<lparr>proposeC := proposeC s @ [gobEncode G (deleteProposal n ty)]\<rparr>"
  using assms
  by (auto simp: handleDelete_def status_defs ProposeDeleteRRs_def deletableType_def
      split: if_splits sum.splits option.splits)

lemma unmarshalNsInfo_marshalNsInfo [simp]: "unmarshalNsInfo (marshalNsInfo m) = Some m"
proof -
  have "toLower ''name'' = ''name''" "toLower ''glue'' = ''glue''"
    by (simp_all add: toLower_def toLowerChar_def char_of_code)
  then show ?thesis by (simp add: unmarshalNsInfo_def marshalNsInfo_def unmarshalField_def)
qed

lemma unmarshalClusterInfo_marshalClusterInfo [simp]: "unmarshalClusterInfo (marshalClusterInfo c) = Some c"
proof -
  have "toLower ''cluster'' = ''cluster''" "toLower ''members'' = ''members''"
    by (simp_all add: toLower_def toLowerChar_def char_of_code)
  then show ?thesis
    by (simp add: unmarshalClusterInfo_def marshalClusterInfo_def unmarshalField_def
        unmarshalList_marshalList)
qed

lemma decodeClusters_encodeClusters [simp]: "decodeClusters (encodeClusters cs) = Some cs"
proof -
  have "okJson (marshalList marshalClusterInfo cs)"
    by (rule okJson_marshalList) (auto simp: marshalClusterInfo_def marshalNsInfo_def intro!: okJson_marshalList)
  then show ?thesis
    unfolding decodeClusters_def encodeClusters_def
    by (simp add: parseJson_printJson unmarshalList_marshalList)
qed

section \<open>Properties\<close>

text \<open>
  C15. An accepted record is served once it is committed: when \<open>/add\<close> answers 204, exactly one
  proposal has been sent; whenever its commit is applied, in whatever state of the store, asking
  for the record's name and type is answered locally, and the record is among the answers.
\<close>

theorem accepted_add_is_served:
  assumes "gob_ok G" and "rr_text_roundtrip L"
    and "StatusCode (fst (handleAdd L G r s)) = StatusNoContent"
  shows "\<exists>b rr e. Body r = Inr b \<and> parseRR L b = Some rr \<and>
     proposeC (snd (handleAdd L G r s)) = proposeC s @ [e] \<and>
     (\<forall>t i. \<exists>t'. applyProposal L G \<lparr>ci_index = i, ci_data = e\<rparr> t = Inr t' \<and>
        (\<forall>E q. \<exists>ans. HandleSingleQuestion L E (hdr_Name rr) (hdr_Rrtype rr) q t'
             = Some (True, q\<lparr>Answer := Answer q @ ans\<rparr>, t') \<and> rr \<in> set ans))"
proof -
  obtain b rr where b: "Body r = Inr b" "parseRR L b = Some rr"
      "snd (handleAdd L G r s) = s\<lparr>proposeC := proposeC s @ [gobEncode G (addProposal b)]\<rparr>"
    using handleAdd_accepted [OF assms(3)] by blast
  let ?p = "addProposal b" and ?e = "gobEncode G (addProposal b)"
  have v: "valid_proposal ?p" by (simp add: valid_proposal_def addProposal_def)
  have reread: "parseRR L (RRString L rr) = Some rr"
    by (rule rr_text_roundtrip_same [OF assms(2) b(2)])
  have "\<exists>t'. applyProposal L G \<lparr>ci_index = i, ci_data = ?e\<rparr> t = Inr t' \<and>
        (\<forall>E q. \<exists>ans. HandleSingleQuestion L E (hdr_Name rr) (hdr_Rrtype rr) q t'
             = Some (True, q\<lparr>Answer := Answer q @ ans\<rparr>, t') \<and> rr \<in> set ans)" for t i
  proof -
    let ?t' = "t\<lparr>store := applyTo L ?p (store t)\<rparr>"
    have "applyProposal L G \<lparr>ci_index = i, ci_data = ?e\<rparr> t = Inr ?t'"
      by (rule applyProposal_eq [OF assms(1) _ v]) simp
    moreover have "rrsAt (store ?t') (toLower (hdr_Name rr)) (hdr_Rrtype rr)
        = rrsAt (store t) (toLower (hdr_Name rr)) (hdr_Rrtype rr) @ [RRString L rr]"
      by (simp add: rrsAt_applyTo [OF v]) (simp add: deletes_def addedAt_def addProposal_def b(2))
    then have "parseRRs L (rrsAt (store ?t') (toLower (hdr_Name rr)) (hdr_Rrtype rr))
        = parseRRs L (rrsAt (store t) (toLower (hdr_Name rr)) (hdr_Rrtype rr)) @ [rr]"
      by (simp add: reread)
    moreover from this have "HandleSingleQuestion L E (hdr_Name rr) (hdr_Rrtype rr) q ?t'
        = Some (True, q\<lparr>Answer := Answer q @
            (parseRRs L (rrsAt (store t) (toLower (hdr_Name rr)) (hdr_Rrtype rr)) @ [rr])\<rparr>, ?t')" for E q
      using HandleSingleQuestion_exact [of L ?t' "hdr_Name rr" "hdr_Rrtype rr" E q] by simp
    ultimately show ?thesis by (intro exI [of _ ?t']) fastforce
  qed
  with b show ?thesis by (intro exI [of _ b] exI [of _ rr] exI [of _ ?e]) simp
qed

text \<open>
  CNAME records cannot be deleted: \<open>/delete\<close> accepts the types A, NS and MX only, so whatever it
  proposes leaves the CNAME records of every name as they are, although \<open>/add\<close> takes them.
\<close>

theorem cname_records_cannot_be_deleted:
  assumes "StatusCode (fst (handleDelete G r s)) = StatusNoContent"
  shows "\<exists>p. proposeC (snd (handleDelete G r s)) = proposeC s @ [gobEncode G p] \<and>
     (\<forall>st n. rrsAt (applyTo L p st) n TypeCNAME = rrsAt st n TypeCNAME)"
proof -
  obtain n ty where d: "ty \<in> {TypeA, TypeNS, TypeMX}"
      "snd (handleDelete G r s) = s\<lparr>proposeC := proposeC s @ [gobEncode G (deleteProposal n ty)]\<rparr>"
    using handleDelete_accepted [OF assms] by blast
  have v: "valid_proposal (deleteProposal n ty)" by (simp add: valid_proposal_def deleteProposal_def)
  have "rrsAt (applyTo L (deleteProposal n ty) st) m TypeCNAME = rrsAt st m TypeCNAME" for st m
    unfolding rrsAt_applyTo [OF v] using d(1)
    by (auto simp: deletes_def addedAt_def deleteProposal_def rrType_defs)
  with d(2) show ?thesis by (intro exI [of _ "deleteProposal n ty"]) simp
qed

lemma accepted_add_is_served_witness:
  "\<exists>rr e. proposeC (snd (handleAdd sampleLib sampleGob \<lparr>Method = ''PUT'',
        Body = Inr (RRString sampleLib (sampleRR ''a.'' TypeA ''10.0.0.1''))\<rparr> (emptyDNSStore [] 1))) = [e] \<and>
     (\<forall>t i. \<exists>t'. applyProposal sampleLib sampleGob \<lparr>ci_index = i, ci_data = e\<rparr> t = Inr t' \<and>
        (\<forall>E q. \<exists>ans. HandleSingleQuestion sampleLib E (hdr_Name rr) (hdr_Rrtype rr) q t'
             = Some (True, q\<lparr>Answer := Answer q @ ans\<rparr>, t') \<and> rr \<in> set ans))"
proof -
  let ?r = "\<lparr>Method = ''PUT'', Body = Inr (RRString sampleLib (sampleRR ''a.'' TypeA ''10.0.0.1''))\<rparr>"
  have "StatusCode (fst (handleAdd sampleLib sampleGob ?r (emptyDNSStore [] 1))) = StatusNoContent"
    by (simp add: handleAdd_def checkValidRRString_iff sampleLib_parse)
  from accepted_add_is_served [OF sampleGob_ok sampleLib_roundtrip this]
  show ?thesis by (auto simp: emptyDNSStore_def)
qed

lemma cname_records_cannot_be_deleted_witness:
  "\<exists>p. proposeC (snd (handleDelete sampleGob \<lparr>Method = ''PUT'',
        Body = Inr (printJson (JObject [(''name'', JString ''a.''), (''rrType'', JString ''A'')]))\<rparr>
        (emptyDNSStore [] 1))) = [gobEncode sampleGob p] \<and>
     (\<forall>st n. rrsAt (applyTo sampleLib p st) n TypeCNAME = rrsAt st n TypeCNAME)"
proof -
  let ?j = "JObject [(''name'', JString ''a.''), (''rrType'', JString ''A'')]"
  have "decodeJson (printJson ?j @ []) = Some ?j"
    by (rule decodeJson_printJson) (simp_all add: endsValue_def)
  moreover have "toLower ''name'' = ''name''" "toLower ''rrType'' = ''rrtype''"
    by (simp_all add: toLower_def toLowerChar_def char_of_code)
  ultimately have "decodeDeletePayload (printJson ?j) = Some \<lparr>payload_Name = ''a.'', RRTypeString = ''A''\<rparr>"
    by (simp add: decodeDeletePayload_def unmarshalField_def del: printJson.simps)
  then have "StatusCode (fst (handleDelete sampleGob \<lparr>Method = ''PUT'', Body = Inr (printJson ?j)\<rparr>
      (emptyDNSStore [] 1))) = StatusNoContent"
    by (simp add: handleDelete_def deletableType_def del: printJson.simps)
  from cname_records_cannot_be_deleted [OF this, of sampleLib] show ?thesis
    by (simp add: emptyDNSStore_def del: printJson.simps)
qed

end
