(* ===== verification/Paged_Store.thy ===== *)
theory Paged_Store
  imports Dns_Store
begin

text \<open>
  The paged store, \<open>dns/paged_dns_store.go\<close>: names are hashed to pages, at most
  \<open>PageStoreMaxLen\<close> pages are in memory, the least recently used page is written to a file when
  one more is loaded, and every page remembers the last commit applied to it.

  The abstraction of a state is \<open>pageData\<close>: what each page number holds, in memory or else in
  its file. Moving pages about does not change it; a commit changes one page of it.

  Pages are addressed by number where the code has pointers: an element of the list holds the
  \<open>Key\<close> of the page it points to, a page the identity of its element. Files are a map from page
  numbers to texts; \<open>faults\<close> lists the outcomes of the next file operations (\<open>True\<close> fails,
  an exhausted list succeeds). A failing rename and a file that holds the text \<open>null\<close> (which is
  never written) are not modelled.
\<close>

section \<open>The state\<close>

definition PageStoreMaxLen :: nat where
  "PageStoreMaxLen = 100"

definition PageSize :: nat where
  "PageSize = 32"

text \<open>\<open>H\<close> is \<open>xxhash.Sum64String\<close>.\<close>

definition getPageNumber :: "(string \<Rightarrow> 64 word) \<Rightarrow> string \<Rightarrow> 64 word" where
  "getPageNumber H name = drop_bit PageSize (H name)"

record PageStore =
  Key :: "64 word"
  LastCommitIndex :: "64 word"
  Store :: storeMap
  lruElement :: "nat option"

type_synonym pageStoreMap = "(64 word, PageStore) fmap"

record pagedDNSStore = store_base +
  pages :: pageStoreMap
  lruList :: "(nat \<times> 64 word) list"
  nextElement :: nat
  pagedir :: "(64 word, string) fmap"
  faults :: "bool list"

definition emptyPagedDNSStore ::
    "(64 word, string) fmap \<Rightarrow> bool list \<Rightarrow> string list \<Rightarrow> int \<Rightarrow> pagedDNSStore" where
  "emptyPagedDNSStore files fs cl i =
     \<lparr>proposeC = [], cache = fmempty, cluster = cl, node_id = i, whispered = [],
      pages = fmempty, lruList = [], nextElement = 0, pagedir = files, faults = fs\<rparr>"

section \<open>Page files\<close>

text \<open>The outcome of the next file operation.\<close>

definition diskOp :: "pagedDNSStore \<Rightarrow> bool \<times> pagedDNSStore" where
  "diskOp s = (case faults s of [] \<Rightarrow> (False, s) | f # fs \<Rightarrow> (f, s\<lparr>faults := fs\<rparr>))"

definition marshalPage :: "PageStore \<Rightarrow> json" where
  "marshalPage page = JObject
     [(''Key'', marshalUint (Key page)),
      (''LastCommitIndex'', marshalUint (LastCommitIndex page)),
      (''Store'', marshalStore (Store page))]"

definition unmarshalPage :: "json \<Rightarrow> PageStore option" where
  "unmarshalPage j = (case j of
       JObject kvs \<Rightarrow>
         (case (unmarshalField unmarshalUint 0 ''Key'' kvs,
                unmarshalField unmarshalUint 0 ''LastCommitIndex'' kvs,
                unmarshalField unmarshalStore fmempty ''Store'' kvs) of
            (Some k, Some i, Some st) \<Rightarrow>
              Some \<lparr>Key = k, LastCommitIndex = i, Store = st, lruElement = None\<rparr>
          | _ \<Rightarrow> None)
     | _ \<Rightarrow> None)"

text \<open>Reading opens the file with \<open>O_CREATE\<close>, so a missing file is left behind empty.\<close>

definition readSerializedPage :: "64 word \<Rightarrow> pagedDNSStore \<Rightarrow> string \<times> pagedDNSStore" where
  "readSerializedPage pageNum s =
     (let (err, s1) = diskOp s
      in if err then ([], s1)
         else (case fmlookup (pagedir s1) pageNum of
             Some data \<Rightarrow> (data, s1)
           | None \<Rightarrow> ([], s1\<lparr>pagedir := fmupd pageNum [] (pagedir s1)\<rparr>)))"

text \<open>The temporary file, when writing it fails, leaves the page's own file as it was.\<close>

definition writeSerializedPage ::
    "64 word \<Rightarrow> string \<Rightarrow> pagedDNSStore \<Rightarrow> bool \<times> pagedDNSStore" where
  "writeSerializedPage pageNum data s =
     (let (err, s1) = diskOp s
      in if err then (err, s1) else (err, s1\<lparr>pagedir := fmupd pageNum data (pagedir s1)\<rparr>))"

definition readPageIn :: "64 word \<Rightarrow> pagedDNSStore \<Rightarrow> pagedDNSStore" where
  "readPageIn pageNum s = (case fmlookup (pages s) pageNum of
       Some _ \<Rightarrow> s
     | None \<Rightarrow>
         (let (data, s1) = readSerializedPage pageNum s
          in if data = [] then s1
             else (case Option.bind (parseJson data) unmarshalPage of
                 None \<Rightarrow> s1
               | Some newPage \<Rightarrow> s1\<lparr>pages := fmupd pageNum newPage (pages s1)\<rparr>)))"

text \<open>The result of the write is not looked at.\<close>

definition writePageOut :: "64 word \<Rightarrow> pagedDNSStore \<Rightarrow> pagedDNSStore" where
  "writePageOut pageNum s = (case fmlookup (pages s) pageNum of
       None \<Rightarrow> s
     | Some page \<Rightarrow> snd (writeSerializedPage pageNum (printJson (marshalPage page)) s))"

section \<open>The list of recently used pages\<close>

text \<open>\<open>s.pages[k].lruElement = s.lruList.PushBack(s.pages[k])\<close>.\<close>

definition pushBackPage :: "64 word \<Rightarrow> pagedDNSStore \<Rightarrow> pagedDNSStore" where
  "pushBackPage k s = (case fmlookup (pages s) k of
       None \<Rightarrow> s
     | Some page \<Rightarrow>
         s\<lparr>lruList := lruList s @ [(nextElement s, Key page)],
           nextElement := Suc (nextElement s),
           pages := fmupd k (page\<lparr>lruElement := Some (nextElement s)\<rparr>) (pages s)\<rparr>)"

definition newPage :: "64 word \<Rightarrow> PageStore" where
  "newPage pageNum = \<lparr>Key = pageNum, LastCommitIndex = 0, Store = fmempty, lruElement = None\<rparr>"

definition loadPageAndUpdateLRU :: "64 word \<Rightarrow> pagedDNSStore \<Rightarrow> pagedDNSStore" where
  "loadPageAndUpdateLRU pageNum s =
     (let s1 = readPageIn pageNum s;
          s2 = (case fmlookup (pages s1) pageNum of
                  Some _ \<Rightarrow> s1
                | None \<Rightarrow> s1\<lparr>pages := fmupd pageNum (newPage pageNum) (pages s1)\<rparr>);
          s3 = pushBackPage pageNum s2
      in if length (lruList s3) > PageStoreMaxLen
         then (case lruList s3 of
             [] \<Rightarrow> s3
           | (_, key) # rest \<Rightarrow>
               (let s4 = writePageOut key (s3\<lparr>lruList := rest\<rparr>)
                in s4\<lparr>pages := fmdrop key (pages s4)\<rparr>))
         else s3)"

text \<open>A page that is not there is a nil pointer, \<open>None\<close>.\<close>

definition getPage ::
    "(string \<Rightarrow> 64 word) \<Rightarrow> string \<Rightarrow> pagedDNSStore \<Rightarrow> PageStore option \<times> pagedDNSStore" where
  "getPage H name s =
     (let pageKey = getPageNumber H name;
          s1 = (case fmlookup (pages s) pageKey of
                  None \<Rightarrow> loadPageAndUpdateLRU pageKey s
                | Some page \<Rightarrow>
                    (case lruElement page of
                       None \<Rightarrow> s
                     | Some e \<Rightarrow>
                         pushBackPage pageKey
                           (s\<lparr>lruList := filter (\<lambda>x. fst x \<noteq> e) (lruList s)\<rparr>)))
      in (fmlookup (pages s1) pageKey, s1))"

text \<open>Dereferencing a nil page would panic; a lookup that never meets one is the lemma \<open>getPage_ok\<close>.\<close>

definition paged_lookupNameMap ::
    "(string \<Rightarrow> 64 word) \<Rightarrow> string \<Rightarrow> pagedDNSStore \<Rightarrow> dnsRRTypeMap option \<times> pagedDNSStore" where
  "paged_lookupNameMap H domainName s =
     (let (page, s1) = getPage H domainName s
      in (case page of None \<Rightarrow> None | Some p \<Rightarrow> fmlookup (Store p) domainName, s1))"

section \<open>Commits\<close>

definition nilPage :: go_exit where
  "nilPage = Panic ''invalid memory address or nil pointer dereference''"

definition paged_insertRR ::
    "(string \<Rightarrow> 64 word) \<Rightarrow> dns_lib \<Rightarrow> dnsRR \<Rightarrow> 64 word \<Rightarrow> pagedDNSStore \<Rightarrow> pagedDNSStore go" where
  "paged_insertRR H L rr commitIndex s =
     (let domainName = toLower (hdr_Name rr);
          (pagePtr, s1) = getPage H domainName s
      in case pagePtr of
          None \<Rightarrow> Inl nilPage
        | Some page \<Rightarrow>
            if commitIndex \<le> LastCommitIndex page then Inr s1
            else Inr (s1\<lparr>pages := fmupd (getPageNumber H domainName)
                   (page\<lparr>Store := storeInsert L rr (Store page), LastCommitIndex := commitIndex\<rparr>)
                   (pages s1)\<rparr>))"

definition paged_deleteRRs ::
    "(string \<Rightarrow> 64 word) \<Rightarrow> string \<Rightarrow> rrType \<Rightarrow> 64 word \<Rightarrow> pagedDNSStore \<Rightarrow> pagedDNSStore go" where
  "paged_deleteRRs H name rrType commitIndex s =
     (let (pagePtr, s1) = getPage H name s
      in case pagePtr of
          None \<Rightarrow> Inl nilPage
        | Some page \<Rightarrow>
            if commitIndex \<le> LastCommitIndex page then Inr s1
            else Inr (s1\<lparr>pages := fmupd (getPageNumber H name)
                   (page\<lparr>Store := storeDelete name rrType (Store page), LastCommitIndex := commitIndex\<rparr>)
                   (pages s1)\<rparr>))"

definition paged_applyProposal ::
    "(string \<Rightarrow> 64 word) \<Rightarrow> dns_lib \<Rightarrow> gob_lib \<Rightarrow> commitInfo \<Rightarrow> pagedDNSStore \<Rightarrow> pagedDNSStore go" where
  "paged_applyProposal H L G ci s =
     (case gobDecode G (ci_data ci) of
        None \<Rightarrow> Inl (Fatal ''dnsStore: could not decode message'')
      | Some proposal \<Rightarrow>
          if ProposalType proposal = AddRR then
            (case NewRR L (p_RRString proposal) of
               Inl _ \<Rightarrow> Inr s
             | Inr None \<Rightarrow> Inr s
             | Inr (Some rr) \<Rightarrow> paged_insertRR H L rr (ci_index ci) s)
          else if ProposalType proposal = DeleteRR then
            paged_deleteRRs H (p_Name proposal) (p_RRType proposal) (ci_index ci) s
          else Inl (Fatal ''dnsStore: bad proposal type''))"

section \<open>Snapshots\<close>

definition paged_getSnapshot :: "pagedDNSStore \<Rightarrow> string" where
  "paged_getSnapshot s = printJson (JObject
     [(''Pages'', marshalMap (decimal \<circ> unat) marshalPage (pages s)),
      (''LRUList'', marshalList marshalUint (map snd (lruList s)))])"

definition unmarshalSnapshot :: "json \<Rightarrow> (pageStoreMap \<times> 64 word list) option" where
  "unmarshalSnapshot j = (case j of
       JObject kvs \<Rightarrow>
         (case (unmarshalField (unmarshalMap parseUint unmarshalPage) fmempty ''Pages'' kvs,
                unmarshalField (unmarshalList unmarshalUint) [] ''LRUList'' kvs) of
            (Some ps, Some ks) \<Rightarrow> Some (ps, ks)
          | _ \<Rightarrow> None)
     | JNull \<Rightarrow> Some (fmempty, [])
     | _ \<Rightarrow> None)"

fun relinkPages :: "64 word list \<Rightarrow> pagedDNSStore \<Rightarrow> pagedDNSStore go" where
  "relinkPages [] s = Inr s"
| "relinkPages (key # keys) s =
     (case fmlookup (pages s) key of
        None \<Rightarrow> Inl nilPage
      | Some _ \<Rightarrow> relinkPages keys (pushBackPage key s))"

definition paged_recoverFromSnapshot :: "string \<Rightarrow> pagedDNSStore \<Rightarrow> pagedDNSStore go" where
  "paged_recoverFromSnapshot snapshot s =
     (case Option.bind (parseJson snapshot) unmarshalSnapshot of
        None \<Rightarrow> Inl (Panic ''recoverFromSnapshot'')
      | Some (ps, ks) \<Rightarrow> relinkPages ks (s\<lparr>pages := ps, lruList := []\<rparr>))"

definition newPagedDNSStore ::
    "(string \<Rightarrow> 64 word) \<Rightarrow> dns_lib \<Rightarrow> gob_lib \<Rightarrow> load_result \<Rightarrow> commit_event list
       \<Rightarrow> (64 word, string) fmap \<Rightarrow> bool list \<Rightarrow> string list \<Rightarrow> int
       \<Rightarrow> (loop_status \<times> commit_event list \<times> pagedDNSStore) go" where
  "newPagedDNSStore H L G load es files fs cl i =
     startReading (paged_applyProposal H L G) paged_recoverFromSnapshot load es
       (emptyPagedDNSStore files fs cl i)"


section \<open>The abstraction\<close>

type_synonym pageVersion = "64 word \<times> storeMap"

text \<open>What a file holds: the version of the page, an unreadable or missing file being a new page.\<close>

definition diskData :: "(64 word, string) fmap \<Rightarrow> 64 word \<Rightarrow> pageVersion" where
  "diskData files p = (case fmlookup files p of
       None \<Rightarrow> (0, fmempty)
     | Some data \<Rightarrow> (case Option.bind (parseJson data) unmarshalPage of
           None \<Rightarrow> (0, fmempty)
         | Some page \<Rightarrow> (LastCommitIndex page, Store page)))"

definition pageData :: "pagedDNSStore \<Rightarrow> 64 word \<Rightarrow> pageVersion" where
  "pageData s p = (case fmlookup (pages s) p of
       None \<Rightarrow> diskData (pagedir s) p
     | Some page \<Rightarrow> (LastCommitIndex page, Store page))"

text \<open>
  The invariant of the paging structures, for all pages but those of \<open>X\<close>, which are in memory and
  not in the list: an element of the list and the page it belongs to name each other, no element
  occurs twice, new elements are fresh, and page files hold the page of their number.
\<close>

definition lru_inv :: "64 word set \<Rightarrow> pagedDNSStore \<Rightarrow> bool" where
  "lru_inv X s \<longleftrightarrow>
     (\<forall>e p. (e, p) \<in> set (lruList s) \<longleftrightarrow>
        p \<notin> X \<and> (\<exists>page. fmlookup (pages s) p = Some page \<and> lruElement page = Some e)) \<and>
     (\<forall>p page. fmlookup (pages s) p = Some page \<longrightarrow>
        Key page = p \<and> (p \<notin> X \<longrightarrow> lruElement page \<noteq> None)) \<and>
     distinct (map fst (lruList s)) \<and>
     (\<forall>x \<in> set (lruList s). fst x < nextElement s) \<and>
     (\<forall>p data page. fmlookup (pagedir s) p = Some data \<longrightarrow>
        Option.bind (parseJson data) unmarshalPage = Some page \<longrightarrow> Key page = p)"

definition paged_ok :: "pagedDNSStore \<Rightarrow> bool" where
  "paged_ok s \<longleftrightarrow> lru_inv {} s \<and> length (lruList s) \<le> PageStoreMaxLen"

lemma unmarshalPage_marshalPage:
  "unmarshalPage (marshalPage page) = Some (page\<lparr>lruElement := None\<rparr>)"
proof -
  have "toLower ''Key'' = ''key''" "toLower ''LastCommitIndex'' = ''lastcommitindex''"
    "toLower ''Store'' = ''store''"
    by (simp_all add: toLower_def toLowerChar_def char_of_code)
  then show ?thesis
    by (simp add: unmarshalPage_def marshalPage_def unmarshalField_def unmarshalStore_marshalStore)
qed

lemma okJson_marshalPage [simp]: "okJson (marshalPage page)"
  by (simp add: marshalPage_def okJson_marshalStore)

lemma bind_parse_page [simp]:
  "Option.bind (parseJson (printJson (marshalPage page))) unmarshalPage = Some (page\<lparr>lruElement := None\<rparr>)"
  by (simp add: parseJson_printJson unmarshalPage_marshalPage)

lemma parseJson_Nil [simp]: "parseJson [] = None"
  by (simp add: parseJson_def skipWs_def)

lemma diskData_upd [simp]: "diskData (fmupd q (printJson (marshalPage page)) files) p
    = (if p = q then (LastCommitIndex page, Store page) else diskData files p)"
  by (simp add: diskData_def)

lemma diskData_touch [simp]:
  "fmlookup files q = None \<Longrightarrow> diskData (fmupd q [] files) p = diskData files p"
  by (auto simp: diskData_def)

lemma lru_inv_frame:
  "lru_inv X s \<Longrightarrow> lru_inv X (s\<lparr>faults := fs\<rparr>)"
  "lru_inv X s \<Longrightarrow> lru_inv X (s\<lparr>cache := c, whispered := w\<rparr>)"
  by (simp_all add: lru_inv_def)

lemma pushBack_inv_gen:
  assumes "lru_inv X s" "k |\<in>| fmdom (pages s)" "k \<in> X"
  shows "lru_inv (X - {k}) (pushBackPage k s)"
proof -
  from assms(2) obtain page where page: "fmlookup (pages s) k = Some page" by (meson fmdomE)
  have ids: "\<And>e p. (e, p) \<in> set (lruList s) \<longleftrightarrow>
        p \<notin> X \<and> (\<exists>page. fmlookup (pages s) p = Some page \<and> lruElement page = Some e)"
    using assms(1) unfolding lru_inv_def by blast
  have fresh: "\<And>e p. (e, p) \<in> set (lruList s) \<Longrightarrow> e < nextElement s"
    using assms(1) unfolding lru_inv_def by fastforce
  have key: "Key page = k" using assms(1) page unfolding lru_inv_def by blast
  have "(e, p) \<in> set (lruList s) \<or> (e, p) = (nextElement s, k) \<longleftrightarrow> p \<notin> X - {k} \<and>
       (\<exists>page'. (if p = k then Some (page\<lparr>lruElement := Some (nextElement s)\<rparr>) else fmlookup (pages s) p)
          = Some page' \<and> lruElement page' = Some e)" for e p
    using ids [of e p] assms(3) by auto
  moreover have "nextElement s \<notin> fst ` set (lruList s)" using fresh by fastforce
  moreover have "distinct (map fst (lruList s))" using assms(1) unfolding lru_inv_def by blast
  ultimately show ?thesis
    using assms(1,3) page key fresh unfolding lru_inv_def pushBackPage_def
    by (auto simp: less_Suc_eq)
qed

lemma pushBack_inv: "lru_inv {k} s \<Longrightarrow> k |\<in>| fmdom (pages s) \<Longrightarrow> lru_inv {} (pushBackPage k s)"
  using pushBack_inv_gen [of "{k}" s k] by simp

lemma pushBack_keeps:
  assumes "k |\<in>| fmdom (pages s)"
  shows "pageData (pushBackPage k s) = pageData s" "fmdom (pages (pushBackPage k s)) = fmdom (pages s)"
    "pagedir (pushBackPage k s) = pagedir s" "faults (pushBackPage k s) = faults s"
    "length (lruList (pushBackPage k s)) = Suc (length (lruList s))"
    "store_base.truncate (pushBackPage k s) = store_base.truncate s"
proof -
  obtain page where page: "fmlookup (pages s) k = Some page" using assms by (meson fmdomE)
  then show "pageData (pushBackPage k s) = pageData s"
    by (auto simp: pushBackPage_def pageData_def fun_eq_iff split: option.split)
  show "fmdom (pages (pushBackPage k s)) = fmdom (pages s)"
    using assms page by (simp add: pushBackPage_def finsert_absorb)
qed (use assms in \<open>auto simp: pushBackPage_def store_base.truncate_def elim!: fmdomE\<close>)

text \<open>Unlinking a page for its promotion.\<close>

lemma unlink_inv:
  assumes "lru_inv {} s" "fmlookup (pages s) k = Some page" "lruElement page = Some e"
  shows "lru_inv {k} (s\<lparr>lruList := filter (\<lambda>x. fst x \<noteq> e) (lruList s)\<rparr>)"
proof -
  have mem: "\<And>e p. (e, p) \<in> set (lruList s) \<longleftrightarrow>
        (\<exists>page. fmlookup (pages s) p = Some page \<and> lruElement page = Some e)"
    using assms(1) unfolding lru_inv_def by blast
  have dist: "distinct (map fst (lruList s))" using assms(1) unfolding lru_inv_def by blast
  have "(e, k) \<in> set (lruList s)" using mem assms(2,3) by blast
  with dist have "(e, p) \<in> set (lruList s) \<Longrightarrow> p = k" for p by (meson eq_key_imp_eq_value)
  then have "(d, p) \<in> set (lruList s) \<and> d \<noteq> e \<longleftrightarrow>
       p \<noteq> k \<and> (\<exists>page. fmlookup (pages s) p = Some page \<and> lruElement page = Some d)" for d p
    using mem [of d p] assms(2,3) by auto
  then show ?thesis
    using assms(1) dist unfolding lru_inv_def by (auto simp: distinct_map_filter)
qed

lemma pageData_pages: "pages s' = pages s \<Longrightarrow> pagedir s' = pagedir s \<Longrightarrow> pageData s' = pageData s"
  by (simp add: pageData_def fun_eq_iff split: option.split)

lemma unlink_length:
  "lru_inv {} s \<Longrightarrow> fmlookup (pages s) k = Some page \<Longrightarrow> lruElement page = Some e \<Longrightarrow>
     Suc (length (filter (\<lambda>x. fst x \<noteq> e) (lruList s))) \<le> length (lruList s)"
proof -
  assume "lru_inv {} s" "fmlookup (pages s) k = Some page" "lruElement page = Some e"
  then have "(e, k) \<in> set (lruList s)" unfolding lru_inv_def by blast
  then have "length (filter (\<lambda>x. fst x \<noteq> e) (lruList s)) < length (lruList s)"
    by (auto intro: length_filter_less)
  then show ?thesis by simp
qed

text \<open>Bringing a page in, from its file or new; without failures its data stays what it was.\<close>

definition broughtIn :: "64 word \<Rightarrow> pagedDNSStore \<Rightarrow> pagedDNSStore" where
  "broughtIn k s = (let s1 = readPageIn k s in case fmlookup (pages s1) k of
       Some _ \<Rightarrow> s1 | None \<Rightarrow> s1\<lparr>pages := fmupd k (newPage k) (pages s1)\<rparr>)"

lemma diskOp_form: "\<exists>f fs. diskOp s = (f, s\<lparr>faults := fs\<rparr>) \<and> (faults s = [] \<longrightarrow> \<not> f \<and> fs = [])"
proof (cases "faults s")
  case Nil
  then have "diskOp s = (False, s\<lparr>faults := []\<rparr>)" by (cases s) (simp add: diskOp_def)
  then show ?thesis by blast
qed (auto simp: diskOp_def)

lemma readSerialized_cases:
  obtains fs where "readSerializedPage k s = ([], s\<lparr>faults := fs\<rparr>)" "faults s \<noteq> []"
  | fs data where "readSerializedPage k s = (data, s\<lparr>faults := fs\<rparr>)" "fmlookup (pagedir s) k = Some data"
      "faults s = [] \<longrightarrow> fs = []"
  | fs where "readSerializedPage k s = ([], s\<lparr>faults := fs, pagedir := fmupd k [] (pagedir s)\<rparr>)"
      "fmlookup (pagedir s) k = None" "faults s = [] \<longrightarrow> fs = []"
proof -
  obtain f fs where d: "diskOp s = (f, s\<lparr>faults := fs\<rparr>)" "faults s = [] \<longrightarrow> \<not> f \<and> fs = []"
    using diskOp_form by blast
  show thesis
  proof (cases f)
    case True
    with d show thesis by (intro that(1) [of fs]) (auto simp: readSerializedPage_def)
  next
    case False
    show thesis
    proof (cases "fmlookup (pagedir s) k")
      case None
      with False d show thesis by (intro that(3) [of fs]) (simp_all add: readSerializedPage_def)
    next
      case (Some data)
      with False d show thesis by (intro that(2) [of data fs]) (simp_all add: readSerializedPage_def)
    qed
  qed
qed

lemma broughtIn_cases:
  assumes "fmlookup (pages s) k = None"
  obtains (stored) fs data page where "broughtIn k s = s\<lparr>faults := fs, pages := fmupd k page (pages s)\<rparr>"
      "fmlookup (pagedir s) k = Some data" "Option.bind (parseJson data) unmarshalPage = Some page"
      "faults s = [] \<longrightarrow> fs = []"
  | (fresh) fs files where
      "broughtIn k s = s\<lparr>faults := fs, pagedir := files, pages := fmupd k (newPage k) (pages s)\<rparr>"
      "files = pagedir s \<or> fmlookup (pagedir s) k = None \<and> files = fmupd k [] (pagedir s)"
      "faults s = [] \<longrightarrow> fs = [] \<and> diskData (pagedir s) k = (0, fmempty)"
proof (cases rule: readSerialized_cases [of k s])
  case (1 fs)
  from 1 assms have "broughtIn k s = s\<lparr>faults := fs, pagedir := pagedir s,
      pages := fmupd k (newPage k) (pages s)\<rparr>"
    by (simp add: broughtIn_def readPageIn_def Let_def)
  with 1 fresh show thesis by blast
next
  case (2 fs data)
  show thesis
  proof (cases "Option.bind (parseJson data) unmarshalPage")
    case None
    with 2 assms have "broughtIn k s = s\<lparr>faults := fs, pagedir := pagedir s,
        pages := fmupd k (newPage k) (pages s)\<rparr>"
      by (simp add: broughtIn_def readPageIn_def Let_def)
    moreover from None 2 have "diskData (pagedir s) k = (0, fmempty)" by (simp add: diskData_def)
    ultimately show thesis using 2 fresh by blast
  next
    case (Some page)
    then have "data \<noteq> []" by auto
    with Some 2 assms have "broughtIn k s = s\<lparr>faults := fs, pages := fmupd k page (pages s)\<rparr>"
      by (simp add: broughtIn_def readPageIn_def Let_def)
    with Some 2 stored show thesis by blast
  qed
next
  case (3 fs)
  from 3 assms have "broughtIn k s = s\<lparr>faults := fs, pagedir := fmupd k [] (pagedir s),
      pages := fmupd k (newPage k) (pages s)\<rparr>"
    by (simp add: broughtIn_def readPageIn_def Let_def)
  moreover from 3 have "diskData (pagedir s) k = (0, fmempty)" by (simp add: diskData_def)
  ultimately show thesis using 3 fresh by blast
qed

lemma lru_inv_add:
  assumes "lru_inv {} s" "fmlookup (pages s) k = None" "Key page = k"
    and "\<And>p data pg. fmlookup files p = Some data \<Longrightarrow>
          Option.bind (parseJson data) unmarshalPage = Some pg \<Longrightarrow> Key pg = p"
  shows "lru_inv {k} (s\<lparr>faults := fs, pagedir := files, pages := fmupd k page (pages s)\<rparr>)"
  using assms unfolding lru_inv_def by (auto; fastforce)

lemma lru_inv_file:
  "lru_inv X s \<Longrightarrow> fmlookup (pagedir s) p = Some data \<Longrightarrow>
     Option.bind (parseJson data) unmarshalPage = Some page \<Longrightarrow> Key page = p"
  unfolding lru_inv_def by blast

lemma broughtIn_ok:
  assumes "lru_inv {} s" "fmlookup (pages s) k = None"
  shows "lru_inv {k} (broughtIn k s)" "k |\<in>| fmdom (pages (broughtIn k s))"
    "lruList (broughtIn k s) = lruList s" "diskData (pagedir (broughtIn k s)) = diskData (pagedir s)"
    "store_base.truncate (broughtIn k s) = store_base.truncate s"
    "faults s = [] \<Longrightarrow> faults (broughtIn k s) = [] \<and> pageData (broughtIn k s) = pageData s"
    "p \<noteq> k \<Longrightarrow> fmlookup (pages (broughtIn k s)) p = fmlookup (pages s) p"
proof -
  have "lru_inv {k} (broughtIn k s) \<and> k |\<in>| fmdom (pages (broughtIn k s)) \<and>
    lruList (broughtIn k s) = lruList s \<and> diskData (pagedir (broughtIn k s)) = diskData (pagedir s) \<and>
    store_base.truncate (broughtIn k s) = store_base.truncate s \<and>
    (faults s = [] \<longrightarrow> faults (broughtIn k s) = [] \<and> pageData (broughtIn k s) = pageData s) \<and>
    (p \<noteq> k \<longrightarrow> fmlookup (pages (broughtIn k s)) p = fmlookup (pages s) p)"
    using assms(2)
  proof (cases rule: broughtIn_cases)
    case (stored fs data page)
    have b: "broughtIn k s = s\<lparr>faults := fs, pagedir := pagedir s, pages := fmupd k page (pages s)\<rparr>"
      using stored by (cases s) simp
    have "lru_inv {k} (broughtIn k s)"
      unfolding b using lru_inv_file [OF assms(1)] stored
      by (intro lru_inv_add assms) blast+
    moreover have "pageData (broughtIn k s) = pageData s"
      using stored assms(2)
      by (auto simp: stored(1) pageData_def fun_eq_iff diskData_def split: option.split)
    moreover have "faults (broughtIn k s) = fs" "lruList (broughtIn k s) = lruList s"
      "pagedir (broughtIn k s) = pagedir s" "pages (broughtIn k s) = fmupd k page (pages s)"
      "store_base.truncate (broughtIn k s) = store_base.truncate s"
      by (simp_all add: stored(1) store_base.truncate_def)
    ultimately show ?thesis using stored(4) by simp
  next
    case (fresh fs files)
    have "lru_inv {k} (broughtIn k s)"
      unfolding fresh using lru_inv_file [OF assms(1)] fresh(2)
      by (intro lru_inv_add assms) (auto simp: newPage_def split: if_splits)
    moreover have files: "diskData files = diskData (pagedir s)" using fresh(2) by (auto simp: fun_eq_iff)
    moreover have "pageData (broughtIn k s) = pageData s" if "faults s = []"
      using that fresh(3) assms(2) files
      by (auto simp: fresh(1) pageData_def fun_eq_iff newPage_def split: option.split)
    ultimately show ?thesis using fresh by (simp add: store_base.truncate_def)
  qed
  then show "lru_inv {k} (broughtIn k s)" "k |\<in>| fmdom (pages (broughtIn k s))"
    "lruList (broughtIn k s) = lruList s" "diskData (pagedir (broughtIn k s)) = diskData (pagedir s)"
    "store_base.truncate (broughtIn k s) = store_base.truncate s"
    "faults s = [] \<Longrightarrow> faults (broughtIn k s) = [] \<and> pageData (broughtIn k s) = pageData s"
    "p \<noteq> k \<Longrightarrow> fmlookup (pages (broughtIn k s)) p = fmlookup (pages s) p"
    by blast+
qed

text \<open>Dropping the front page of the list after writing it out.\<close>

definition evictFront :: "pagedDNSStore \<Rightarrow> pagedDNSStore" where
  "evictFront s = (case lruList s of
       [] \<Rightarrow> s
     | (_, key) # rest \<Rightarrow> (let s4 = writePageOut key (s\<lparr>lruList := rest\<rparr>)
                         in s4\<lparr>pages := fmdrop key (pages s4)\<rparr>))"

lemma loadPage_eq:
  "loadPageAndUpdateLRU k s = (let s3 = pushBackPage k (broughtIn k s)
     in if length (lruList s3) > PageStoreMaxLen then evictFront s3 else s3)"
  by (simp add: loadPageAndUpdateLRU_def broughtIn_def evictFront_def Let_def)

lemma writePageOut_form:
  assumes "fmlookup (pages s) key = Some page"
  shows "\<exists>fs files. writePageOut key s = s\<lparr>faults := fs, pagedir := files\<rparr> \<and>
     (files = pagedir s \<or> files = fmupd key (printJson (marshalPage page)) (pagedir s)) \<and>
     (faults s = [] \<longrightarrow> fs = [] \<and> files = fmupd key (printJson (marshalPage page)) (pagedir s))"
proof -
  obtain f fs where d: "diskOp s = (f, s\<lparr>faults := fs\<rparr>)" "faults s = [] \<longrightarrow> \<not> f \<and> fs = []"
    using diskOp_form by blast
  with assms show ?thesis
    by (intro exI [of _ fs] exI [of _ "if f then pagedir s
          else fmupd key (printJson (marshalPage page)) (pagedir s)"])
      (auto simp: writePageOut_def writeSerializedPage_def)
qed

lemma evictFront_ok:
  assumes "lru_inv {} s" "lruList s = (e, key) # rest"
  shows "lru_inv {} (evictFront s)" "lruList (evictFront s) = rest"
    "pages (evictFront s) = fmdrop key (pages s)"
    "store_base.truncate (evictFront s) = store_base.truncate s"
    "faults s = [] \<Longrightarrow> faults (evictFront s) = [] \<and> pageData (evictFront s) = pageData s"
    "diskData (pagedir (evictFront s)) p \<in> {diskData (pagedir s) p, pageData s p}"
proof -
  have ids: "\<And>e p. (e, p) \<in> set (lruList s) \<longleftrightarrow>
        (\<exists>page. fmlookup (pages s) p = Some page \<and> lruElement page = Some e)"
    and pgs: "\<And>p page. fmlookup (pages s) p = Some page \<Longrightarrow> Key page = p \<and> lruElement page \<noteq> None"
    and dist: "distinct (map fst (lruList s))" and lt: "\<forall>x \<in> set (lruList s). fst x < nextElement s"
    using assms(1) unfolding lru_inv_def by blast+
  from ids [of e key] assms(2) obtain page
    where page: "fmlookup (pages s) key = Some page" "lruElement page = Some e" by auto
  let ?s = "s\<lparr>lruList := rest\<rparr>"
  obtain fs files where w: "writePageOut key ?s = ?s\<lparr>faults := fs, pagedir := files\<rparr>"
      "files = pagedir s \<or> files = fmupd key (printJson (marshalPage page)) (pagedir s)"
      "faults s = [] \<longrightarrow> fs = [] \<and> files = fmupd key (printJson (marshalPage page)) (pagedir s)"
    using writePageOut_form [of ?s key page] page by auto
  then have ev: "evictFront s = s\<lparr>lruList := rest, faults := fs, pagedir := files,
      pages := fmdrop key (pages s)\<rparr>"
    using assms(2) by (simp add: evictFront_def Let_def)
  have rest: "(d, p) \<in> set rest \<longleftrightarrow>
      (\<exists>page. fmlookup (fmdrop key (pages s)) p = Some page \<and> lruElement page = Some d)" for d p
  proof -
    have "(d, p) \<in> set rest \<longleftrightarrow> (d, p) \<in> set (lruList s) \<and> p \<noteq> key"
    proof
      assume r: "(d, p) \<in> set rest"
      with dist assms(2) have "d \<noteq> e" by force
      with r ids [of d p] page assms(2) show "(d, p) \<in> set (lruList s) \<and> p \<noteq> key" by auto
    qed (use assms(2) in auto)
    with ids show ?thesis by auto
  qed
  have files: "Key pg = p" if "fmlookup files p = Some data"
      "Option.bind (parseJson data) unmarshalPage = Some pg" for p data pg
    using that w(2) lru_inv_file [OF assms(1)] pgs [OF page(1)] by (auto split: if_splits)
  have "\<And>p pg. fmlookup (fmdrop key (pages s)) p = Some pg \<Longrightarrow> Key pg = p \<and> lruElement pg \<noteq> None"
    using pgs by (auto split: if_splits)
  moreover have "distinct (map fst rest)" "\<forall>x \<in> set rest. fst x < nextElement s"
    using dist lt assms(2) by simp_all
  ultimately show "lru_inv {} (evictFront s)"
    unfolding ev lru_inv_def using rest files by simp
  show "lruList (evictFront s) = rest" "pages (evictFront s) = fmdrop key (pages s)"
    "store_base.truncate (evictFront s) = store_base.truncate s"
    by (simp_all add: ev store_base.truncate_def)
  show "faults (evictFront s) = [] \<and> pageData (evictFront s) = pageData s" if "faults s = []"
    using that w(3) page by (auto simp: ev pageData_def fun_eq_iff split: option.split)
  show "diskData (pagedir (evictFront s)) p \<in> {diskData (pagedir s) p, pageData s p}"
    using w(2) page by (auto simp: ev pageData_def)
qed


text \<open>The pages in memory have as many numbers as the list has elements.\<close>

lemma lru_list_pages:
  assumes "lru_inv {} s"
  shows "distinct (map snd (lruList s))" "set (map snd (lruList s)) = fset (fmdom (pages s))"
proof -
  have ids: "\<And>e p. (e, p) \<in> set (lruList s) \<longleftrightarrow>
        (\<exists>page. fmlookup (pages s) p = Some page \<and> lruElement page = Some e)"
    and some: "\<And>p page. fmlookup (pages s) p = Some page \<Longrightarrow> \<exists>e. lruElement page = Some e"
    and dist: "distinct (map fst (lruList s))"
    using assms unfolding lru_inv_def by blast+
  have "inj_on snd (set (lruList s))" using ids by (auto simp: inj_on_def)
  moreover have "distinct (lruList s)" using dist by (simp add: distinct_map)
  ultimately show "distinct (map snd (lruList s))" by (simp add: distinct_map)
  have "p \<in> snd ` set (lruList s) \<longleftrightarrow> p |\<in>| fmdom (pages s)" for p
  proof
    assume "p |\<in>| fmdom (pages s)"
    then obtain page e where "fmlookup (pages s) p = Some page" "lruElement page = Some e"
      using some by (meson fmdomE)
    with ids have "(e, p) \<in> set (lruList s)" by blast
    then show "p \<in> snd ` set (lruList s)" by force
  qed (use ids in \<open>auto intro: fmdomI\<close>)
  then show "set (map snd (lruList s)) = fset (fmdom (pages s))" by auto
qed

lemma paged_ok_bound:
  assumes "paged_ok s" shows "fm_len (pages s) \<le> PageStoreMaxLen"
proof -
  from assms have "lru_inv {} s" "length (lruList s) \<le> PageStoreMaxLen" by (simp_all add: paged_ok_def)
  note ps = lru_list_pages [OF this(1)]
  have "fm_len (pages s) = card (set (map snd (lruList s)))"
    unfolding ps(2) by (simp add: fm_len_def fcard.rep_eq)
  also have "\<dots> \<le> length (lruList s)" by (metis card_length length_map)
  finally show ?thesis using \<open>length (lruList s) \<le> PageStoreMaxLen\<close> by simp
qed


text \<open>
  What moving pages may do to a state: the invariant stays, the base record too, and without file
  failures every page keeps its data, files taking over at most what the state held.
\<close>

definition pageMove :: "pagedDNSStore \<Rightarrow> pagedDNSStore \<Rightarrow> bool" where
  "pageMove s s' \<longleftrightarrow> paged_ok s' \<and> store_base.truncate s' = store_base.truncate s \<and>
     (faults s = [] \<longrightarrow> faults s' = [] \<and> pageData s' = pageData s \<and>
        (\<forall>p. diskData (pagedir s') p \<in> {diskData (pagedir s) p, pageData s p}))"

lemma pageMove_refl: "paged_ok s \<Longrightarrow> pageMove s s"
  by (simp add: pageMove_def)

lemma loadPage_move:
  assumes "paged_ok s" "fmlookup (pages s) k = None"
  shows "pageMove s (loadPageAndUpdateLRU k s) \<and> k |\<in>| fmdom (pages (loadPageAndUpdateLRU k s))"
proof -
  let ?s3 = "pushBackPage k (broughtIn k s)"
  from assms(1) have inv: "lru_inv {} s" and len: "length (lruList s) \<le> PageStoreMaxLen"
    by (simp_all add: paged_ok_def)
  note b = broughtIn_ok [OF inv assms(2)]
  note pb = pushBack_keeps [OF b(2)]
  have inv3: "lru_inv {} ?s3" by (rule pushBack_inv [OF b(1,2)])
  have len3: "length (lruList ?s3) = Suc (length (lruList s))" by (simp add: pb b)
  have keep3: "faults s = [] \<Longrightarrow> faults ?s3 = [] \<and> pageData ?s3 = pageData s"
    using b(6) by (simp add: pb)
  show ?thesis
  proof (cases "length (lruList ?s3) > PageStoreMaxLen")
    case False
    then show ?thesis
      using inv3 len3 keep3 b pb by (simp add: loadPage_eq pageMove_def paged_ok_def)
  next
    case True
    then obtain e key rest where front: "lruList ?s3 = (e, key) # rest"
      by (metis len3 length_Suc_conv surj_pair)
    have "lruList s \<noteq> []" using True len3 by (auto simp: PageStoreMaxLen_def)
    moreover obtain x where x: "lruList ?s3 = lruList s @ [x]"
      using b(2,3) by (auto simp: pushBackPage_def elim!: fmdomE)
    ultimately have "(e, key) \<in> set (lruList s)" using front by (cases "lruList s") auto
    with inv assms(2) have "key \<noteq> k" unfolding lru_inv_def by force
    note ev = evictFront_ok [OF inv3 front]
    have "length rest \<le> PageStoreMaxLen" using front len len3 by simp
    moreover have "diskData (pagedir (evictFront ?s3)) p \<in> {diskData (pagedir s) p, pageData s p}"
      if "faults s = []" for p
      using ev(6) [of p] keep3 [OF that] by (simp add: pb b)
    ultimately show ?thesis
      using True \<open>key \<noteq> k\<close> ev(1-5) keep3 b(2) pb(2) b(5) pb(6)
      by (simp add: loadPage_eq pageMove_def paged_ok_def)
  qed
qed

lemma getPage_ok:
  assumes "paged_ok s"
  shows "\<exists>page. getPage H n s = (Some page, snd (getPage H n s)) \<and>
           fmlookup (pages (snd (getPage H n s))) (getPageNumber H n) = Some page"
    and "pageMove s (snd (getPage H n s))"
proof -
  let ?k = "getPageNumber H n"
  have "pageMove s (snd (getPage H n s)) \<and> ?k |\<in>| fmdom (pages (snd (getPage H n s)))"
  proof (cases "fmlookup (pages s) ?k")
    case None
    with loadPage_move [OF assms None] show ?thesis by (simp add: getPage_def Let_def)
  next
    case (Some page)
    from assms have inv: "lru_inv {} s" by (simp add: paged_ok_def)
    with Some obtain e where e: "lruElement page = Some e" unfolding lru_inv_def by blast
    let ?t = "s\<lparr>lruList := filter (\<lambda>x. fst x \<noteq> e) (lruList s)\<rparr>"
    have k: "?k |\<in>| fmdom (pages ?t)" using Some by (simp add: fmdomI)
    note pb = pushBack_keeps [OF k]
    have "pageData ?t = pageData s" by (rule pageData_pages) simp_all
    moreover have "Suc (length (filter (\<lambda>x. fst x \<noteq> e) (lruList s))) \<le> PageStoreMaxLen"
      using unlink_length [OF inv Some e] assms by (simp add: paged_ok_def)
    ultimately show ?thesis
      using Some e pushBack_inv [OF unlink_inv [OF inv Some e] k] pb k
      by (simp add: getPage_def Let_def pageMove_def paged_ok_def store_base.truncate_def)
  qed
  moreover have "fst (getPage H n s) = fmlookup (pages (snd (getPage H n s))) ?k"
    by (simp add: getPage_def Let_def)
  ultimately show "\<exists>page. getPage H n s = (Some page, snd (getPage H n s)) \<and>
           fmlookup (pages (snd (getPage H n s))) ?k = Some page"
    and "pageMove s (snd (getPage H n s))"
    by (metis fmdomE prod.collapse)+
qed

section \<open>The records of all pages\<close>

text \<open>The record map of a state: each page contributes the names that hash to it.\<close>

definition pagedNames :: "(string \<Rightarrow> 64 word) \<Rightarrow> pagedDNSStore \<Rightarrow> storeMap" where
  "pagedNames H s = fold (\<lambda>p m. m ++\<^sub>f fmfilter (\<lambda>n. getPageNumber H n = p) (snd (pageData s p)))
     (sorted_list_of_fset (fmdom (pages s) |\<union>| fmdom (pagedir s))) fmempty"

lemma fold_pages_lookup:
  "fmlookup (fold (\<lambda>p m. m ++\<^sub>f fmfilter (\<lambda>n. g n = p) (f p)) ps m) n
   = (if g n \<in> set ps \<and> fmlookup (f (g n)) n \<noteq> None then fmlookup (f (g n)) n else fmlookup m n)"
  by (induction ps arbitrary: m) (auto simp: fmdom_notD)

lemma pageData_none:
  "p |\<notin>| fmdom (pages s) \<Longrightarrow> p |\<notin>| fmdom (pagedir s) \<Longrightarrow> pageData s p = (0, fmempty)"
  by (simp add: pageData_def diskData_def fmdom_notD)

lemma pagedNames_lookup:
  "fmlookup (pagedNames H s) n = fmlookup (snd (pageData s (getPageNumber H n))) n"
proof -
  have "set (sorted_list_of_fset A) = fset A" for A :: "64 word fset"
    by (simp add: sorted_list_of_fset.rep_eq)
  then show ?thesis
    using pageData_none [of "getPageNumber H n" s]
    by (auto simp: pagedNames_def fold_pages_lookup)
qed

lemma pagedNames_cong: "pageData s = pageData t \<Longrightarrow> pagedNames H s = pagedNames H t"
  by (intro fmap_ext) (simp add: pagedNames_lookup)


text \<open>How fetching a page changes the list, for a page that is not in memory and one that is.\<close>

lemma lru_absent:
  assumes "paged_ok s" "fmlookup (pages s) (getPageNumber H n) = None"
  shows "map snd (lruList (snd (getPage H n s))) =
     (let k = getPageNumber H n;
          l = filter (\<lambda>p. p \<noteq> k) (map snd (lruList s)) @ [k]
      in if length l > PageStoreMaxLen then tl l else l)"
proof -
  let ?k = "getPageNumber H n"
  from assms(1) have inv: "lru_inv {} s" by (simp add: paged_ok_def)
  note b = broughtIn_ok [OF inv assms(2)]
  have "?k \<notin> set (map snd (lruList s))"
    using assms(2) unfolding lru_list_pages(2) [OF inv] by (simp add: fmlookup_dom_iff)
  then have old: "filter (\<lambda>p. p \<noteq> ?k) (map snd (lruList s)) = map snd (lruList s)"
    by (intro filter_True) metis
  let ?s3 = "pushBackPage ?k (broughtIn ?k s)"
  have inv3: "lru_inv {} ?s3" by (rule pushBack_inv [OF b(1,2)])
  have "map snd (lruList ?s3) = map snd (lruList s) @ [?k]"
    using b unfolding lru_inv_def by (auto simp: pushBackPage_def elim!: fmdomE)
  moreover have "map snd (lruList (evictFront ?s3)) = tl (map snd (lruList ?s3))"
    using evictFront_ok(2) [OF inv3] by (cases "lruList ?s3") (auto simp: evictFront_def)
  moreover have "length (map snd (lruList ?s3)) = length (lruList ?s3)" by simp
  ultimately show ?thesis
    using assms(2) unfolding Let_def old by (simp add: getPage_def loadPage_eq Let_def)
qed

lemma lru_present:
  assumes "paged_ok s" "fmlookup (pages s) (getPageNumber H n) = Some page"
  shows "map snd (lruList (snd (getPage H n s))) =
     (let k = getPageNumber H n;
          l = filter (\<lambda>p. p \<noteq> k) (map snd (lruList s)) @ [k]
      in if length l > PageStoreMaxLen then tl l else l)"
proof -
  let ?k = "getPageNumber H n"
  from assms(1) have inv: "lru_inv {} s" by (simp add: paged_ok_def)
  with assms(2) obtain e where e: "lruElement page = Some e" and key: "Key page = ?k"
    unfolding lru_inv_def by blast
  have mem: "(e, p) \<in> set (lruList s) \<longleftrightarrow>
      (\<exists>page. fmlookup (pages s) p = Some page \<and> lruElement page = Some e)" for e p
    using inv unfolding lru_inv_def by blast
  have dist: "distinct (map fst (lruList s))" using inv unfolding lru_inv_def by blast
  have in_list: "(e, ?k) \<in> set (lruList s)" using mem assms(2) e by blast
  have "fst x \<noteq> e \<longleftrightarrow> snd x \<noteq> ?k" if "x \<in> set (lruList s)" for x
  proof (cases x)
    case (Pair d p)
    with that mem [of d p] assms(2) e dist in_list show ?thesis
      by (auto dest: eq_key_imp_eq_value)
  qed
  then have filt: "filter (\<lambda>x. fst x \<noteq> e) (lruList s) = filter (\<lambda>x. snd x \<noteq> ?k) (lruList s)"
    by (rule filter_cong [OF refl])
  have "map snd (lruList (snd (getPage H n s)))
      = filter (\<lambda>p. p \<noteq> ?k) (map snd (lruList s)) @ [?k]"
    using assms(2) e key filt by (simp add: getPage_def pushBackPage_def Let_def filter_map comp_def)
  moreover have "length (filter (\<lambda>p. p \<noteq> ?k) (map snd (lruList s)) @ [?k]) \<le> PageStoreMaxLen"
    using unlink_length [OF inv assms(2) e] assms(1) filt by (simp add: filter_map comp_def paged_ok_def)
  ultimately show ?thesis by (simp add: Let_def)
qed

section \<open>Properties\<close>

lemma paged_apply_inv:
  assumes "paged_ok s"
  shows "case paged_applyProposal H L G ci s of Inl e \<Rightarrow> e \<noteq> nilPage | Inr s' \<Rightarrow> paged_ok s'"
proof -
  have set_ok: "paged_ok (s1\<lparr>pages := fmupd k (page\<lparr>Store := st, LastCommitIndex := i\<rparr>) (pages s1)\<rparr>)"
    if "paged_ok s1" "fmlookup (pages s1) k = Some page" for s1 k page st i
    using that unfolding paged_ok_def lru_inv_def by auto
  have get: "\<exists>page s1. getPage H n s = (Some page, s1) \<and>
      fmlookup (pages s1) (getPageNumber H n) = Some page \<and> paged_ok s1" for n
    using getPage_ok [OF assms, of H n] by (metis pageMove_def)
  have "case paged_insertRR H L rr i s of Inl e \<Rightarrow> e \<noteq> nilPage | Inr s' \<Rightarrow> paged_ok s'" for rr i
    using get [of "toLower (hdr_Name rr)"] set_ok by (auto simp: paged_insertRR_def Let_def)
  moreover have "case paged_deleteRRs H n ty i s of Inl e \<Rightarrow> e \<noteq> nilPage | Inr s' \<Rightarrow> paged_ok s'" for n ty i
    using get [of n] set_ok by (auto simp: paged_deleteRRs_def Let_def)
  moreover have "paged_applyProposal H L G ci s = Inr s
      \<or> (\<exists>m. paged_applyProposal H L G ci s = Inl (Fatal m))
      \<or> (\<exists>rr i. paged_applyProposal H L G ci s = paged_insertRR H L rr i s)
      \<or> (\<exists>n ty i. paged_applyProposal H L G ci s = paged_deleteRRs H n ty i s)"
    unfolding paged_applyProposal_def by (simp split: option.split sum.split) blast
  ultimately show ?thesis
    using assms by (elim disjE exE) (simp_all add: nilPage_def)
qed

lemma emptyPaged_ok [simp]: "paged_ok (emptyPagedDNSStore fmempty fs cl i)"
  by (simp add: paged_ok_def lru_inv_def emptyPagedDNSStore_def PageStoreMaxLen_def)

text \<open>
  C31. Bounded memory: whatever commits are applied, and whichever file operations fail, the paging
  structures stay consistent (every page in memory is exactly once in the list, under its own
  number), at most \<open>PageStoreMaxLen\<close> pages are in memory, and no nil page is dereferenced.
\<close>

theorem paged_memory_bounded:
  assumes "paged_ok s"
  shows "case runCommits (paged_applyProposal H L G) cis s of
           Inl e \<Rightarrow> e \<noteq> nilPage
         | Inr s' \<Rightarrow> paged_ok s' \<and> fm_len (pages s') \<le> PageStoreMaxLen"
  using assms
proof (induction cis arbitrary: s)
  case Nil
  then show ?case by (simp add: paged_ok_bound)
next
  case (Cons ci cis)
  with paged_apply_inv [OF Cons.prems, of H L G ci] show ?case
    by (cases "paged_applyProposal H L G ci s") simp_all
qed

lemma paged_memory_bounded_witness:
  "case runCommits (paged_applyProposal sampleHash sampleLib sampleGob)
        [\<lparr>ci_index = 1, ci_data = sampleEncode (addProposal ''a. 60 1 10.0.0.1'')\<rparr>]
        (emptyPagedDNSStore fmempty [True] [] 1) of
     Inl e \<Rightarrow> e \<noteq> nilPage
   | Inr s' \<Rightarrow> paged_ok s' \<and> fm_len (pages s') \<le> PageStoreMaxLen"
  by (rule paged_memory_bounded) simp

text \<open>
  C32. The replacement policy is least recently used: fetching the page of a name moves its number
  to the end of the list; the other pages keep their order, and the first of the list is dropped
  exactly when the list would exceed \<open>PageStoreMaxLen\<close>.
\<close>

theorem lru_policy:
  assumes "paged_ok s"
  shows "map snd (lruList (snd (getPage H n s))) =
     (let k = getPageNumber H n;
          l = filter (\<lambda>p. p \<noteq> k) (map snd (lruList s)) @ [k]
      in if length l > PageStoreMaxLen then tl l else l)"
  using lru_absent [OF assms] lru_present [OF assms]
  by (cases "fmlookup (pages s) (getPageNumber H n)") blast+

lemma lru_policy_witness:
  "map snd (lruList (snd (getPage sampleHash ''a.'' (emptyPagedDNSStore fmempty [] [] 1))))
   = [getPageNumber sampleHash ''a.'']"
  using lru_policy [OF emptyPaged_ok, of sampleHash "''a.''" "[]" "[]" 1]
  by (simp add: emptyPagedDNSStore_def PageStoreMaxLen_def)

end
