(* ===== verification/Paged_Commits.thy ===== *)
theory Paged_Commits
  imports Paged_Store
begin

text \<open>
  Commits, snapshots and restarts of the paged store. A commit acts on the version of one page
  (\<open>pageStep\<close>), whatever pages are in memory; a version that has seen a commit ignores its replay,
  which is what makes page files that are ahead of a snapshot harmless.
\<close>

section \<open>What a commit does to a page\<close>

text \<open>The name a proposal changes, if it changes any.\<close>

definition proposalName :: "dns_lib \<Rightarrow> dnsProposal \<Rightarrow> string option" where
  "proposalName L p =
     (if ProposalType p = AddRR then map_option (\<lambda>rr. toLower (hdr_Name rr)) (parseRR L (p_RRString p))
      else Some (p_Name p))"

text \<open>A version of a page after a commit: changed if the page is concerned and has not seen it.\<close>

definition pageStep ::
    "(string \<Rightarrow> 64 word) \<Rightarrow> dns_lib \<Rightarrow> 64 word \<times> dnsProposal \<Rightarrow> 64 word \<Rightarrow> pageVersion \<Rightarrow> pageVersion" where
  "pageStep H L c k v =
     (if map_option (getPageNumber H) (proposalName L (snd c)) = Some k \<and> fst v < fst c
      then (fst c, applyTo L (snd c) (snd v)) else v)"

lemma setPage_ok:
  assumes "paged_ok s" "fmlookup (pages s) k = Some page"
  shows "paged_ok (s\<lparr>pages := fmupd k (page\<lparr>Store := st, LastCommitIndex := i\<rparr>) (pages s)\<rparr>)"
  using assms unfolding paged_ok_def lru_inv_def by auto

lemma setPage_data:
  "pageData (s\<lparr>pages := fmupd k (page\<lparr>Store := st, LastCommitIndex := i\<rparr>) (pages s)\<rparr>)
     = (pageData s)(k := (i, st))"
  by (auto simp: pageData_def fun_eq_iff split: option.split)

lemma pageMove_D:
  assumes "pageMove s s'" "faults s = []"
  shows "paged_ok s'" "faults s' = []" "pageData s' = pageData s"
    "store_base.truncate s' = store_base.truncate s"
    "diskData (pagedir s') p \<in> {diskData (pagedir s) p, pageData s p}"
  using assms by (simp_all add: pageMove_def)

lemma pageStep_other: "map_option (getPageNumber H) (proposalName L (snd c)) \<noteq> Some k \<Longrightarrow> pageStep H L c k v = v"
  unfolding pageStep_def by (rule if_not_P) blast

text \<open>The common part of inserting and deleting: find the page, look at its index, change it.\<close>

lemma change_page:
  fixes f :: "storeMap \<Rightarrow> storeMap"
  assumes "paged_ok s" "faults s = []" and "proposalName L p = Some n"
    and "f = applyTo L p"
  shows "\<exists>page s1 s'. getPage H n s = (Some page, s1) \<and>
     (if i \<le> LastCommitIndex page then s1
      else s1\<lparr>pages := fmupd (getPageNumber H n)
        (page\<lparr>Store := f (Store page), LastCommitIndex := i\<rparr>) (pages s1)\<rparr>) = s' \<and>
     paged_ok s' \<and> faults s' = [] \<and> pageData s' = (\<lambda>k. pageStep H L (i, p) k (pageData s k)) \<and>
     (\<forall>k. diskData (pagedir s') k \<in> {diskData (pagedir s) k, pageData s k})"
proof -
  let ?k = "getPageNumber H n"
  obtain page s1 where g: "getPage H n s = (Some page, s1)" and k: "fmlookup (pages s1) ?k = Some page"
    using getPage_ok(1) [OF assms(1), of H n] by (metis snd_conv)
  note mv = pageMove_D [OF getPage_ok(2) [OF assms(1), of H n, unfolded g snd_conv] assms(2)]
  have v: "pageData s ?k = (LastCommitIndex page, Store page)"
    using k by (simp add: mv(3) [symmetric] pageData_def)
  show ?thesis
  proof (cases "i \<le> LastCommitIndex page")
    case True
    then have "(\<lambda>k. pageStep H L (i, p) k (pageData s k)) = pageData s"
      using v by (auto simp: pageStep_def fun_eq_iff assms(3))
    with True g mv show ?thesis by auto
  next
    case False
    then have "(\<lambda>k. pageStep H L (i, p) k (pageData s k)) = (pageData s)(?k := (i, f (Store page)))"
      using v by (auto simp: pageStep_def fun_eq_iff assms(3,4))
    with False g mv setPage_ok [OF mv(1) k] setPage_data [where s = s1 and k = ?k and page = page]
    show ?thesis by (auto simp: mv(3))
  qed
qed

lemma paged_apply:
  assumes "paged_ok s" "faults s = []" and "gobDecode G (ci_data ci) = Some p" "valid_proposal p"
  shows "\<exists>s'. paged_applyProposal H L G ci s = Inr s' \<and> paged_ok s' \<and> faults s' = [] \<and>
     pageData s' = (\<lambda>k. pageStep H L (ci_index ci, p) k (pageData s k)) \<and>
     (\<forall>k. diskData (pagedir s') k \<in> {diskData (pagedir s) k, pageData s k})"
proof (cases "proposalName L p")
  case None
  then have "paged_applyProposal H L G ci s = Inr s"
    using assms(3,4)
    by (auto simp: proposalName_def paged_applyProposal_def valid_proposal_def parseRR_def
        split: if_splits sum.splits option.splits)
  with None assms(1,2) show ?thesis by (auto simp: pageStep_def)
next
  case (Some n)
  from change_page [OF assms(1,2) Some refl, of H "ci_index ci"]
  obtain page s1 where g: "getPage H n s = (Some page, s1)" and post:
    "\<exists>s'. (if ci_index ci \<le> LastCommitIndex page then s1
      else s1\<lparr>pages := fmupd (getPageNumber H n) (page\<lparr>Store := applyTo L p (Store page),
        LastCommitIndex := ci_index ci\<rparr>) (pages s1)\<rparr>) = s' \<and>
     paged_ok s' \<and> faults s' = [] \<and> pageData s' = (\<lambda>k. pageStep H L (ci_index ci, p) k (pageData s k)) \<and>
     (\<forall>k. diskData (pagedir s') k \<in> {diskData (pagedir s) k, pageData s k})" by blast
  have "paged_applyProposal H L G ci s = Inr (if ci_index ci \<le> LastCommitIndex page then s1
      else s1\<lparr>pages := fmupd (getPageNumber H n) (page\<lparr>Store := applyTo L p (Store page),
        LastCommitIndex := ci_index ci\<rparr>) (pages s1)\<rparr>)"
  proof (cases "ProposalType p = AddRR")
    case True
    with Some obtain rr where rr: "NewRR L (p_RRString p) = Inr (Some rr)" "n = toLower (hdr_Name rr)"
        "parseRR L (p_RRString p) = Some rr"
      by (auto simp: proposalName_def parseRR_def split: sum.splits option.splits)
    with True assms(3) g show ?thesis
      by (simp add: paged_applyProposal_def paged_insertRR_def applyTo_def Let_def)
  next
    case False
    with Some assms(3,4) g show ?thesis
      by (auto simp: paged_applyProposal_def paged_deleteRRs_def applyTo_def Let_def
          proposalName_def valid_proposal_def)
  qed
  with post show ?thesis by auto
qed

lemma paged_run:
  assumes "paged_ok s" "faults s = []"
    and "list_all2 (\<lambda>ci c. ci_index ci = fst c \<and> gobDecode G (ci_data ci) = Some (snd c)
           \<and> valid_proposal (snd c)) cis cs"
  shows "\<exists>s'. runCommits (paged_applyProposal H L G) cis s = Inr s' \<and> paged_ok s' \<and> faults s' = [] \<and>
     (\<forall>k. pageData s' k = fold (\<lambda>c. pageStep H L c k) cs (pageData s k))"
  using assms(3,1,2)
proof (induction cis cs arbitrary: s rule: list_all2_induct)
  case (Cons ci cis c cs)
  from paged_apply [OF Cons.prems, of G ci "snd c" H L] Cons.hyps(1)
  obtain s1 where s1: "paged_applyProposal H L G ci s = Inr s1" "paged_ok s1" "faults s1 = []"
      "pageData s1 = (\<lambda>k. pageStep H L c k (pageData s k))" by auto
  from Cons.IH [OF s1(2,3)] s1(1,4) show ?case by simp
qed simp


section \<open>Snapshots and restarts\<close>

lemma relinkPages_ok:
  assumes "distinct ks" "set ks \<subseteq> fset (fmdom (pages s))" "lru_inv (set ks) s"
  shows "\<exists>s'. relinkPages ks s = Inr s' \<and> lru_inv {} s' \<and> pageData s' = pageData s \<and>
     faults s' = faults s \<and> length (lruList s') = length (lruList s) + length ks"
  using assms
proof (induction ks arbitrary: s)
  case (Cons k ks)
  then have k: "k |\<in>| fmdom (pages s)" by simp
  note pb = pushBack_keeps [OF k]
  have "set (k # ks) - {k} = set ks" using Cons.prems(1) by auto
  with pushBack_inv_gen [OF Cons.prems(3) k] have "lru_inv (set ks) (pushBackPage k s)" by simp
  with Cons.IH [of "pushBackPage k s"] Cons.prems k show ?case
    by (auto simp: pb elim!: fmdomE)
qed simp

text \<open>A map whose values come back changed by \<open>g\<close>.\<close>

lemma unmarshalMap_fmmap:
  assumes "\<And>k v. fmlookup m k = Some v \<Longrightarrow> kp (kf k) = Some k \<and> vp (vf v) = Some (g v)"
  shows "unmarshalMap kp vp (marshalMap kf vf m) = Some (fmmap g m)"
proof -
  have *: "unmarshalMembers kp vp (map (\<lambda>(k, v). (kf k, vf v)) l) (fmmap g a)
        = Some (fmmap g (fold (\<lambda>(k, v). fmupd k v) l a))"
    if "\<forall>(k, v) \<in> set l. kp (kf k) = Some k \<and> vp (vf v) = Some (g v)" for l a
    using that
  proof (induction l arbitrary: a)
    case (Cons x l)
    have "fmupd (fst x) (g (snd x)) (fmmap g a) = fmmap g (fmupd (fst x) (snd x) a)"
      by (intro fmap_ext) simp
    with Cons show ?case by (auto simp: split_beta)
  qed simp
  have "unmarshalMembers kp vp
      (map (\<lambda>(k, v). (kf k, vf v)) (sort_key (kf \<circ> fst) (sorted_list_of_fmap m))) (fmmap g fmempty)
      = Some (fmmap g m)"
    using assms by (subst *) (auto simp: mem_sorted_list_of_fmap fold_fmupd_sort_key)
  then show ?thesis by (simp add: unmarshalMap_def marshalMap_def)
qed

lemma unmarshalSnapshot_paged:
  "Option.bind (parseJson (paged_getSnapshot s)) unmarshalSnapshot
   = Some (fmmap (\<lambda>page. page\<lparr>lruElement := None\<rparr>) (pages s), map snd (lruList s))"
proof -
  have keys: "toLower ''Pages'' = ''pages''" "toLower ''LRUList'' = ''lrulist''"
    by (simp_all add: toLower_def toLowerChar_def char_of_code)
  have "unmarshalMap parseUint unmarshalPage (marshalMap (decimal \<circ> unat) marshalPage (pages s))
      = Some (fmmap (\<lambda>page. page\<lparr>lruElement := None\<rparr>) (pages s))"
    by (rule unmarshalMap_fmmap) (simp add: unmarshalPage_marshalPage)
  moreover have "unmarshalList unmarshalUint (marshalList marshalUint (map snd (lruList s)))
      = Some (map snd (lruList s))"
    by (rule unmarshalList_marshalList) simp
  moreover have "okJson (marshalMap (decimal \<circ> unat) marshalPage (pages s))"
    "okJson (marshalList marshalUint (map snd (lruList s)))"
    by (auto intro: okJson_marshalMap okJson_marshalList)
  ultimately show ?thesis
    by (simp add: paged_getSnapshot_def parseJson_printJson unmarshalSnapshot_def
        unmarshalField_def keys del: printJson.simps)
qed

lemma recover_paged:
  assumes "paged_ok s" "lru_inv {} t"
  shows "\<exists>t'. paged_recoverFromSnapshot (paged_getSnapshot s) t = Inr t' \<and> paged_ok t' \<and>
     faults t' = faults t \<and>
     (\<forall>k. pageData t' k = (if k |\<in>| fmdom (pages s) then pageData s k else diskData (pagedir t) k))"
proof -
  let ?ks = "map snd (lruList s)"
  let ?t = "t\<lparr>pages := fmmap (\<lambda>page. page\<lparr>lruElement := None\<rparr>) (pages s), lruList := []\<rparr>"
  from assms(1) have inv: "lru_inv {} s" and len: "length (lruList s) \<le> PageStoreMaxLen"
    by (simp_all add: paged_ok_def)
  note ps = lru_list_pages [OF inv]
  have "lru_inv (set ?ks) ?t"
    unfolding lru_inv_def ps(2)
    using inv lru_inv_file [OF assms(2)] by (auto simp: fmlookup_dom_iff lru_inv_def)
  then obtain t' where t': "relinkPages ?ks ?t = Inr t'" "lru_inv {} t'" "pageData t' = pageData ?t"
      "faults t' = faults t" "length (lruList t') = length ?ks"
    using relinkPages_ok [OF ps(1), of ?t] ps(2) by auto
  have "pageData t' k = (if k |\<in>| fmdom (pages s) then pageData s k else diskData (pagedir t) k)" for k
    unfolding t'(3) by (auto simp: pageData_def fmlookup_dom_iff split: option.split)
  with t' len show ?thesis
    by (simp add: paged_recoverFromSnapshot_def unmarshalSnapshot_paged paged_ok_def)
qed

lemma paged_run_disk:
  assumes "paged_ok s" "faults s = []"
    and "list_all2 (\<lambda>ci c. ci_index ci = fst c \<and> gobDecode G (ci_data ci) = Some (snd c)
           \<and> valid_proposal (snd c)) cis cs"
    and "runCommits (paged_applyProposal H L G) cis s = Inr s'"
  shows "lru_inv {} s' \<and> (diskData (pagedir s') k = diskData (pagedir s) k \<or>
     (\<exists>pre suf. cs = pre @ suf \<and> diskData (pagedir s') k = fold (\<lambda>c. pageStep H L c k) pre (pageData s k)))"
  using assms(3,1,2,4)
proof (induction cis cs arbitrary: s rule: list_all2_induct)
  case (Cons ci cis c cs)
  from paged_apply [OF Cons.prems(1,2), of G ci "snd c" H L] Cons.hyps(1)
  obtain s1 where s1: "paged_applyProposal H L G ci s = Inr s1" "paged_ok s1" "faults s1 = []"
      "pageData s1 = (\<lambda>k. pageStep H L c k (pageData s k))"
      "\<forall>k. diskData (pagedir s1) k \<in> {diskData (pagedir s) k, pageData s k}" by auto
  with Cons.prems(3) have "runCommits (paged_applyProposal H L G) cis s1 = Inr s'" by simp
  from Cons.IH [OF s1(2,3) this] have IH: "lru_inv {} s'"
      "diskData (pagedir s') k = diskData (pagedir s1) k \<or>
       (\<exists>pre suf. cs = pre @ suf \<and>
          diskData (pagedir s') k = fold (\<lambda>c. pageStep H L c k) pre (pageData s1 k))" by auto
  from IH(2) show ?case
  proof
    assume "diskData (pagedir s') k = diskData (pagedir s1) k"
    with s1(5) have "diskData (pagedir s') k = diskData (pagedir s) k \<or>
        diskData (pagedir s') k = pageData s k" by (metis insert_iff singletonD)
    then show ?thesis using IH(1) by (metis append_Nil fold_simps(1))
  next
    assume "\<exists>pre suf. cs = pre @ suf \<and>
        diskData (pagedir s') k = fold (\<lambda>c. pageStep H L c k) pre (pageData s1 k)"
    then obtain pre suf where "c # cs = (c # pre) @ suf"
        "diskData (pagedir s') k = fold (\<lambda>c. pageStep H L c k) (c # pre) (pageData s k)"
      using s1(4) by auto
    then show ?thesis using IH(1) by blast
  qed
qed (simp add: paged_ok_def)

text \<open>Replaying commits a version has seen does nothing to it.\<close>

lemma pageStep_mono: "fst v \<le> fst (pageStep H L c k v)"
  by (auto simp: pageStep_def)

lemma fold_pageStep_mono: "fst v \<le> fst (fold (\<lambda>c. pageStep H L c k) cs v)"
proof (induction cs arbitrary: v)
  case (Cons c cs)
  have "fst v \<le> fst (pageStep H L c k v)" by (rule pageStep_mono)
  also have "\<dots> \<le> fst (fold (\<lambda>c. pageStep H L c k) cs (pageStep H L c k v))" by (rule Cons)
  finally show ?case by simp
qed simp

lemma pageStep_seen: "c \<in> set cs \<Longrightarrow>
    pageStep H L c k (fold (\<lambda>c. pageStep H L c k) cs v) = fold (\<lambda>c. pageStep H L c k) cs v"
proof (induction cs arbitrary: v)
  case (Cons d cs)
  show ?case
  proof (cases "c = d")
    case True
    have "pageStep H L c k (fold (\<lambda>c. pageStep H L c k) cs w) = fold (\<lambda>c. pageStep H L c k) cs w"
      if "pageStep H L c k u = w" for u w
    proof -
      let ?z = "fold (\<lambda>c. pageStep H L c k) cs w"
      have "\<not> (map_option (getPageNumber H) (proposalName L (snd c)) = Some k \<and> fst w < fst c)"
        using that by (auto simp: pageStep_def split: if_splits)
      moreover have "fst w \<le> fst ?z" by (rule fold_pageStep_mono)
      ultimately have "\<not> (map_option (getPageNumber H) (proposalName L (snd c)) = Some k \<and> fst ?z < fst c)"
        by auto
      then show ?thesis unfolding pageStep_def by (rule if_not_P)
    qed
    with True show ?thesis by simp
  next
    case False
    with Cons show ?thesis by simp
  qed
qed simp

lemma replay_seen:
  "fold (\<lambda>c. pageStep H L c k) (pre @ suf) (fold (\<lambda>c. pageStep H L c k) pre v)
   = fold (\<lambda>c. pageStep H L c k) (pre @ suf) v"
proof -
  let ?w = "fold (\<lambda>c. pageStep H L c k) pre v"
  have "set cs \<subseteq> set pre \<Longrightarrow> fold (\<lambda>c. pageStep H L c k) cs ?w = ?w" for cs
    by (induction cs) (simp_all add: pageStep_seen)
  then show ?thesis by simp
qed


section \<open>The paged store against the flat one\<close>

lemma applyTo_local:
  "fmlookup m n = fmlookup m' n \<Longrightarrow> fmlookup (applyTo L p m) n = fmlookup (applyTo L p m') n"
  by (cases "fmlookup m' n")
    (auto simp: applyTo_def storeInsert_def storeDelete_def Let_def split: option.splits)

lemma applyTo_other:
  "proposalName L p \<noteq> Some n \<Longrightarrow> fmlookup (applyTo L p m) n = fmlookup m n"
  by (auto simp: applyTo_def proposalName_def storeInsert_def storeDelete_def Let_def
      split: option.splits if_splits)

text \<open>Commits in index order, as they come from the log, applied from version \<open>i\<close> on.\<close>

fun commitsAfter :: "64 word \<Rightarrow> (64 word \<times> dnsProposal) list \<Rightarrow> bool" where
  "commitsAfter i [] = True"
| "commitsAfter i (c # cs) = (i < fst c \<and> commitsAfter (fst c) cs)"

lemma pageSteps_names:
  assumes "commitsAfter i cs" "\<forall>k. fst (v k) \<le> i"
    and "\<forall>n. fmlookup (snd (v (getPageNumber H n))) n = fmlookup m n"
  shows "fmlookup (snd (fold (\<lambda>c. pageStep H L c (getPageNumber H n)) cs (v (getPageNumber H n)))) n
         = fmlookup (fold (\<lambda>c. applyTo L (snd c)) cs m) n"
  using assms
proof (induction cs arbitrary: i v m)
  case (Cons c cs)
  let ?v = "\<lambda>k. pageStep H L c k (v k)"
  have lt: "fst (v k) < fst c" for k
    using Cons.prems(1) spec [OF Cons.prems(2), of k] by (auto intro: le_less_trans)
  have "fst (?v k) \<le> fst c" for k using lt [of k] by (auto simp: pageStep_def)
  moreover have "fmlookup (snd (?v (getPageNumber H n))) n = fmlookup (applyTo L (snd c) m) n" for n
  proof (cases "proposalName L (snd c) = Some n")
    case True
    with lt [of "getPageNumber H n"]
    have "?v (getPageNumber H n) = (fst c, applyTo L (snd c) (snd (v (getPageNumber H n))))"
      by (simp add: pageStep_def)
    with applyTo_local [OF spec [OF Cons.prems(3), of n]] show ?thesis by simp
  next
    case False
    from spec [OF Cons.prems(3), of n] show ?thesis
      by (simp add: pageStep_def applyTo_other [OF False])
  qed
  ultimately have "fmlookup (snd (fold (\<lambda>c. pageStep H L c (getPageNumber H n)) cs
        (?v (getPageNumber H n)))) n
      = fmlookup (fold (\<lambda>c. applyTo L (snd c)) cs (applyTo L (snd c) m)) n"
    using Cons.prems(1) by (intro Cons.IH [of "fst c" ?v]) auto
  then show ?case by simp
qed simp

text \<open>Commits paired with the proposals they encode.\<close>

definition encodes :: "gob_lib \<Rightarrow> commitInfo list \<Rightarrow> dnsProposal list \<Rightarrow> bool" where
  "encodes G cis ps \<longleftrightarrow> map ci_data cis = map (gobEncode G) ps \<and> (\<forall>p \<in> set ps. valid_proposal p)"

lemma encodes_all2:
  assumes "gob_ok G" "encodes G cis ps"
  shows "list_all2 (\<lambda>ci c. ci_index ci = fst c \<and> gobDecode G (ci_data ci) = Some (snd c)
           \<and> valid_proposal (snd c)) cis (zip (map ci_index cis) ps)"
proof -
  have len: "length cis = length ps" using assms(2) unfolding encodes_def by (metis length_map)
  have "ci_data (cis ! i) = gobEncode G (ps ! i)" if "i < length ps" for i
    using assms(2) len that unfolding encodes_def by (metis nth_map)
  with assms len show ?thesis by (simp add: list_all2_conv_all_nth encodes_def gob_ok_def)
qed

section \<open>Properties\<close>

text \<open>
  C5. Paging is transparent: for commits in index order, a new paged store whose file operations
  succeed holds, over its pages in memory and in files, exactly the record map of the in-memory
  store that applied the same commits.
\<close>

theorem paged_refines_flat:
  assumes "gob_ok G" and "encodes G cis ps" and "commitsAfter 0 (zip (map ci_index cis) ps)"
  shows "\<exists>s t. runCommits (paged_applyProposal H L G) cis (emptyPagedDNSStore fmempty [] cl i) = Inr s \<and>
           runCommits (applyProposal L G) cis (emptyDNSStore cl i) = Inr t \<and>
           pagedNames H s = store t"
proof -
  let ?e = "emptyPagedDNSStore fmempty [] cl i" and ?cs = "zip (map ci_index cis) ps"
  have len: "length cis = length ps" using assms(2) unfolding encodes_def by (metis length_map)
  have e: "faults ?e = []" "pageData ?e k = (0, fmempty)" for k
    by (simp_all add: emptyPagedDNSStore_def pageData_def diskData_def)
  from paged_run [OF emptyPaged_ok e(1) encodes_all2 [OF assms(1,2)], of H L]
  obtain s where s: "runCommits (paged_applyProposal H L G) cis ?e = Inr s"
      "\<forall>k. pageData s k = fold (\<lambda>c. pageStep H L c k) ?cs (pageData ?e k)" by blast
  have "fold (\<lambda>c. applyTo L (snd c)) ?cs m = fold (applyTo L) ps m" for m
    using len fold_map [of "applyTo L" snd ?cs] by (simp add: comp_def)
  moreover have "fmlookup (pagedNames H s) n = fmlookup (fold (\<lambda>c. applyTo L (snd c)) ?cs fmempty) n" for n
    using pageSteps_names [OF assms(3), of "\<lambda>k. pageData ?e k" H fmempty L n] s(2) e(2)
    by (simp add: pagedNames_lookup)
  ultimately have "pagedNames H s = fold (applyTo L) ps fmempty" by (intro fmap_ext) simp
  moreover have "runCommits (applyProposal L G) cis (emptyDNSStore cl i)
      = Inr ((emptyDNSStore cl i)\<lparr>store := fold (applyTo L) ps fmempty\<rparr>)"
    using runCommits_log [OF assms(1), of cis ps L "emptyDNSStore cl i"] assms(2)
    by (simp add: encodes_def emptyDNSStore_def)
  ultimately show ?thesis using s(1) by simp
qed

lemma paged_refines_flat_witness:
  "\<exists>s t. runCommits (paged_applyProposal sampleHash sampleLib sampleGob)
        [\<lparr>ci_index = 1, ci_data = gobEncode sampleGob (addProposal ''a. 60 1 10.0.0.1'')\<rparr>,
         \<lparr>ci_index = 4, ci_data = gobEncode sampleGob (deleteProposal ''b.'' TypeA)\<rparr>]
        (emptyPagedDNSStore fmempty [] [] 1) = Inr s \<and>
      runCommits (applyProposal sampleLib sampleGob)
        [\<lparr>ci_index = 1, ci_data = gobEncode sampleGob (addProposal ''a. 60 1 10.0.0.1'')\<rparr>,
         \<lparr>ci_index = 4, ci_data = gobEncode sampleGob (deleteProposal ''b.'' TypeA)\<rparr>]
        (emptyDNSStore [] 1) = Inr t \<and>
      pagedNames sampleHash s = store t"
  by (rule paged_refines_flat [OF sampleGob_ok,
        of _ "[addProposal ''a. 60 1 10.0.0.1'', deleteProposal ''b.'' TypeA]"])
    (simp_all add: encodes_def valid_proposal_def addProposal_def deleteProposal_def)

text \<open>A page of a store recovered after a crash is as it was after some first commits since the snapshot.\<close>

lemma recovered_versions:
  assumes "gob_ok G" and "paged_ok s0" "faults s0 = []" and "encodes G cis ps"
    and "runCommits (paged_applyProposal H L G) cis s0 = Inr s1"
  shows "\<exists>t. paged_recoverFromSnapshot (paged_getSnapshot s0) (emptyPagedDNSStore (pagedir s1) [] cl i) = Inr t \<and>
     paged_ok t \<and> faults t = [] \<and>
     (\<forall>k. \<exists>pre suf. zip (map ci_index cis) ps = pre @ suf \<and>
        pageData t k = fold (\<lambda>c. pageStep H L c k) pre (pageData s0 k))"
proof -
  let ?cs = "zip (map ci_index cis) ps" and ?e = "emptyPagedDNSStore (pagedir s1) [] cl i"
  note all2 = encodes_all2 [OF assms(1,4)]
  have disk: "diskData (pagedir s1) k = diskData (pagedir s0) k \<or>
     (\<exists>pre suf. ?cs = pre @ suf \<and> diskData (pagedir s1) k = fold (\<lambda>c. pageStep H L c k) pre (pageData s0 k))"
    and inv: "lru_inv {} s1" for k
    using paged_run_disk [OF assms(2,3) all2 assms(5)] by blast+
  have "lru_inv {} ?e"
    using lru_inv_file [OF inv] by (auto simp: lru_inv_def emptyPagedDNSStore_def)
  from recover_paged [OF assms(2) this] obtain t where t:
      "paged_recoverFromSnapshot (paged_getSnapshot s0) ?e = Inr t" "paged_ok t" "faults t = []"
      "\<forall>k. pageData t k = (if k |\<in>| fmdom (pages s0) then pageData s0 k else diskData (pagedir s1) k)"
    by (auto simp: emptyPagedDNSStore_def)
  have "\<exists>pre suf. ?cs = pre @ suf \<and> pageData t k = fold (\<lambda>c. pageStep H L c k) pre (pageData s0 k)" for k
  proof (cases "k |\<in>| fmdom (pages s0)")
    case False
    then have "pageData s0 k = diskData (pagedir s0) k" by (simp add: pageData_def fmdom_notD)
    with disk [of k] t(4) False show ?thesis by (metis append_Nil fold_simps(1))
  qed (use t(4) in \<open>auto intro: exI [of _ "[]"]\<close>)
  with t(1-3) show ?thesis by blast
qed



text \<open>
  C33. A snapshot holds the pages in memory only: a new machine that recovers from it knows the
  names of the pages the snapshotting node had in memory, and none of the others, which were in
  that node's page files. (The comment in the code calls these files stable storage; they are not
  part of what a follower is sent.)
\<close>

theorem snapshot_holds_memory_only:
  assumes "paged_ok s"
  shows "\<exists>t. paged_recoverFromSnapshot (paged_getSnapshot s) (emptyPagedDNSStore fmempty [] cl i) = Inr t \<and>
     (\<forall>n. fmlookup (pagedNames H t) n
        = (if getPageNumber H n |\<in>| fmdom (pages s) then fmlookup (pagedNames H s) n else None))"
proof -
  have "lru_inv {} (emptyPagedDNSStore fmempty [] cl i)"
    using emptyPaged_ok by (simp add: paged_ok_def)
  moreover have "diskData (pagedir (emptyPagedDNSStore fmempty [] cl i)) k = (0, fmempty)" for k
    by (simp add: emptyPagedDNSStore_def diskData_def)
  ultimately show ?thesis
    using recover_paged [OF assms, of "emptyPagedDNSStore fmempty [] cl i"]
    by (auto simp: pagedNames_lookup)
qed

lemma snapshot_holds_memory_only_witness:
  "\<exists>t. paged_recoverFromSnapshot (paged_getSnapshot (emptyPagedDNSStore fmempty [] [] 1))
         (emptyPagedDNSStore fmempty [] [] 2) = Inr t \<and>
     fmlookup (pagedNames sampleHash t) ''a.'' = None"
  using snapshot_holds_memory_only [OF emptyPaged_ok, where cl = "[]" and i = 2 and H = sampleHash]
  by (force simp: emptyPagedDNSStore_def)

text \<open>A store whose memory is full of new pages, numbered from 0, for the examples.\<close>

lemma unat_small: "n < 100 \<Longrightarrow> unat (word_of_nat n :: 64 word) = n"
  by (simp add: unsigned_of_nat take_bit_nat_eq_self)

definition fullStore :: "bool list \<Rightarrow> pagedDNSStore" where
  "fullStore fs = (emptyPagedDNSStore fmempty fs [] 1)
     \<lparr>pages := fmap_of_list (map (\<lambda>i. (word_of_nat i, (newPage (word_of_nat i))
          \<lparr>lruElement := Some i, LastCommitIndex := 7\<rparr>)) [0..<PageStoreMaxLen]),
      lruList := map (\<lambda>i. (i, word_of_nat i)) [0..<PageStoreMaxLen],
      nextElement := PageStoreMaxLen\<rparr>"

lemma fullStore_pages: "fmlookup (pages (fullStore fs)) p =
    (if unat p < PageStoreMaxLen
     then Some ((newPage p)\<lparr>lruElement := Some (unat p), LastCommitIndex := 7\<rparr>) else None)"
proof -
  have "map_of (map (\<lambda>i. (word_of_nat i :: 64 word, f i)) [0..<m]) p
      = (if unat p < m then Some (f (unat p)) else None)" if "m \<le> 100" for f :: "nat \<Rightarrow> PageStore" and m
    using that
  proof (induction m)
    case (Suc m)
    have "word_of_nat m = p \<longleftrightarrow> unat p = m"
      using Suc.prems unat_small [of m] by auto
    with Suc unat_small [of m] show ?case by (auto simp: map_add_def split: option.splits)
  qed simp
  then show ?thesis
    by (simp add: fullStore_def fmlookup_of_list PageStoreMaxLen_def)
qed

lemma fullStore_ok: "paged_ok (fullStore fs)"
proof -
  have el: "(e, p) \<in> set (lruList (fullStore fs)) \<longleftrightarrow> unat p < PageStoreMaxLen \<and> e = unat p" for e p
    by (auto simp: fullStore_def PageStoreMaxLen_def image_iff unat_small)
  have "distinct (map fst (lruList (fullStore fs)))" "length (lruList (fullStore fs)) = PageStoreMaxLen"
    "\<forall>x \<in> set (lruList (fullStore fs)). fst x < nextElement (fullStore fs)"
    "pagedir (fullStore fs) = fmempty"
    by (auto simp: fullStore_def comp_def emptyPagedDNSStore_def)
  then show ?thesis
    by (auto simp: paged_ok_def lru_inv_def el fullStore_pages newPage_def split: if_splits)
qed

lemma broughtIn_faults:
  "fmlookup (pages s) k = None \<Longrightarrow> faults (broughtIn k s) = tl (faults s)"
  by (cases "faults s")
    (auto simp: broughtIn_def readPageIn_def readSerializedPage_def diskOp_def Let_def
      split: option.splits)



end
