(* ===== verification/Paged_Query.thy ===== *)
theory Paged_Query
  imports Paged_Commits Dns_Query
begin

text \<open>
  Queries on the paged store, \<open>dns/paged_dns.go\<close>: the code of \<open>Dns_Query\<close> over a lookup that may
  load and evict pages. Without file failures it satisfies the contract \<open>name_finder\<close>, so it
  answers like the in-memory store and keeps every record.
\<close>

section \<open>The methods of the paged store that have the text of the in-memory store's\<close>

definition paged_whisperAddCacheRecord :: "dns_lib \<Rightarrow> env \<Rightarrow> dnsRR \<Rightarrow> pagedDNSStore \<Rightarrow> pagedDNSStore" where
  "paged_whisperAddCacheRecord = whisperAddCacheRecord"

definition paged_addCacheRecord :: "dns_lib \<Rightarrow> env \<Rightarrow> dnsRR \<Rightarrow> bool \<Rightarrow> pagedDNSStore \<Rightarrow> pagedDNSStore" where
  "paged_addCacheRecord = addCacheRecord"

definition paged_addCacheRecords :: "dns_lib \<Rightarrow> env \<Rightarrow> dnsRR list \<Rightarrow> pagedDNSStore \<Rightarrow> pagedDNSStore" where
  "paged_addCacheRecords = addCacheRecords"

definition paged_getCacheRecords ::
    "dns_lib \<Rightarrow> env \<Rightarrow> string \<Rightarrow> rrType \<Rightarrow> pagedDNSStore \<Rightarrow> dnsRR list \<times> pagedDNSStore" where
  "paged_getCacheRecords = getCacheRecords"

definition paged_getGlueRecords ::
    "(string \<Rightarrow> 64 word) \<Rightarrow> dns_lib \<Rightarrow> string \<Rightarrow> pagedDNSStore \<Rightarrow> dnsRR list \<times> pagedDNSStore" where
  "paged_getGlueRecords H = getGlueRecords (paged_lookupNameMap H)"

definition paged_ProposeAddRR :: "gob_lib \<Rightarrow> string \<Rightarrow> pagedDNSStore \<Rightarrow> pagedDNSStore" where
  "paged_ProposeAddRR = ProposeAddRR"

definition paged_ProposeDeleteRRs :: "gob_lib \<Rightarrow> string \<Rightarrow> rrType \<Rightarrow> pagedDNSStore \<Rightarrow> pagedDNSStore" where
  "paged_ProposeDeleteRRs = ProposeDeleteRRs"

definition paged_readCommits ::
    "(string \<Rightarrow> 64 word) \<Rightarrow> dns_lib \<Rightarrow> gob_lib \<Rightarrow> load_result \<Rightarrow> bool \<Rightarrow> commit_event list \<Rightarrow> pagedDNSStore
       \<Rightarrow> (loop_status \<times> commit_event list \<times> pagedDNSStore) go" where
  "paged_readCommits H L G = readCommits (paged_applyProposal H L G) paged_recoverFromSnapshot"

section \<open>Resolution\<close>

definition PagedHandleRecursiveQuery ::
    "dns_lib \<Rightarrow> env \<Rightarrow> (dnsMsg \<Rightarrow> dnsMsg option) \<Rightarrow> dnsMsg \<Rightarrow> dnsMsg \<Rightarrow> pagedDNSStore
       \<Rightarrow> dnsMsg \<times> pagedDNSStore" where
  "PagedHandleRecursiveQuery = HandleRecursiveQuery"

definition PagedHandleSingleQuestion ::
    "(string \<Rightarrow> 64 word) \<Rightarrow> dns_lib \<Rightarrow> env \<Rightarrow> string \<Rightarrow> rrType \<Rightarrow> dnsMsg \<Rightarrow> pagedDNSStore
       \<Rightarrow> (bool \<times> dnsMsg \<times> pagedDNSStore) option" where
  "PagedHandleSingleQuestion H = HandleQuestion (paged_lookupNameMap H)"

definition PagedProcessDNSQuery ::
    "(string \<Rightarrow> 64 word) \<Rightarrow> dns_lib \<Rightarrow> env \<Rightarrow> (dnsMsg \<Rightarrow> dnsMsg) \<Rightarrow> (dnsMsg \<Rightarrow> dnsMsg option)
       \<Rightarrow> dnsMsg \<Rightarrow> pagedDNSStore \<Rightarrow> (dnsMsg \<times> pagedDNSStore) option" where
  "PagedProcessDNSQuery H = ProcessQuery (paged_lookupNameMap H)"

definition paged_ready :: "pagedDNSStore \<Rightarrow> bool" where
  "paged_ready s \<longleftrightarrow> paged_ok s \<and> faults s = []"

lemma paged_lookup_laws:
  assumes "paged_ready s"
  shows "fst (paged_lookupNameMap H n s) = fmlookup (pagedNames H s) n"
    "pageMove s (snd (paged_lookupNameMap H n s))"
proof -
  from assms have ok: "paged_ok s" "faults s = []" by (simp_all add: paged_ready_def)
  obtain page s1 where g: "getPage H n s = (Some page, s1)"
      "fmlookup (pages s1) (getPageNumber H n) = Some page"
    using getPage_ok(1) [OF ok(1), of H n] by (metis snd_conv)
  have mv: "pageMove s s1" using getPage_ok(2) [OF ok(1), of H n] g by simp
  with g show "pageMove s (snd (paged_lookupNameMap H n s))" by (simp add: paged_lookupNameMap_def)
  have "snd (pageData s (getPageNumber H n)) = Store page"
    unfolding pageMove_D(3) [OF mv ok(2), symmetric] using g(2) by (simp add: pageData_def)
  with g show "fst (paged_lookupNameMap H n s) = fmlookup (pagedNames H s) n"
    by (simp add: paged_lookupNameMap_def pagedNames_lookup)
qed

interpretation pf: name_finder "paged_lookupNameMap H" "pagedNames H" paged_ready for H
proof unfold_locales
  fix s :: pagedDNSStore and n c w
  assume ok: "paged_ready s"
  then have f: "faults s = []" by (simp add: paged_ready_def)
  note mv = pageMove_D [OF paged_lookup_laws(2) [OF ok] f]
  show "fst (paged_lookupNameMap H n s) = fmlookup (pagedNames H s) n"
    by (rule paged_lookup_laws(1) [OF ok])
  show "paged_ready (snd (paged_lookupNameMap H n s))"
    using mv(1,2) by (simp add: paged_ready_def)
  show "pagedNames H (snd (paged_lookupNameMap H n s)) = pagedNames H s"
    by (rule pagedNames_cong [OF mv(3)])
  show "store_base.truncate (snd (paged_lookupNameMap H n s)) = store_base.truncate s"
    by (rule mv(4))
  show "paged_ready (s\<lparr>cache := c, whispered := w\<rparr>)"
    using ok by (simp add: paged_ready_def paged_ok_def lru_inv_def)
next
  fix s :: pagedDNSStore and c w
  show "pagedNames H (s\<lparr>cache := c, whispered := w\<rparr>) = pagedNames H s"
    by (rule pagedNames_cong, rule pageData_pages) simp_all
qed

text \<open>
  Glue records are what the record map gives, and looking for them keeps the store ready; the cache
  methods work on the base record as the in-memory store's do.
\<close>

lemma paged_glue:
  assumes "paged_ready s"
  shows "fst (paged_getGlueRecords H L n s) = refGlue L (pagedNames H s) n"
    "paged_ready (snd (paged_getGlueRecords H L n s))"
    "pagedNames H (snd (paged_getGlueRecords H L n s)) = pagedNames H s"
  using pf.glue_ref [OF assms, of H L n] by (simp_all add: paged_getGlueRecords_def)

lemma paged_recursive_base:
  "PagedHandleRecursiveQuery L E exchange req r s = (res, s') \<Longrightarrow>
     HandleRecursiveQuery L E exchange req r (store_base.truncate s) = (res, store_base.truncate s')"
  by (simp add: PagedHandleRecursiveQuery_def recursive_base)

section \<open>Properties\<close>



end
