(* ===== verification/Http_Server.thy ===== *)
theory Http_Server
  imports Http_Api Paged_Query
begin

text \<open>
  Which handler answers which path: the routers \<open>serveHTTPAPI\<close> of \<open>dns/httpapi.go\<close> and
  \<open>PagedServeHTTPAPI\<close> of \<open>dns/paged_httpapi.go\<close>. The router library (\<open>gorilla/mux\<close>) is a
  parameter: given the registered patterns and a path it returns the pattern that matches and the
  value of its variable. Beside the store a server keeps the slice \<open>domainNames\<close> of its closure
  and what it has sent on \<open>confChangeC\<close>.
\<close>

section \<open>Routing\<close>

type_synonym mux = "string list \<Rightarrow> string \<Rightarrow> (string \<times> string) option"

text \<open>
  Documented behaviour: a pattern that matches was registered, and the part before its variable
  is a prefix of the path (all of it, if the pattern has no variable); a path that is registered
  as it is matches itself, if no other registered pattern could.
\<close>

definition literalPart :: "string \<Rightarrow> string" where
  "literalPart p = takeWhile (\<lambda>c. c \<noteq> CHR 0x7B) p"

definition couldMatch :: "string \<Rightarrow> string \<Rightarrow> bool" where
  "couldMatch p path \<longleftrightarrow>
     (if CHR 0x7B \<in> set p then take (length (literalPart p)) path = literalPart p else p = path)"

definition mux_ok :: "mux \<Rightarrow> bool" where
  "mux_ok M \<longleftrightarrow>
     (\<forall>ps path p v. M ps path = Some (p, v) \<longrightarrow> p \<in> set ps \<and> couldMatch p path) \<and>
     (\<forall>ps path. path \<in> set ps \<and> CHR 0x7B \<notin> set path \<and> (\<forall>q \<in> set ps. couldMatch q path \<longrightarrow> q = path)
        \<longrightarrow> M ps path = Some (path, []))"

lemma mux_hit:
  assumes "mux_ok M" "path \<in> set ps" "CHR 0x7B \<notin> set path"
    and "list_all (\<lambda>q. couldMatch q path \<longrightarrow> q = path) ps"
  shows "M ps path = Some (path, [])"
  using assms unfolding mux_ok_def list_all_iff by blast

lemma mux_miss:
  assumes "mux_ok M" "list_all (\<lambda>q. \<not> couldMatch q path) ps"
  shows "M ps path = None"
proof (cases "M ps path")
  case (Some x)
  then obtain p v where "M ps path = Some (p, v)" by (cases x) simp
  with assms(1) have "p \<in> set ps" "couldMatch p path" unfolding mux_ok_def by blast+
  with assms(2) show ?thesis by (auto simp: list_all_iff)
qed simp

section \<open>The two servers\<close>

text \<open>The libraries, the surroundings and the choices a server's handlers depend on.\<close>

record node_env =
  envLib :: dns_lib
  envGob :: gob_lib
  envEnv :: env
  envLocate :: locator
  envRange :: range_env
  envMux :: mux

record 's httpServer =
  srvStore :: 's
  domainNames :: "string list"
  confChangeC :: "ConfChange list"

definition notFound :: http_response where
  "notFound = httpError ''404 page not found'' 404"

definition serveHTTPAPI ::
    "node_env \<Rightarrow> string \<Rightarrow> http_request \<Rightarrow> dnsStore httpServer \<Rightarrow> (http_response \<times> dnsStore httpServer) go" where
  "serveHTTPAPI N path r sv =
     (case envMux N [''/add'', ''/delete'', ''/addcache'', ''/addcluster'', ''/getrecord'', ''/member/{nodeID}'']
             path of
        None \<Rightarrow> Inr (notFound, sv)
      | Some (pattern, nodeID) \<Rightarrow>
          if pattern = ''/add'' then
            (let (w, s) = handleAdd (envLib N) (envGob N) r (srvStore sv) in Inr (w, sv\<lparr>srvStore := s\<rparr>))
          else if pattern = ''/delete'' then
            (let (w, s) = handleDelete (envGob N) r (srvStore sv) in Inr (w, sv\<lparr>srvStore := s\<rparr>))
          else if pattern = ''/addcache'' then
            (let (w, s) = handleAddCache (envLib N) (envEnv N) r (srvStore sv)
             in Inr (w, sv\<lparr>srvStore := s\<rparr>))
          else if pattern = ''/addcluster'' then
            go_bind (handleAddCluster r (srvStore sv)) (\<lambda>(w, s). Inr (w, sv\<lparr>srvStore := s\<rparr>))
          else if pattern = ''/getrecord'' then
            go_bind (handleGetRecord (envLocate N) (envRange N) r (domainNames sv) (srvStore sv))
              (\<lambda>(w, names). Inr (w, sv\<lparr>domainNames := names\<rparr>))
          else
            (let (w, ccs) = handleMember r nodeID
             in Inr (w, sv\<lparr>confChangeC := confChangeC sv @ ccs\<rparr>)))"

definition PagedServeHTTPAPI ::
    "node_env \<Rightarrow> string \<Rightarrow> http_request \<Rightarrow> pagedDNSStore httpServer
       \<Rightarrow> (http_response \<times> pagedDNSStore httpServer) go" where
  "PagedServeHTTPAPI N path r sv =
     (case envMux N [''/add'', ''/delete'', ''/addcache'', ''/member/{nodeID}''] path of
        None \<Rightarrow> Inr (notFound, sv)
      | Some (pattern, nodeID) \<Rightarrow>
          if pattern = ''/add'' then
            (let (w, s) = handleAdd (envLib N) (envGob N) r (srvStore sv) in Inr (w, sv\<lparr>srvStore := s\<rparr>))
          else if pattern = ''/delete'' then
            (let (w, s) = handleDelete (envGob N) r (srvStore sv) in Inr (w, sv\<lparr>srvStore := s\<rparr>))
          else if pattern = ''/addcache'' then
            (let (w, s) = handleAddCache (envLib N) (envEnv N) r (srvStore sv)
             in Inr (w, sv\<lparr>srvStore := s\<rparr>))
          else
            (let (w, ccs) = handleMember r nodeID
             in Inr (w, sv\<lparr>confChangeC := confChangeC sv @ ccs\<rparr>)))"

section \<open>Lemmas\<close>

lemmas couldMatch_defs = couldMatch_def literalPart_def

lemma serveHTTPAPI_add:
  "mux_ok (envMux N) \<Longrightarrow> serveHTTPAPI N ''/add'' r sv =
     Inr (fst (handleAdd (envLib N) (envGob N) r (srvStore sv)),
          sv\<lparr>srvStore := snd (handleAdd (envLib N) (envGob N) r (srvStore sv))\<rparr>)"
  unfolding serveHTTPAPI_def by (subst mux_hit) (simp_all add: couldMatch_defs split_beta)

lemma serveHTTPAPI_addcluster:
  "mux_ok (envMux N) \<Longrightarrow> serveHTTPAPI N ''/addcluster'' r sv =
     go_bind (handleAddCluster r (srvStore sv)) (\<lambda>(w, s). Inr (w, sv\<lparr>srvStore := s\<rparr>))"
  unfolding serveHTTPAPI_def by (subst mux_hit) (simp_all add: couldMatch_defs)

lemma serveHTTPAPI_getrecord:
  "mux_ok (envMux N) \<Longrightarrow> serveHTTPAPI N ''/getrecord'' r sv =
     go_bind (handleGetRecord (envLocate N) (envRange N) r (domainNames sv) (srvStore sv))
       (\<lambda>(w, names). Inr (w, sv\<lparr>domainNames := names\<rparr>))"
  unfolding serveHTTPAPI_def by (subst mux_hit) (simp_all add: couldMatch_defs)

text \<open>A paged server has no part in a migration: it knows neither of the two requests.\<close>

lemma PagedServeHTTPAPI_no_migration:
  assumes "mux_ok (envMux N)" "path \<in> {''/addcluster'', ''/getrecord''}"
  shows "PagedServeHTTPAPI N path r sv = Inr (notFound, sv)"
proof -
  have "envMux N [''/add'', ''/delete'', ''/addcache'', ''/member/{nodeID}''] path = None"
    by (rule mux_miss [OF assms(1)]) (use assms(2) in \<open>auto simp: couldMatch_defs\<close>)
  then show ?thesis by (simp add: PagedServeHTTPAPI_def)
qed

text \<open>A router for the examples, which knows no variables.\<close>

definition sampleMux :: mux where
  "sampleMux ps path = (if path \<in> set ps \<and> CHR 0x7B \<notin> set path then Some (path, []) else None)"

lemma sampleMux_ok [simp]: "mux_ok sampleMux"
  by (simp add: mux_ok_def sampleMux_def couldMatch_def)

end
