(* ===== verification/Hash_Server.thy ===== *)
theory Hash_Server
  imports Http_Server
begin

text \<open>
  The hash server, \<open>dns/hash_server/hash_server.go\<close>: its configuration (clusters of name servers)
  and its HTTP interface, which forwards writes to a member of the responsible cluster and lets a
  migration switch writes off and on. Queries are in \<open>Hash_Query\<close>.

  The cluster members are shared through pointers and have a mutable field \<open>aliveSince\<close>; here a
  member carries the number of its cell and the cells are a function in the store. Requests to
  other machines go through an \<open>http_client\<close>, a function on the state \<open>'w\<close> of the other machines.
\<close>

section \<open>Cluster tokens\<close>

datatype clusterToken = clusterToken (String: string)

instantiation clusterToken :: linorder
begin

definition less_eq_clusterToken :: "clusterToken \<Rightarrow> clusterToken \<Rightarrow> bool" where
  "less_eq_clusterToken a b \<longleftrightarrow> String a \<le> String b"

definition less_clusterToken :: "clusterToken \<Rightarrow> clusterToken \<Rightarrow> bool" where
  "less_clusterToken a b \<longleftrightarrow> String a < String b"

instance
  by standard (auto simp: less_eq_clusterToken_def less_clusterToken_def clusterToken.expand)

end

section \<open>State\<close>

record nsInfo =
  nsName :: string
  glueRecord :: dnsRR
  nsCell :: nat

record clusterInfo =
  token :: clusterToken
  members :: "nsInfo list"

type_synonym clusterMap = "(clusterToken, clusterInfo) fmap"

text \<open>
  The cache (\<open>lru.ARCCache\<close>) is not under \<open>src/\<close>; what determines its answers is the history of
  calls on it. Its values are maps, so pointers: numbers of maps that the store keeps.
  \<open>configFile\<close> is what reading the file named on the command line gives.
\<close>

datatype arc_op = ArcGet string | ArcAdd string nat

record hashServerStore =
  clusters :: clusterMap
  hashLookup :: consistentRing
  writeEnabled :: bool
  aliveSince :: "nat \<Rightarrow> nat"
  nextCell :: nat
  arcHistory :: "arc_op list"
  cacheMaps :: "nat \<Rightarrow> cacheRRTypeMap"
  nextMap :: nat
  configFile :: "string option"

text \<open>The state before the configuration is loaded, as \<open>main\<close> sets it up.\<close>

definition emptyHashServerStore :: "string option \<Rightarrow> hashServerStore" where
  "emptyHashServerStore conf =
     \<lparr>clusters = fmempty, hashLookup = newRing 0 [], writeEnabled = True, aliveSince = (\<lambda>_. 0), nextCell = 0,
      arcHistory = [], cacheMaps = (\<lambda>_. fmempty), nextMap = 0, configFile = conf\<rparr>"

section \<open>Configuration\<close>

text \<open>The address of a member; \<open>None\<close> is the nil \<open>net.IP\<close>, which prints as \<open><nil>\<close>.\<close>

definition getIPFromARecord :: "dnsRR \<Rightarrow> string option" where
  "getIPFromARecord rr = (case rr_data rr of RD_A ip \<Rightarrow> Some ip | _ \<Rightarrow> None)"

definition ipString :: "string option \<Rightarrow> string" where
  "ipString ip = (case ip of None \<Rightarrow> ''<nil>'' | Some s \<Rightarrow> s)"

text \<open>Members whose glue record cannot be read are left out; every other one gets a new cell.\<close>

fun intoMembers :: "dns_lib \<Rightarrow> nat \<Rightarrow> jsonNsInfo list \<Rightarrow> nsInfo list" where
  "intoMembers L cell [] = []"
| "intoMembers L cell (m # ms) = (case parseRR L (GlueRecord m) of
       None \<Rightarrow> intoMembers L cell ms
     | Some rr \<Rightarrow> \<lparr>nsName = NsName m, glueRecord = rr, nsCell = cell\<rparr> # intoMembers L (Suc cell) ms)"

definition intoClusterInfo ::
    "dns_lib \<Rightarrow> nat \<Rightarrow> jsonClusterInfo \<Rightarrow> hashServerStore \<Rightarrow> clusterInfo \<times> hashServerStore" where
  "intoClusterInfo L t c st =
     (let ms = intoMembers L (nextCell st) (Members c)
      in (\<lparr>token = clusterToken (ClusterToken c), members = ms\<rparr>,
          st\<lparr>aliveSince := (\<lambda>k. if nextCell st \<le> k \<and> k < nextCell st + length ms then t else aliveSince st k),
             nextCell := nextCell st + length ms\<rparr>))"

fun intoClusterMap ::
    "dns_lib \<Rightarrow> nat \<Rightarrow> jsonClusterInfo list \<Rightarrow> clusterMap \<Rightarrow> hashServerStore \<Rightarrow> clusterMap \<times> hashServerStore" where
  "intoClusterMap L t [] m st = (m, st)"
| "intoClusterMap L t (c # cs) m st =
     (let (cInfo, st') = intoClusterInfo L t c st
      in intoClusterMap L t cs (fmupd (token cInfo) cInfo m) st')"

text \<open>The error of reading or parsing the file, or nothing.\<close>

definition loadConfig :: "dns_lib \<Rightarrow> nat \<Rightarrow> hashServerStore \<Rightarrow> string option \<times> hashServerStore" where
  "loadConfig L t st = (case configFile st of
       None \<Rightarrow> (Some ''open'', st)
     | Some fileContent \<Rightarrow>
         (case decodeClusters fileContent of
            None \<Rightarrow> (Some ''json'', st)
          | Some jsonClusters \<Rightarrow>
              (let (m, st') = intoClusterMap L t jsonClusters fmempty st
               in (None, st'\<lparr>clusters := m\<rparr>))))"

text \<open>
  \<open>consistent.New\<close> and \<open>Add\<close> for every cluster of the map, in the order \<open>range\<close> visits it.
\<close>

definition ringOf :: "(clusterMap \<Rightarrow> clusterToken list) \<Rightarrow> clusterMap \<Rightarrow> consistentRing" where
  "ringOf rangeClusters m = newRing (fm_len m) (map String (rangeClusters m))"

text \<open>\<open>main\<close> up to the start of the servers.\<close>

definition startHashServer ::
    "dns_lib \<Rightarrow> nat \<Rightarrow> (clusterMap \<Rightarrow> clusterToken list) \<Rightarrow> string option \<Rightarrow> hashServerStore go" where
  "startHashServer L t rangeClusters conf =
     (let (err, st) = loadConfig L t (emptyHashServerStore conf)
      in case err of
           Some e \<Rightarrow> Inl (Fatal e)
         | None \<Rightarrow> Inr (st\<lparr>hashLookup := ringOf rangeClusters (clusters st)\<rparr>))"

section \<open>Requests to other machines\<close>

text \<open>
  \<open>http.NewRequest\<close> fails for a malformed URL; \<open>DefaultClient.Do\<close> with a method, a URL and a body
  gives an error or a response (an error while the response's body is read counts as the
  former; all callers treat the two alike).
\<close>

record 'w http_client =
  validURL :: "string \<Rightarrow> bool"
  clientDo :: "string \<Rightarrow> string \<Rightarrow> string \<Rightarrow> 'w \<Rightarrow> (string + http_response) \<times> 'w"

definition apiURL :: "string \<Rightarrow> string \<Rightarrow> string" where
  "apiURL ip path = ''http://'' @ ip @ '':9121'' @ path"

section \<open>The HTTP interface\<close>

text \<open>The surroundings of the hash server: the clock and the random and map-order choices.\<close>

record hash_env =
  hLib :: dns_lib
  hLocate :: locator
  hNow :: nat
  hRand :: nat
  hRange :: "clusterMap \<Rightarrow> clusterToken list"
  hShuffle :: "nsInfo list \<Rightarrow> nsInfo list"
  hRangeCache :: "cacheRRs \<Rightarrow> string list"
  hMux :: mux

text \<open>\<open>store.clusters[t]\<close>: a missing key reads as a cluster without members.\<close>

definition clusterAt :: "clusterToken \<Rightarrow> hashServerStore \<Rightarrow> clusterInfo" where
  "clusterAt t st = (case fmlookup (clusters st) t of
       None \<Rightarrow> \<lparr>token = clusterToken [], members = []\<rparr> | Some c \<Rightarrow> c)"

definition pickMember :: "hash_env \<Rightarrow> clusterInfo \<Rightarrow> nsInfo go" where
  "pickMember E c =
     (if members c = [] then Inl (Panic ''invalid argument to Intn'')
      else Inr (members c ! (hRand E mod length (members c))))"

text \<open>
  Forwarding: a request that cannot be made is answered 500; the error of the client is not
  looked at, so a failed request panics on the nil response.
\<close>

definition forwardWrite ::
    "'w http_client \<Rightarrow> string \<Rightarrow> nsInfo \<Rightarrow> string \<Rightarrow> 'w \<Rightarrow> (http_response \<times> 'w) go" where
  "forwardWrite C path m body w =
     (let u = apiURL (ipString (getIPFromARecord (glueRecord m))) path
      in if \<not> validURL C u then Inr (httpError (''Cannot forward request '' @ path) StatusInternalServerError, w)
         else (case clientDo C ''PUT'' u body w of
             (Inl err, w') \<Rightarrow> Inl (Panic ''invalid memory address or nil pointer dereference'')
           | (Inr resp, w') \<Rightarrow> Inr (writeHeader (StatusCode resp), w')))"

definition hashHandleAdd ::
    "hash_env \<Rightarrow> 'w http_client \<Rightarrow> http_request \<Rightarrow> hashServerStore \<Rightarrow> 'w \<Rightarrow> (http_response \<times> 'w) go" where
  "hashHandleAdd E C r st w =
     (if \<not> writeEnabled st then Inr (httpError ''Write is disabled'' StatusMethodNotAllowed, w)
      else if Method r \<noteq> ''PUT'' then Inr (badRequest ''Method has to be PUT'', w)
      else case Body r of
          Inl err \<Rightarrow> Inr (badRequest ''Bad PUT body'', w)
        | Inr rrString \<Rightarrow>
            (case parseRR (hLib E) rrString of
               None \<Rightarrow> Inr (badRequest ''Bad RR request'', w)
             | Some rr \<Rightarrow>
                 go_bind (hLocate E (hashLookup st) (hdr_Name rr)) (\<lambda>t.
                 go_bind (pickMember E (clusterAt (clusterToken t) st)) (\<lambda>m.
                   forwardWrite C ''/add'' m rrString w))))"

definition hashHandleDelete ::
    "hash_env \<Rightarrow> 'w http_client \<Rightarrow> http_request \<Rightarrow> hashServerStore \<Rightarrow> 'w \<Rightarrow> (http_response \<times> 'w) go" where
  "hashHandleDelete E C r st w =
     (if \<not> writeEnabled st then Inr (httpError ''Write is disabled'' StatusMethodNotAllowed, w)
      else if Method r \<noteq> ''PUT'' then Inr (badRequest ''Method has to be PUT'', w)
      else case Body r of
          Inl err \<Rightarrow> Inr (badRequest ''Bad PUT body'', w)
        | Inr body \<Rightarrow>
            (case decodeDeletePayload body of
               None \<Rightarrow> Inr (badRequest ''Bad PUT body'', w)
             | Some delReq \<Rightarrow>
                 go_bind (hLocate E (hashLookup st) (payload_Name delReq)) (\<lambda>t.
                 go_bind (pickMember E (clusterAt (clusterToken t) st)) (\<lambda>m.
                   forwardWrite C ''/delete'' m body w))))"

definition hashHandleClusterInfo :: "http_request \<Rightarrow> hashServerStore \<Rightarrow> http_response go" where
  "hashHandleClusterInfo r st =
     (if Method r \<noteq> ''GET'' then Inr (badRequest ''Method has to be PUT'')
      else case configFile st of
          None \<Rightarrow> Inl (Fatal ''open'')
        | Some fileContent \<Rightarrow> Inr (writeString fileContent))"

definition hashHandleAddCluster ::
    "hash_env \<Rightarrow> http_request \<Rightarrow> hashServerStore \<Rightarrow> (http_response \<times> hashServerStore) go" where
  "hashHandleAddCluster E r st =
     (if \<not> writeEnabled st then Inr (httpError ''Write is disabled'' StatusMethodNotAllowed, st)
      else if Method r \<noteq> ''PUT'' then Inr (badRequest ''Method has to be PUT'', st)
      else case Body r of
          Inl err \<Rightarrow> Inr (badRequest ''Bad PUT body'', st)
        | Inr body \<Rightarrow>
            (case decodeClusters body of
               None \<Rightarrow> Inl (Fatal ''json'')
             | Some jsonClusters \<Rightarrow>
                 (let (m, st1) = intoClusterMap (hLib E) (hNow E) jsonClusters fmempty st
                  in Inr (writeHeader StatusNoContent,
                       st1\<lparr>clusters := m, hashLookup := ringOf (hRange E) m\<rparr>))))"

definition hashHandleSwitch :: "bool \<Rightarrow> http_request \<Rightarrow> hashServerStore \<Rightarrow> http_response \<times> hashServerStore" where
  "hashHandleSwitch on r st =
     (if Method r \<noteq> ''PUT'' then (badRequest ''Method has to be PUT'', st)
      else (writeHeader StatusNoContent, st\<lparr>writeEnabled := on\<rparr>))"

definition serveHashServerHTTPAPI ::
    "hash_env \<Rightarrow> 'w http_client \<Rightarrow> string \<Rightarrow> http_request \<Rightarrow> hashServerStore \<Rightarrow> 'w
       \<Rightarrow> (http_response \<times> hashServerStore \<times> 'w) go" where
  "serveHashServerHTTPAPI E C path r st w =
     (case hMux E [''/add'', ''/delete'', ''/clusterinfo'', ''/addcluster'', ''/disablewrite'', ''/enablewrite'']
             path of
        None \<Rightarrow> Inr (notFound, st, w)
      | Some (pattern, _) \<Rightarrow>
          if pattern = ''/add'' then
            go_bind (hashHandleAdd E C r st w) (\<lambda>(resp, w'). Inr (resp, st, w'))
          else if pattern = ''/delete'' then
            go_bind (hashHandleDelete E C r st w) (\<lambda>(resp, w'). Inr (resp, st, w'))
          else if pattern = ''/clusterinfo'' then
            go_bind (hashHandleClusterInfo r st) (\<lambda>resp. Inr (resp, st, w))
          else if pattern = ''/addcluster'' then
            go_bind (hashHandleAddCluster E r st) (\<lambda>(resp, st'). Inr (resp, st', w))
          else if pattern = ''/disablewrite'' then
            (let (resp, st') = hashHandleSwitch False r st in Inr (resp, st', w))
          else (let (resp, st') = hashHandleSwitch True r st in Inr (resp, st', w)))"

section \<open>Sample surroundings\<close>

text \<open>\<open>rand.Shuffle\<close> permutes.\<close>

definition fair_shuffle :: "hash_env \<Rightarrow> bool" where
  "fair_shuffle E \<longleftrightarrow> (\<forall>xs. mset (hShuffle E xs) = mset xs)"

text \<open>A ring that gives every key to the first member, and two clusters of two servers.\<close>

definition sampleLocate :: locator where
  "sampleLocate ring key = (case ringMembers ring of [] \<Rightarrow> Inl (Panic ''empty ring'') | t # _ \<Rightarrow> Inr t)"

definition sampleHashEnv :: "nat \<Rightarrow> hash_env" where
  "sampleHashEnv t = \<lparr>hLib = sampleLib, hLocate = sampleLocate, hNow = t, hRand = 0,
     hRange = (\<lambda>m. map fst (sorted_list_of_fmap m)), hShuffle = rev,
     hRangeCache = (\<lambda>m. map fst (sorted_list_of_fmap m)), hMux = sampleMux\<rparr>"

definition sampleServer :: "nat \<Rightarrow> string \<Rightarrow> nsInfo" where
  "sampleServer i ip = \<lparr>nsName = ''ns.'', glueRecord = sampleRR ''ns.'' TypeA ip, nsCell = i\<rparr>"

definition sampleHashStore :: hashServerStore where
  "sampleHashStore = (emptyHashServerStore None)\<lparr>
     clusters := fmap_of_list [(clusterToken ''c1'', \<lparr>token = clusterToken ''c1'',
        members = [sampleServer 0 ''10.0.0.1'', sampleServer 1 ''10.0.0.2'']\<rparr>)],
     hashLookup := newRing 1 [''c1''], nextCell := 2\<rparr>"

lemma sampleHashEnv_simps [simp]:
  "fair_shuffle (sampleHashEnv t)" "hNow (sampleHashEnv t) = t" "hLocate (sampleHashEnv t) = sampleLocate"
  "hLib (sampleHashEnv t) = sampleLib" "hRand (sampleHashEnv t) = 0" "hMux (sampleHashEnv t) = sampleMux"
  by (simp_all add: fair_shuffle_def sampleHashEnv_def)

lemma sampleServer_cell [simp]: "nsCell (sampleServer i ip) = i"
  by (simp add: sampleServer_def)


section \<open>Lemmas: routing\<close>

lemma hashMux_hit:
  assumes "mux_ok M"
    and "path \<in> {''/add'', ''/delete'', ''/clusterinfo'', ''/addcluster'', ''/disablewrite'', ''/enablewrite''}"
  shows "M [''/add'', ''/delete'', ''/clusterinfo'', ''/addcluster'', ''/disablewrite'', ''/enablewrite''] path
    = Some (path, [])"
  by (rule mux_hit [OF assms(1)]) (use assms(2) in \<open>auto simp: couldMatch_defs\<close>)

lemma serveHash_simps:
  assumes "mux_ok (hMux E)"
  shows
    "serveHashServerHTTPAPI E C ''/add'' r st w = go_bind (hashHandleAdd E C r st w) (\<lambda>(resp, w'). Inr (resp, st, w'))"
    "serveHashServerHTTPAPI E C ''/delete'' r st w = go_bind (hashHandleDelete E C r st w) (\<lambda>(resp, w'). Inr (resp, st, w'))"
    "serveHashServerHTTPAPI E C ''/clusterinfo'' r st w = go_bind (hashHandleClusterInfo r st) (\<lambda>resp. Inr (resp, st, w))"
    "serveHashServerHTTPAPI E C ''/addcluster'' r st w
       = go_bind (hashHandleAddCluster E r st) (\<lambda>(resp, st'). Inr (resp, st', w))"
    "serveHashServerHTTPAPI E C ''/disablewrite'' r st w
       = Inr (fst (hashHandleSwitch False r st), snd (hashHandleSwitch False r st), w)"
    "serveHashServerHTTPAPI E C ''/enablewrite'' r st w
       = Inr (fst (hashHandleSwitch True r st), snd (hashHandleSwitch True r st), w)"
  unfolding serveHashServerHTTPAPI_def using assms by (simp_all add: hashMux_hit split_beta)

section \<open>Lemmas: cells\<close>

text \<open>Every member has a cell of its own, and every cluster is filed under its token.\<close>

definition cells_ok :: "clusterMap \<Rightarrow> nat \<Rightarrow> bool" where
  "cells_ok m n \<longleftrightarrow>
     (\<forall>t c. fmlookup m t = Some c \<longrightarrow> token c = t \<and> distinct (map nsCell (members c)) \<and>
        (\<forall>x \<in> set (members c). nsCell x < n)) \<and>
     (\<forall>t c t' c'. fmlookup m t = Some c \<longrightarrow> fmlookup m t' = Some c' \<longrightarrow> t \<noteq> t' \<longrightarrow>
        nsCell ` set (members c) \<inter> nsCell ` set (members c') = {})"

lemma cells_ok_empty [simp]: "cells_ok fmempty n"
  by (simp add: cells_ok_def)

lemma intoMembers_cells:
  "map nsCell (intoMembers L n ms) = [n..<n + length (intoMembers L n ms)]"
proof (induction ms arbitrary: n)
  case (Cons m ms)
  have "[n..<n + Suc k] = n # [Suc n..<Suc n + k]" for k
    by (simp add: upt_conv_Cons del: upt_Suc)
  with Cons.IH show ?case by (simp split: option.split del: upt_Suc)
qed simp

lemma intoMembers_set: "x \<in> set (intoMembers L n ms) \<Longrightarrow> n \<le> nsCell x \<and> nsCell x < n + length (intoMembers L n ms)"
  using intoMembers_cells [of L n ms] by (metis atLeastLessThan_iff image_eqI image_set set_upt)

lemma cells_ok_upd:
  assumes "cells_ok m n" "n \<le> n'" "distinct (map nsCell (members c))"
    and "\<forall>x \<in> set (members c). n \<le> nsCell x \<and> nsCell x < n'"
  shows "cells_ok (fmupd (token c) c m) n'"
proof -
  have old: "nsCell x < n" if "fmlookup m t = Some c0" "x \<in> set (members c0)" for t c0 x
    using assms(1) that unfolding cells_ok_def by blast
  have dis: "nsCell ` set (members c0) \<inter> nsCell ` set (members c) = {}" if "fmlookup m t = Some c0" for t c0
  proof (rule equals0I, elim IntE imageE)
    fix k x y assume "k = nsCell x" "x \<in> set (members c0)" "k = nsCell y" "y \<in> set (members c)"
    with old [OF that, of x] assms(4) show False by fastforce
  qed
  show ?thesis
    unfolding cells_ok_def
  proof (intro conjI allI impI)
    fix t c0 assume "fmlookup (fmupd (token c) c m) t = Some c0"
    then show "token c0 = t" "distinct (map nsCell (members c0))"
      using assms(1,3) by (auto simp: cells_ok_def split: if_splits)
    show "\<forall>x \<in> set (members c0). nsCell x < n'"
      using \<open>fmlookup (fmupd (token c) c m) t = Some c0\<close> assms(2,4) old
      by (fastforce split: if_splits)
  next
    fix t c0 t' c1
    assume "fmlookup (fmupd (token c) c m) t = Some c0" "fmlookup (fmupd (token c) c m) t' = Some c1" "t \<noteq> t'"
    then show "nsCell ` set (members c0) \<inter> nsCell ` set (members c1) = {}"
      using assms(1) dis by (auto simp: cells_ok_def split: if_splits)
  qed
qed

lemma intoClusterMap_ok:
  "cells_ok m (nextCell st) \<Longrightarrow> intoClusterMap L t cs m st = (m', st') \<Longrightarrow>
     cells_ok m' (nextCell st') \<and> nextCell st \<le> nextCell st' \<and>
     st' = st\<lparr>aliveSince := aliveSince st', nextCell := nextCell st'\<rparr>"
proof (induction cs arbitrary: m st)
  case (Cons c cs)
  let ?ms = "intoMembers L (nextCell st) (Members c)"
  obtain cInfo st1 where i: "intoClusterInfo L t c st = (cInfo, st1)" by fastforce
  then have ms: "members cInfo = ?ms" and n: "nextCell st1 = nextCell st + length ?ms"
    and st1: "st1 = st\<lparr>aliveSince := aliveSince st1, nextCell := nextCell st1\<rparr>"
    by (auto simp: intoClusterInfo_def Let_def)
  have "cells_ok (fmupd (token cInfo) cInfo m) (nextCell st1)"
    using n by (intro cells_ok_upd [OF Cons.prems(1)]) (auto simp: ms intoMembers_cells dest: intoMembers_set)
  moreover have "intoClusterMap L t cs (fmupd (token cInfo) cInfo m) st1 = (m', st')"
    using Cons.prems(2) i by simp
  ultimately have "cells_ok m' (nextCell st') \<and> nextCell st1 \<le> nextCell st' \<and>
      st' = st1\<lparr>aliveSince := aliveSince st', nextCell := nextCell st'\<rparr>"
    by (rule Cons.IH)
  moreover from this st1 have "st' = st\<lparr>aliveSince := aliveSince st', nextCell := nextCell st'\<rparr>"
    by (metis hashServerStore.surjective hashServerStore.update_convs(4,5))
  ultimately show ?case using n by simp
qed simp


section \<open>Properties\<close>

text \<open>
  C37. Writes switched off: while \<open>writeEnabled\<close> is false, \<open>/add\<close>, \<open>/delete\<close> and \<open>/addcluster\<close> are
  answered 405 whatever the request is, and no request on any path sends anything to another
  machine or changes the clusters or the ring.
\<close>

theorem disabled_writes_are_refused:
  assumes "mux_ok (hMux E)" and "\<not> writeEnabled st"
  shows "(\<forall>path \<in> {''/add'', ''/delete'', ''/addcluster''}. serveHashServerHTTPAPI E C path r st w
            = Inr (httpError ''Write is disabled'' StatusMethodNotAllowed, st, w)) \<and>
     (\<forall>path resp st' w'. serveHashServerHTTPAPI E C path r st w = Inr (resp, st', w') \<longrightarrow>
        w' = w \<and> clusters st' = clusters st \<and> hashLookup st' = hashLookup st)"
proof -
  have "w' = w \<and> clusters st' = clusters st \<and> hashLookup st' = hashLookup st"
    if "serveHashServerHTTPAPI E C path r st w = Inr (resp, st', w')" for path resp st' w'
    using that assms(2)
    by (auto simp: serveHashServerHTTPAPI_def hashHandleAdd_def hashHandleDelete_def
        hashHandleAddCluster_def hashHandleSwitch_def go_bind_Inr_iff
        split: option.splits if_splits)
  then show ?thesis
    using assms by (auto simp: serveHash_simps hashHandleAdd_def hashHandleDelete_def hashHandleAddCluster_def)
qed

lemma disabled_writes_are_refused_witness:
  "serveHashServerHTTPAPI (sampleHashEnv 5) \<lparr>validURL = \<lambda>_. True, clientDo = \<lambda>m u b w. (Inr (writeHeader 204), w + 1)\<rparr>
     ''/add'' \<lparr>Method = ''PUT'', Body = Inr ''a''\<rparr> (sampleHashStore\<lparr>writeEnabled := False\<rparr>) (0 :: nat)
   = Inr (httpError ''Write is disabled'' StatusMethodNotAllowed, sampleHashStore\<lparr>writeEnabled := False\<rparr>, 0)"
proof -
  have "mux_ok (hMux (sampleHashEnv 5))" "\<not> writeEnabled (sampleHashStore\<lparr>writeEnabled := False\<rparr>)" by simp_all
  note r = bspec [OF disabled_writes_are_refused [OF this, THEN conjunct1]]
  show ?thesis by (rule r) simp
qed

text \<open>A run of the HTTP interface over requests, each with its surroundings.\<close>

fun runHashHTTP ::
    "(hash_env \<times> 'w http_client \<times> string \<times> http_request) list \<Rightarrow> hashServerStore \<times> 'w
       \<Rightarrow> (hashServerStore \<times> 'w) go" where
  "runHashHTTP [] sw = Inr sw"
| "runHashHTTP ((E, C, path, r) # reqs) sw =
     go_bind (serveHashServerHTTPAPI E C path r (fst sw) (snd sw)) (\<lambda>(resp, st', w'). runHashHTTP reqs (st', w'))"

lemma serveHash_cells:
  assumes "serveHashServerHTTPAPI E C path r st w = Inr (resp, st', w')" and "cells_ok (clusters st) (nextCell st)"
  shows "cells_ok (clusters st') (nextCell st')"
proof -
  have "st' = st \<or> (\<exists>b. st' = st\<lparr>writeEnabled := b\<rparr>) \<or> hashHandleAddCluster E r st = Inr (resp, st')"
    using assms(1) by (auto simp: serveHashServerHTTPAPI_def hashHandleSwitch_def go_bind_Inr_iff
        split: option.splits if_splits)
  moreover have "cells_ok (clusters st') (nextCell st')" if "hashHandleAddCluster E r st = Inr (resp, st')"
    using that assms(2) intoClusterMap_ok [OF cells_ok_empty, of "hLib E" "hNow E" _ st]
    by (auto simp: hashHandleAddCluster_def Let_def split_beta split: if_splits sum.splits option.splits)
  ultimately show ?thesis using assms(2) by auto
qed

lemma runHashHTTP_cells:
  "runHashHTTP reqs (st, w) = Inr (st', w') \<Longrightarrow> cells_ok (clusters st) (nextCell st) \<Longrightarrow>
     cells_ok (clusters st') (nextCell st')"
proof (induction reqs arbitrary: st w)
  case (Cons x reqs)
  obtain E C path r where x: "x = (E, C, path, r)" by (cases x)
  with Cons.prems(1) obtain resp st1 w1 where s: "serveHashServerHTTPAPI E C path r st w = Inr (resp, st1, w1)"
    "runHashHTTP reqs (st1, w1) = Inr (st', w')" by (auto simp: go_bind_Inr_iff)
  show ?case by (rule Cons.IH [OF s(2) serveHash_cells [OF s(1) Cons.prems(2)]])
qed simp

text \<open>
  C36. No member is shared: from the start of the hash server on, through any requests to its HTTP
  interface, every member of every cluster has an \<open>aliveSince\<close> of its own, so marking one server
  as down never touches another.
\<close>

theorem members_have_own_cells:
  assumes "startHashServer L t rangeClusters conf = Inr st0"
    and "runHashHTTP reqs (st0, w0) = Inr (st, w)"
    and "fmlookup (clusters st) k = Some c" and "fmlookup (clusters st) k' = Some c'"
    and "i < length (members c)" and "j < length (members c')"
    and "nsCell (members c ! i) = nsCell (members c' ! j)"
  shows "k = k' \<and> i = j"
proof -
  have "cells_ok (clusters st0) (nextCell st0)"
    using assms(1) intoClusterMap_ok [of fmempty "emptyHashServerStore conf" L t]
    by (auto simp: startHashServer_def loadConfig_def Let_def split_beta split: option.splits)
  with assms(2) have ok: "cells_ok (clusters st) (nextCell st)" by (rule runHashHTTP_cells)
  have "k = k'"
  proof (rule ccontr)
    assume "k \<noteq> k'"
    with ok assms(3,4) have "nsCell ` set (members c) \<inter> nsCell ` set (members c') = {}"
      unfolding cells_ok_def by blast
    with assms(5-7) show False by (metis disjoint_iff imageI nth_mem)
  qed
  moreover from this ok assms(3,4) have "c = c'" "distinct (map nsCell (members c))"
    by (auto simp: cells_ok_def)
  ultimately show ?thesis
    using assms(5-7) by (metis length_map nth_eq_iff_index_eq nth_map)
qed

definition sampleConfig :: "jsonClusterInfo list" where
  "sampleConfig =
     [\<lparr>ClusterToken = ''c1'', Members = [\<lparr>NsName = ''ns1.'', GlueRecord = RRString sampleLib (sampleRR ''ns1.'' TypeA ''10.0.0.1'')\<rparr>,
        \<lparr>NsName = ''ns2.'', GlueRecord = RRString sampleLib (sampleRR ''ns2.'' TypeA ''10.0.0.2'')\<rparr>]\<rparr>,
      \<lparr>ClusterToken = ''c2'', Members = [\<lparr>NsName = ''ns3.'', GlueRecord = RRString sampleLib (sampleRR ''ns3.'' TypeA ''10.0.0.3'')\<rparr>]\<rparr>]"

lemma members_have_own_cells_witness:
  "\<exists>st0 c c'. startHashServer sampleLib 7 (\<lambda>_. []) (Some (encodeClusters sampleConfig)) = Inr st0 \<and>
     fmlookup (clusters st0) (clusterToken ''c1'') = Some c \<and> fmlookup (clusters st0) (clusterToken ''c2'') = Some c' \<and>
     length (members c) = 2 \<and> nsCell (members c ! 0) \<noteq> nsCell (members c ! 1) \<and>
     nsCell (members c ! 0) \<noteq> nsCell (members c' ! 0)"
proof -
  have "\<exists>st0 c c'. startHashServer sampleLib 7 (\<lambda>_. []) (Some (encodeClusters sampleConfig)) = Inr st0 \<and>
     fmlookup (clusters st0) (clusterToken ''c1'') = Some c \<and> fmlookup (clusters st0) (clusterToken ''c2'') = Some c' \<and>
     length (members c) = 2 \<and> length (members c') = 1"
    by (simp add: startHashServer_def loadConfig_def emptyHashServerStore_def Let_def sampleConfig_def
        intoClusterInfo_def sampleLib_parse)
  then obtain st0 c c' where st0: "startHashServer sampleLib 7 (\<lambda>_. []) (Some (encodeClusters sampleConfig)) = Inr st0"
    and c: "fmlookup (clusters st0) (clusterToken ''c1'') = Some c" "length (members c) = 2"
    and c': "fmlookup (clusters st0) (clusterToken ''c2'') = Some c'" "length (members c') = 1" by blast
  have none: "runHashHTTP [] (st0, ()) = Inr (st0, ())" by simp
  have "nsCell (members c ! 0) \<noteq> nsCell (members c ! 1)"
    using members_have_own_cells [OF st0 none c(1) c(1), of 0 1] c(2) by auto
  moreover have "nsCell (members c ! 0) \<noteq> nsCell (members c' ! 0)"
    using members_have_own_cells [OF st0 none c(1) c'(1), of 0 0] c(2) c'(2) by auto
  ultimately show ?thesis using st0 c c' by blast
qed

end
