(* ===== verification/Hash_Cache.thy ===== *)
theory Hash_Cache
  imports Hash_Server
begin

text \<open>
  The cache of the hash server, \<open>dns/hash_server/hash_server.go\<close>: a cache of bounded size from names
  to maps of records, used by every query. The maps are shared with the cache by reference and
  changed in place.
\<close>

section \<open>The cache\<close>

text \<open>
  \<open>lru.ARCCache\<close>: what \<open>Get\<close> finds after a history of calls. Documented behaviour: a hit returns
  the value of the last \<open>Add\<close> for the key, and a key that was just added is found.
\<close>

type_synonym arcLib = "arc_op list \<Rightarrow> string \<Rightarrow> nat option"

definition lastAdd :: "string \<Rightarrow> arc_op list \<Rightarrow> nat option" where
  "lastAdd k h = fold (\<lambda>op acc. case op of
       ArcAdd k' v \<Rightarrow> if k' = k then Some v else acc | ArcGet _ \<Rightarrow> acc) h None"

definition arc_ok :: "arcLib \<Rightarrow> bool" where
  "arc_ok A \<longleftrightarrow> (\<forall>h k v. A h k = Some v \<longrightarrow> lastAdd k h = Some v) \<and>
     (\<forall>h k v. A (h @ [ArcAdd k v]) k = Some v)"

definition hashGetCacheRecords ::
    "arcLib \<Rightarrow> hash_env \<Rightarrow> string \<Rightarrow> rrType \<Rightarrow> hashServerStore \<Rightarrow> dnsRR list \<times> hashServerStore" where
  "hashGetCacheRecords A E domainName qType st =
     (let st1 = st\<lparr>arcHistory := arcHistory st @ [ArcGet domainName]\<rparr>
      in case A (arcHistory st) domainName of
           None \<Rightarrow> ([], st1)
         | Some p \<Rightarrow>
             (case fmlookup (cacheMaps st1 p) qType of
                None \<Rightarrow> ([], st1)
              | Some cacheInfoMap \<Rightarrow>
                  if fm_len cacheInfoMap = 0 then ([], st1)
                  else (let (crs, m') = cacheScan (hLib E) (hNow E) (hRangeCache E cacheInfoMap) cacheInfoMap
                        in (crs, st1\<lparr>cacheMaps := (cacheMaps st1)(p := fmupd qType m' (cacheMaps st1 p))\<rparr>))))"

text \<open>The loop of \<open>queryCache\<close>: \<open>None\<close> as soon as a question finds nothing.\<close>

fun queryCacheLoop ::
    "arcLib \<Rightarrow> hash_env \<Rightarrow> dnsQuestion list \<Rightarrow> dnsMsg \<Rightarrow> hashServerStore
       \<Rightarrow> dnsMsg option \<times> hashServerStore" where
  "queryCacheLoop A E [] response st = (Some response, st)"
| "queryCacheLoop A E (q # qs) response st =
     (let (crs, st1) = hashGetCacheRecords A E (q_Name q) (q_Qtype q) st
      in if crs = [] then (None, st1)
         else queryCacheLoop A E qs (response\<lparr>Answer := Answer response @ crs\<rparr>) st1)"

definition queryCache ::
    "arcLib \<Rightarrow> hash_env \<Rightarrow> dnsMsg \<Rightarrow> hashServerStore \<Rightarrow> dnsMsg option \<times> hashServerStore" where
  "queryCache A E r st = queryCacheLoop A E (Questions r) newMsg st"

text \<open>
  \<open>addCacheRecord\<close>: the map of the name is fetched or made, put back into the cache, and then
  changed in place.
\<close>

definition hashAddCacheRecord ::
    "arcLib \<Rightarrow> hash_env \<Rightarrow> dnsRR \<Rightarrow> hashServerStore \<Rightarrow> hashServerStore" where
  "hashAddCacheRecord A E rr st =
     (if hdr_Name rr = ''.'' then st
      else let domainName = toLower (hdr_Name rr);
               (p, st1) = (case A (arcHistory st) domainName of
                   None \<Rightarrow> (nextMap st, st\<lparr>cacheMaps := (cacheMaps st)(nextMap st := fmempty),
                                         nextMap := Suc (nextMap st)\<rparr>)
                 | Some p \<Rightarrow> (p, st));
               rType = hdr_Rrtype rr;
               cacheRRs = (case fmlookup (cacheMaps st1 p) rType of None \<Rightarrow> fmempty | Some m \<Rightarrow> m);
               crInfo = \<lparr>ci_ttl = hdr_Ttl rr, ci_createTime = hNow E\<rparr>
           in st1\<lparr>arcHistory := arcHistory st @ [ArcGet domainName, ArcAdd domainName p],
                  cacheMaps := (cacheMaps st1)(p :=
                    fmupd rType (fmupd (RRString (hLib E) (rr\<lparr>hdr_Ttl := 0\<rparr>)) crInfo cacheRRs) (cacheMaps st1 p))\<rparr>)"

definition hashAddCacheRecords ::
    "arcLib \<Rightarrow> hash_env \<Rightarrow> dnsRR list \<Rightarrow> hashServerStore \<Rightarrow> hashServerStore" where
  "hashAddCacheRecords A E records st = fold (hashAddCacheRecord A E) records st"

section \<open>Properties of the cache\<close>

lemma arc_okD: "arc_ok A \<Longrightarrow> A (h @ [ArcGet k', ArcAdd k v]) k = Some v"
  unfolding arc_ok_def by (metis append.assoc append_Cons append_Nil)

text \<open>
  The hash server's cache serves what it was given: a record that was read from a string and
  added is among what the cache finds for its lower-case name and type while its TTL lasts, with
  the seconds that remain, whatever the cache held before and evicts.
\<close>

theorem hash_cache_serves:
  assumes "arc_ok A" and "rr_text_roundtrip (hLib E)" and "hLib E' = hLib E"
    and "\<And>m. enumerates (hRangeCache E' m) m"
    and "parseRR (hLib E) str = Some rr" and "hdr_Name rr \<noteq> ''.''"
    and "timeDiff (hNow E') (hNow E) < hdr_Ttl rr"
  shows "rr\<lparr>hdr_Ttl := hdr_Ttl rr - timeDiff (hNow E') (hNow E)\<rparr>
     \<in> set (fst (hashGetCacheRecords A E' (toLower (hdr_Name rr)) (hdr_Rrtype rr)
                  (hashAddCacheRecord A E rr st)))"
proof -
  let ?k = "RRString (hLib E) (rr\<lparr>hdr_Ttl := 0\<rparr>)" and ?d = "toLower (hdr_Name rr)"
  let ?st = "hashAddCacheRecord A E rr st"
  obtain p m where p: "arcHistory ?st = arcHistory st @ [ArcGet ?d, ArcAdd ?d p]"
      "fmlookup (cacheMaps ?st p) (hdr_Rrtype rr)
        = Some (fmupd ?k \<lparr>ci_ttl = hdr_Ttl rr, ci_createTime = hNow E\<rparr> m)"
    using assms(6) by (cases "A (arcHistory st) ?d") (auto simp: hashAddCacheRecord_def Let_def)
  let ?m = "fmupd ?k \<lparr>ci_ttl = hdr_Ttl rr, ci_createTime = hNow E\<rparr> m"
  have "parseRR (hLib E) ?k = Some (rr\<lparr>hdr_Ttl := 0\<rparr>)"
    by (rule rr_text_roundtripD [OF assms(2,5)])
  then have "liveAt (hLib E') (hNow E') ?m ?k
      = Some (rr\<lparr>hdr_Ttl := hdr_Ttl rr - timeDiff (hNow E') (hNow E)\<rparr>)"
    using assms(3,7) by (simp add: liveAt_def cacheEntry_parse)
  moreover have "?k \<in> set (hRangeCache E' ?m)" "distinct (hRangeCache E' ?m)"
    using assms(4) [of ?m] by (simp_all add: enumerates_def)
  ultimately have "rr\<lparr>hdr_Ttl := hdr_Ttl rr - timeDiff (hNow E') (hNow E)\<rparr>
      \<in> set (fst (cacheScan (hLib E') (hNow E') (hRangeCache E' ?m) ?m))"
    by (auto simp: cacheScan_records set_map_filter_iff)
  moreover have "A (arcHistory ?st) ?d = Some p"
    unfolding p(1) by (rule arc_okD [OF assms(1)])
  ultimately show ?thesis
    by (simp add: hashGetCacheRecords_def p(2) split_beta)
qed

text \<open>A cache that forgets nothing, for the examples.\<close>

definition sampleArc :: arcLib where
  "sampleArc h k = lastAdd k h"

lemma sampleArc_ok [simp]: "arc_ok sampleArc"
  by (simp add: arc_ok_def sampleArc_def lastAdd_def)

lemma sampleHash_range: "enumerates (hRangeCache (sampleHashEnv t) m) m"
proof -
  have "set (map fst (sorted_list_of_fmap m)) = fmdom' m"
    using dom_map_of_conv_image_fst [of "sorted_list_of_fmap m"] by simp
  then show ?thesis by (simp add: sampleHashEnv_def enumerates_def distinct_sorted_list_of_fmap)
qed

lemma hash_cache_serves_witness:
  "(sampleRR ''b.'' TypeA ''10.0.0.2'')\<lparr>hdr_Ttl := 58\<rparr>
     \<in> set (fst (hashGetCacheRecords sampleArc (sampleHashEnv 2999999999) ''b.'' TypeA
          (hashAddCacheRecord sampleArc (sampleHashEnv 0) (sampleRR ''b.'' TypeA ''10.0.0.2'') sampleHashStore)))"
proof -
  have t: "timeDiff 2999999999 0 = 2" by (simp add: timeDiff_def)
  have n: "toLower ''b.'' = ''b.''" by (simp add: toLower_def toLowerChar_def)
  have "(60 :: 32 word) - 2 = 58" by simp
  with hash_cache_serves [where E = "sampleHashEnv 0" and E' = "sampleHashEnv 2999999999" and A = sampleArc
      and str = "RRString sampleLib (sampleRR ''b.'' TypeA ''10.0.0.2'')"
      and rr = "sampleRR ''b.'' TypeA ''10.0.0.2''" and st = sampleHashStore] t n
  show ?thesis by (simp add: sampleHash_range sampleLib_parse)
qed

section \<open>Lower-case keys\<close>

text \<open>Only lower-case names are ever put into the cache.\<close>

definition addsLower :: "hashServerStore \<Rightarrow> bool" where
  "addsLower st \<longleftrightarrow> (\<forall>k v. ArcAdd k v \<in> set (arcHistory st) \<longrightarrow> is_lower k)"

lemma addsLower_add: "addsLower st \<Longrightarrow> addsLower (hashAddCacheRecord A E rr st)"
  by (auto simp: addsLower_def hashAddCacheRecord_def Let_def split: option.splits)

lemma addsLower_adds: "addsLower st \<Longrightarrow> addsLower (hashAddCacheRecords A E rrs st)"
  unfolding hashAddCacheRecords_def by (rule fold_inv) (auto intro: addsLower_add)

lemma addsLower_get: "addsLower st \<Longrightarrow> addsLower (snd (hashGetCacheRecords A E n ty st))"
  by (auto simp: addsLower_def hashGetCacheRecords_def Let_def split_beta split: option.splits)

lemma addsLower_query: "addsLower st \<Longrightarrow> addsLower (snd (queryCacheLoop A E qs m st))"
  by (induction qs arbitrary: m st) (auto simp: split_beta intro: addsLower_get)

lemma arc_lower_miss:
  assumes "arc_ok A" "addsLower st" "\<not> is_lower k"
  shows "A (arcHistory st) k = None"
proof (cases "A (arcHistory st) k")
  case (Some v)
  with assms(1) have l: "lastAdd k (arcHistory st) = Some v" by (simp add: arc_ok_def)
  have "\<exists>v. ArcAdd k v \<in> set h" if "lastAdd k h = Some v" for h v
    using that
  proof (induction h rule: rev_induct)
    case (snoc op h)
    then show ?case by (cases op) (auto simp: lastAdd_def split: if_splits)
  qed (simp add: lastAdd_def)
  with l assms(2,3) show ?thesis unfolding addsLower_def by blast
qed simp

end
