(* ===== verification/Hash_Query.thy ===== *)
theory Hash_Query
  imports Hash_Cache
begin

text \<open>
  Queries at the hash server, \<open>dns/hash_server/hash_server.go\<close>: the order in which it
  tries the members of a cluster, the direct queries to the responsible clusters and the
  broadcast to all of them.

  A DNS exchange is a parameter: for an address and a message it gives the message that came back
  (nil on most errors) and the error. The goroutines of one request run in any order; they share
  only what a lock protects, so their work is done here in the order in which they finish, which
  is an argument. The clock is read once per request.
\<close>

type_synonym exchange = "string \<Rightarrow> dnsMsg \<Rightarrow> dnsMsg option \<times> string option"

section \<open>The order of the servers\<close>

text \<open>
  Alive servers first, shuffled; then the others, sorted by the time they count as alive again
  (\<open>sort.Slice\<close> leaves the order of equal times open, here it is the one they had).
\<close>

definition getPreferredServerIPsInOrder :: "hash_env \<Rightarrow> hashServerStore \<Rightarrow> nsInfo list \<Rightarrow> nsInfo list" where
  "getPreferredServerIPsInOrder E st ms =
     (let alive = (\<lambda>ni. aliveSince st (nsCell ni) < hNow E);
          aliveServers = filter alive ms;
          deadServers = filter (\<lambda>ni. \<not> alive ni) ms
      in hShuffle E aliveServers @ sort_key (\<lambda>ni. aliveSince st (nsCell ni)) deadServers)"

text \<open>Try the servers one by one; one that fails counts as dead for half a second.\<close>

fun sendDNSMsgUntilSuccess ::
    "exchange \<Rightarrow> nat \<Rightarrow> dnsMsg \<Rightarrow> nsInfo list \<Rightarrow> dnsMsg option \<times> string option \<Rightarrow> (nat \<Rightarrow> nat)
       \<Rightarrow> (dnsMsg option \<times> string option) \<times> (nat \<Rightarrow> nat)" where
  "sendDNSMsgUntilSuccess X t m [] res alive = (res, alive)"
| "sendDNSMsgUntilSuccess X t m (s # servers) res alive =
     (let (inMsg, err) = X (ipString (getIPFromARecord (glueRecord s)) @ '':53'') m
      in if err = None then ((inMsg, None), alive)
         else sendDNSMsgUntilSuccess X t m servers (inMsg, err) (alive(nsCell s := t + 500 * 10 ^ 6)))"

section \<open>Direct queries\<close>

record batchedDNSQuestions =
  batchToken :: clusterToken
  chosenServers :: "nsInfo list"
  batchQuestions :: "dnsQuestion list"

text \<open>The map of batches, as a list in the order in which the tokens first occur.\<close>

fun addToBatch ::
    "(clusterToken \<Rightarrow> nsInfo list) \<Rightarrow> clusterToken \<Rightarrow> dnsQuestion \<Rightarrow> batchedDNSQuestions list
       \<Rightarrow> batchedDNSQuestions list" where
  "addToBatch servers t q [] = [\<lparr>batchToken = t, chosenServers = servers t, batchQuestions = [q]\<rparr>]"
| "addToBatch servers t q (b # bs) =
     (if batchToken b = t then b\<lparr>batchQuestions := batchQuestions b @ [q]\<rparr> # bs
      else b # addToBatch servers t q bs)"

fun makeBatches ::
    "hash_env \<Rightarrow> hashServerStore \<Rightarrow> dnsQuestion list \<Rightarrow> batchedDNSQuestions list
       \<Rightarrow> batchedDNSQuestions list go" where
  "makeBatches E st [] bs = Inr bs"
| "makeBatches E st (q # qs) bs =
     go_bind (hLocate E (hashLookup st) (q_Name q)) (\<lambda>t.
       makeBatches E st qs
         (addToBatch (\<lambda>t. getPreferredServerIPsInOrder E st (members (clusterAt t st)))
            (clusterToken t) q bs))"

definition hasAnswer :: "dnsMsg \<Rightarrow> dnsQuestion \<Rightarrow> bool" where
  "hasAnswer m q \<longleftrightarrow> (\<exists>a \<in> set (Answer m). q_Name q = hdr_Name a \<and> q_Qtype q = hdr_Rrtype a)"

definition mergeMsg :: "dnsMsg \<Rightarrow> dnsMsg \<Rightarrow> dnsMsg" where
  "mergeMsg msg m = msg\<lparr>Answer := Answer msg @ Answer m, Ns := Ns msg @ Ns m, Extra := Extra msg @ Extra m\<rparr>"

definition nilMsg :: go_exit where
  "nilMsg = Panic ''invalid memory address or nil pointer dereference''"

text \<open>One goroutine of \<open>tryDirectQuery\<close>, on \<open>hasAllAnswers\<close>, \<open>msg\<close> and the cells.\<close>

definition directBatch ::
    "exchange \<Rightarrow> nat \<Rightarrow> bool \<Rightarrow> batchedDNSQuestions \<Rightarrow> bool \<times> dnsMsg \<times> (nat \<Rightarrow> nat)
       \<Rightarrow> (bool \<times> dnsMsg \<times> (nat \<Rightarrow> nat)) go" where
  "directBatch X t rd batch = (\<lambda>(hasAll, msg, alive).
     (let m = newMsg\<lparr>RecursionDesired := rd, Questions := batchQuestions batch\<rparr>;
          ((inMsg, err), alive') = sendDNSMsgUntilSuccess X t m (chosenServers batch) (None, None) alive
      in if err \<noteq> None then Inr (False, msg, alive')
         else (case inMsg of
             None \<Rightarrow> Inl nilMsg
           | Some reply \<Rightarrow>
               if list_all (hasAnswer reply) (batchQuestions batch)
               then Inr (hasAll, mergeMsg msg reply, alive')
               else Inr (False, msg, alive'))))"

fun tryDirectQuery ::
    "exchange \<Rightarrow> nat \<Rightarrow> bool \<Rightarrow> batchedDNSQuestions list \<Rightarrow> bool \<times> dnsMsg \<times> (nat \<Rightarrow> nat)
       \<Rightarrow> (bool \<times> dnsMsg \<times> (nat \<Rightarrow> nat)) go" where
  "tryDirectQuery X t rd [] acc = Inr acc"
| "tryDirectQuery X t rd (b # bs) acc = go_bind (directBatch X t rd b acc) (tryDirectQuery X t rd bs)"

section \<open>Broadcast\<close>

text \<open>
  One goroutine of \<open>tryBroadcastAndMerge\<close>. The test is as in the source: a reply is merged when
  there was an error.
\<close>

definition broadcastCluster ::
    "exchange \<Rightarrow> nat \<Rightarrow> nsInfo list \<Rightarrow> dnsMsg \<times> (nat \<Rightarrow> nat) \<Rightarrow> (dnsMsg \<times> (nat \<Rightarrow> nat)) go" where
  "broadcastCluster X t servers = (\<lambda>(msg, alive).
     (let m = newMsg\<lparr>Questions := Questions msg\<rparr>;
          ((inMsg, err), alive') = sendDNSMsgUntilSuccess X t m servers (None, None) alive
      in if err \<noteq> None
         then (case inMsg of None \<Rightarrow> Inl nilMsg | Some reply \<Rightarrow> Inr (mergeMsg msg reply, alive'))
         else Inr (msg, alive')))"

fun broadcastLoop ::
    "exchange \<Rightarrow> nat \<Rightarrow> nsInfo list list \<Rightarrow> dnsMsg \<times> (nat \<Rightarrow> nat) \<Rightarrow> (dnsMsg \<times> (nat \<Rightarrow> nat)) go" where
  "broadcastLoop X t [] acc = Inr acc"
| "broadcastLoop X t (s # ss) acc = go_bind (broadcastCluster X t s acc) (broadcastLoop X t ss)"

text \<open>The servers of every cluster are chosen before the goroutines run; \<open>hRange\<close> is also the order in which these finish.\<close>

definition tryBroadcastAndMerge ::
    "exchange \<Rightarrow> hash_env \<Rightarrow> hashServerStore \<Rightarrow> dnsMsg \<Rightarrow> (dnsMsg \<times> (nat \<Rightarrow> nat)) go" where
  "tryBroadcastAndMerge X E st msg =
     broadcastLoop X (hNow E)
       (map (\<lambda>t. getPreferredServerIPsInOrder E st (members (clusterAt t st))) (hRange E (clusters st)))
       (msg, aliveSince st)"

section \<open>One request\<close>

definition addReplyToCache ::
    "arcLib \<Rightarrow> hash_env \<Rightarrow> bool \<Rightarrow> dnsMsg \<Rightarrow> hashServerStore \<Rightarrow> hashServerStore" where
  "addReplyToCache A E useCache m st =
     (if useCache
      then hashAddCacheRecords A E (Extra m)
             (hashAddCacheRecords A E (List.map_filter id (Ns m)) (hashAddCacheRecords A E (Answer m) st))
      else st)"

text \<open>
  The handler of \<open>serveHashServerUDPAPI\<close>: the reply and the store. \<open>order\<close> is the order in which
  the batches finish. Replies from the network hold no nil records.
\<close>

definition serveHashServerUDPAPI ::
    "arcLib \<Rightarrow> exchange \<Rightarrow> hash_env \<Rightarrow> (batchedDNSQuestions list \<Rightarrow> batchedDNSQuestions list) \<Rightarrow> bool
       \<Rightarrow> dnsMsg \<Rightarrow> hashServerStore \<Rightarrow> (dnsMsg \<times> hashServerStore) go" where
  "serveHashServerUDPAPI A X E order useCache r st =
     (case (if useCache then queryCache A E r st else (None, st)) of
        (Some mCache, st1) \<Rightarrow> Inr (mCache\<lparr>Id := Id r, Response := True\<rparr>, st1)
      | (None, st1) \<Rightarrow>
          go_bind (makeBatches E st1 (Questions r) []) (\<lambda>batchList.
          go_bind (tryDirectQuery X (hNow E) (RecursionDesired r) (order batchList)
                     (True, newMsg\<lparr>Id := Id r, Questions := Questions r\<rparr>, aliveSince st1))
            (\<lambda>(hasAll, mDirect, alive).
              let st2 = st1\<lparr>aliveSince := alive\<rparr>
              in if hasAll
                 then Inr (mDirect\<lparr>Response := True\<rparr>, addReplyToCache A E useCache mDirect st2)
                 else go_bind (tryBroadcastAndMerge X E st2 (newMsg\<lparr>Id := Id r, Questions := Questions r\<rparr>))
                        (\<lambda>(mBroadcast, alive').
                          Inr (mBroadcast\<lparr>Response := True\<rparr>,
                               addReplyToCache A E useCache mBroadcast (st2\<lparr>aliveSince := alive'\<rparr>))))))"


section \<open>Lemmas: servers\<close>

definition serverAddr :: "nsInfo \<Rightarrow> string" where
  "serverAddr s = ipString (getIPFromARecord (glueRecord s)) @ '':53''"

definition reachable :: "exchange \<Rightarrow> dnsMsg \<Rightarrow> nsInfo \<Rightarrow> bool" where
  "reachable X m s \<longleftrightarrow> snd (X (serverAddr s) m) = None"

lemma send_step:
  "sendDNSMsgUntilSuccess X t m (s # servers) res alive =
     (if reachable X m s then ((fst (X (serverAddr s) m), None), alive)
      else sendDNSMsgUntilSuccess X t m servers (X (serverAddr s) m) (alive(nsCell s := t + 500 * 10 ^ 6)))"
  by (simp add: reachable_def serverAddr_def split_beta prod_eq_iff)

declare sendDNSMsgUntilSuccess.simps(2) [simp del]

text \<open>The cells of a list of servers that were found down at time \<open>t\<close>.\<close>

definition markDown :: "nat \<Rightarrow> nsInfo list \<Rightarrow> (nat \<Rightarrow> nat) \<Rightarrow> nat \<Rightarrow> nat" where
  "markDown t servers alive =
     (\<lambda>k. if k \<in> nsCell ` set servers then t + 500 * 10 ^ 6 else alive k)"

lemma markDown_simps [simp]:
  "markDown t [] alive = alive"
  "markDown t (s # ss) alive = markDown t ss (alive(nsCell s := t + 500 * 10 ^ 6))"
  by (auto simp: markDown_def)

text \<open>The first reachable server answers, those before it are marked; without one all are.\<close>

lemma send_first_reachable:
  assumes "\<forall>s \<in> set ss. \<not> reachable X m s" and "reachable X m s"
  shows "sendDNSMsgUntilSuccess X t m (ss @ s # rest) res alive
         = ((fst (X (serverAddr s) m), None), markDown t ss alive)"
  using assms by (induction ss arbitrary: res alive) (simp_all add: send_step)

lemma send_none_reachable:
  assumes "\<forall>s \<in> set ss. \<not> reachable X m s"
  shows "sendDNSMsgUntilSuccess X t m ss res alive
         = (if ss = [] then res else X (serverAddr (last ss)) m, markDown t ss alive)"
  using assms by (induction ss arbitrary: res alive) (simp_all add: send_step)

lemma send_cases:
  assumes "\<exists>s \<in> set ss. reachable X m s"
  shows "\<exists>s \<in> set ss. reachable X m s \<and>
     fst (sendDNSMsgUntilSuccess X t m ss res alive) = (fst (X (serverAddr s) m), None)"
proof -
  from split_list_first_prop [OF assms] obtain as s bs where
    s: "ss = as @ s # bs" "reachable X m s" "\<forall>x \<in> set as. \<not> reachable X m x" by blast
  then show ?thesis by (intro bexI [of _ s]) (simp_all add: send_first_reachable)
qed

lemma preferred_mset:
  assumes "fair_shuffle E"
  shows "mset (getPreferredServerIPsInOrder E st ms) = mset ms"
proof -
  have "mset (hShuffle E xs) = mset xs" for xs using assms by (simp add: fair_shuffle_def)
  then show ?thesis by (simp add: getPreferredServerIPsInOrder_def Let_def)
qed

lemma preferred_set: "fair_shuffle E \<Longrightarrow> set (getPreferredServerIPsInOrder E st ms) = set ms"
  by (rule mset_eq_setD) (rule preferred_mset)

section \<open>Lemmas: batches\<close>

text \<open>
  What the list of batches looks like after the questions \<open>qs\<close>: one batch for each token, with its
  questions in order.
\<close>

definition batches_of ::
    "(clusterToken \<Rightarrow> nsInfo list) \<Rightarrow> (dnsQuestion \<Rightarrow> clusterToken) \<Rightarrow> dnsQuestion list
       \<Rightarrow> batchedDNSQuestions list \<Rightarrow> bool" where
  "batches_of servers tok qs bs \<longleftrightarrow> distinct (map batchToken bs) \<and>
     batchToken ` set bs = tok ` set qs \<and>
     (\<forall>b \<in> set bs. chosenServers b = servers (batchToken b) \<and>
        batchQuestions b = filter (\<lambda>q. tok q = batchToken b) qs)"

lemma addToBatch_tokens:
  "map batchToken (addToBatch servers t q bs) =
     map batchToken bs @ (if t \<in> batchToken ` set bs then [] else [t])"
  by (induction bs) auto

lemma addToBatch_set:
  assumes "distinct (map batchToken bs)"
  shows "b \<in> set (addToBatch servers t q bs) \<longleftrightarrow>
     b \<in> set bs \<and> batchToken b \<noteq> t \<or>
     (\<exists>b0 \<in> set bs. batchToken b0 = t \<and> b = b0\<lparr>batchQuestions := batchQuestions b0 @ [q]\<rparr>) \<or>
     t \<notin> batchToken ` set bs \<and> b = \<lparr>batchToken = t, chosenServers = servers t, batchQuestions = [q]\<rparr>"
  using assms by (induction bs) (auto simp: image_iff)

lemma batches_of_add:
  assumes "batches_of servers tok qs bs"
  shows "batches_of servers tok (qs @ [q]) (addToBatch servers (tok q) q bs)"
proof -
  let ?bs' = "addToBatch servers (tok q) q bs"
  have d: "distinct (map batchToken bs)" and img: "batchToken ` set bs = tok ` set qs"
    using assms by (simp_all add: batches_of_def)
  have b: "b \<in> set bs \<Longrightarrow> chosenServers b = servers (batchToken b) \<and>
      batchQuestions b = filter (\<lambda>q. tok q = batchToken b) qs" for b
    using assms by (simp add: batches_of_def)
  have toks: "set (map batchToken ?bs') = tok ` set (qs @ [q])"
    unfolding addToBatch_tokens using img by auto
  have "distinct (map batchToken ?bs')"
    unfolding addToBatch_tokens using d by simp
  moreover have "chosenServers x = servers (batchToken x) \<and>
      batchQuestions x = filter (\<lambda>q. tok q = batchToken x) (qs @ [q])" if x: "x \<in> set ?bs'" for x
    using x unfolding addToBatch_set [OF d]
  proof (elim disjE conjE bexE)
    assume "tok q \<notin> batchToken ` set bs"
      and new: "x = \<lparr>batchToken = tok q, chosenServers = servers (tok q), batchQuestions = [q]\<rparr>"
    then have "\<forall>q' \<in> set qs. tok q' \<noteq> tok q" unfolding img by (metis imageI)
    then have "filter (\<lambda>q'. tok q' = tok q) qs = []" by (simp add: filter_empty_conv)
    with new show ?thesis by simp
  qed (auto simp: b)
  ultimately show ?thesis using toks by (simp add: batches_of_def)
qed

lemma makeBatches_ok:
  assumes "makeBatches E st qs bs = Inr bs'"
    and "batches_of (\<lambda>t. getPreferredServerIPsInOrder E st (members (clusterAt t st))) tok qs0 bs"
    and "\<And>q t. hLocate E (hashLookup st) (q_Name q) = Inr t \<Longrightarrow> tok q = clusterToken t"
  shows "batches_of (\<lambda>t. getPreferredServerIPsInOrder E st (members (clusterAt t st))) tok (qs0 @ qs) bs'"
  using assms(1,2)
proof (induction qs arbitrary: bs qs0)
  case (Cons q qs)
  from Cons.prems(1) obtain t where t: "hLocate E (hashLookup st) (q_Name q) = Inr t"
    and rest: "makeBatches E st qs (addToBatch (\<lambda>t. getPreferredServerIPsInOrder E st
          (members (clusterAt t st))) (clusterToken t) q bs) = Inr bs'"
    by (auto simp: go_bind_Inr_iff)
  from batches_of_add [OF Cons.prems(2), of q] assms(3) [OF t]
  have "batches_of (\<lambda>t. getPreferredServerIPsInOrder E st (members (clusterAt t st))) tok (qs0 @ [q])
      (addToBatch (\<lambda>t. getPreferredServerIPsInOrder E st (members (clusterAt t st))) (clusterToken t) q bs)"
    by simp
  from Cons.IH [OF rest this] show ?case by simp
qed simp

text \<open>The token of a question, where the ring gives one.\<close>

definition tokenOf :: "hash_env \<Rightarrow> hashServerStore \<Rightarrow> dnsQuestion \<Rightarrow> clusterToken" where
  "tokenOf E st q = (case hLocate E (hashLookup st) (q_Name q) of
       Inl _ \<Rightarrow> clusterToken [] | Inr t \<Rightarrow> clusterToken t)"

lemma makeBatches_tokens:
  assumes "makeBatches E st qs [] = Inr bs"
  shows "batches_of (\<lambda>t. getPreferredServerIPsInOrder E st (members (clusterAt t st))) (tokenOf E st) qs bs"
proof -
  have "batches_of (\<lambda>t. getPreferredServerIPsInOrder E st (members (clusterAt t st))) (tokenOf E st) [] []"
    by (simp add: batches_of_def)
  from makeBatches_ok [OF assms this] show ?thesis by (simp add: tokenOf_def)
qed

lemma makeBatches_total:
  assumes "\<forall>q \<in> set qs. \<exists>t. hLocate E (hashLookup st) (q_Name q) = Inr t"
  shows "\<exists>bs'. makeBatches E st qs bs = Inr bs'"
  using assms by (induction qs arbitrary: bs) auto


section \<open>Lemmas: direct queries and broadcast\<close>

lemma hasAnswer_merge [simp]:
  "hasAnswer (mergeMsg m1 m2) q \<longleftrightarrow> hasAnswer m1 q \<or> hasAnswer m2 q"
  by (auto simp: hasAnswer_def mergeMsg_def)

lemma mergeMsg_frame [simp]: "Id (mergeMsg m1 m2) = Id m1" "Questions (mergeMsg m1 m2) = Questions m1"
  by (simp_all add: mergeMsg_def)

text \<open>The message a batch sends.\<close>

definition batchMsg :: "bool \<Rightarrow> batchedDNSQuestions \<Rightarrow> dnsMsg" where
  "batchMsg rd b = newMsg\<lparr>RecursionDesired := rd, Questions := batchQuestions b\<rparr>"

lemma directBatch_cases:
  assumes "directBatch X t rd b (hasAll, msg, alive) = Inr (hasAll', msg', alive')"
  shows "(hasAll' \<longrightarrow> hasAll \<and> (\<forall>q \<in> set (batchQuestions b). hasAnswer msg' q)) \<and>
     (\<forall>q. hasAnswer msg q \<longrightarrow> hasAnswer msg' q) \<and> Id msg' = Id msg \<and> Questions msg' = Questions msg"
  using assms
  by (auto simp: directBatch_def Let_def split_beta list_all_iff split: if_splits option.splits)

lemma tryDirectQuery_answers:
  "tryDirectQuery X t rd bs (hasAll, msg, alive) = Inr (hasAll', msg', alive') \<Longrightarrow>
     (hasAll' \<longrightarrow> hasAll \<and> (\<forall>b \<in> set bs. \<forall>q \<in> set (batchQuestions b). hasAnswer msg' q)) \<and>
     (\<forall>q. hasAnswer msg q \<longrightarrow> hasAnswer msg' q) \<and> Id msg' = Id msg \<and> Questions msg' = Questions msg"
proof (induction bs arbitrary: hasAll msg alive)
  case (Cons b bs)
  from Cons.prems obtain h m a where b: "directBatch X t rd b (hasAll, msg, alive) = Inr (h, m, a)"
    and bs: "tryDirectQuery X t rd bs (h, m, a) = Inr (hasAll', msg', alive')"
    by (auto simp: go_bind_Inr_iff)
  from directBatch_cases [OF b] Cons.IH [OF bs] show ?case by auto
qed simp

text \<open>A batch whose servers are good: one is reachable, and whoever is reachable answers it all.\<close>

definition batch_served :: "exchange \<Rightarrow> bool \<Rightarrow> batchedDNSQuestions \<Rightarrow> bool" where
  "batch_served X rd b \<longleftrightarrow>
     (\<exists>s \<in> set (chosenServers b). reachable X (batchMsg rd b) s) \<and>
     (\<forall>s \<in> set (chosenServers b). reachable X (batchMsg rd b) s \<longrightarrow>
        (\<exists>reply. fst (X (serverAddr s) (batchMsg rd b)) = Some reply \<and>
           list_all (hasAnswer reply) (batchQuestions b)))"

lemma directBatch_served:
  assumes "batch_served X rd b"
  shows "\<exists>msg' alive'. directBatch X t rd b (hasAll, msg, alive) = Inr (hasAll, msg', alive')"
proof -
  obtain inMsg err alive' where send: "sendDNSMsgUntilSuccess X t (batchMsg rd b) (chosenServers b) (None, None) alive
      = ((inMsg, err), alive')" by (metis surj_pair)
  obtain s where "s \<in> set (chosenServers b)" "reachable X (batchMsg rd b) s"
      "(inMsg, err) = (fst (X (serverAddr s) (batchMsg rd b)), None)"
    using send_cases [of "chosenServers b" X "batchMsg rd b" t "(None, None)" alive] assms send
    by (auto simp: batch_served_def)
  then obtain reply where "inMsg = Some reply" "err = None" "list_all (hasAnswer reply) (batchQuestions b)"
    using assms by (auto simp: batch_served_def)
  with send show ?thesis by (simp add: directBatch_def batchMsg_def [symmetric])
qed

lemma tryDirectQuery_served:
  assumes "\<forall>b \<in> set bs. batch_served X rd b"
  shows "\<exists>msg' alive'. tryDirectQuery X t rd bs (hasAll, msg, alive) = Inr (hasAll, msg', alive')"
  using assms
proof (induction bs arbitrary: msg alive)
  case (Cons b bs)
  then obtain m a where "directBatch X t rd b (hasAll, msg, alive) = Inr (hasAll, m, a)"
    using directBatch_served by (metis list.set_intros(1))
  with Cons show ?case by simp
qed simp

text \<open>A cluster that answers adds nothing to a broadcast.\<close>

lemma broadcastCluster_reachable:
  assumes "\<forall>m. \<exists>s \<in> set servers. reachable X m s"
  shows "\<exists>alive'. broadcastCluster X t servers (msg, alive) = Inr (msg, alive')"
proof -
  let ?m = "newMsg\<lparr>Questions := Questions msg\<rparr>"
  from assms have "\<exists>s \<in> set servers. reachable X ?m s" by blast
  from send_cases [OF this, of t "(None, None)" alive]
  obtain inMsg alive' where
    "sendDNSMsgUntilSuccess X t ?m servers (None, None) alive = ((inMsg, None), alive')"
    by (metis prod.collapse)
  then show ?thesis by (simp add: broadcastCluster_def)
qed

lemma broadcastLoop_reachable:
  assumes "\<forall>servers \<in> set ss. \<forall>m. \<exists>s \<in> set servers. reachable X m s"
  shows "\<exists>alive'. broadcastLoop X t ss (msg, alive) = Inr (msg, alive')"
  using assms
proof (induction ss arbitrary: alive)
  case (Cons servers ss)
  then have "\<forall>m. \<exists>s \<in> set servers. reachable X m s" by simp
  from broadcastCluster_reachable [OF this, of t msg alive]
  obtain a where "broadcastCluster X t servers (msg, alive) = Inr (msg, a)" by blast
  with Cons show ?case by simp
qed simp

text \<open>If the direct queries found everything, every question is answered, in whatever order they finished.\<close>

lemma direct_all_answered:
  assumes "makeBatches E st qs [] = Inr bs" "\<And>bs. mset (order bs) = mset bs"
    and "tryDirectQuery X t rd (order bs) (hasAll0, msg, alive) = Inr (True, msg', alive')"
    and "q \<in> set qs"
  shows "hasAnswer msg' q"
proof -
  note b = makeBatches_tokens [OF assms(1)]
  have perm: "set (order bs) = set bs" by (rule mset_eq_setD) (rule assms(2))
  from b assms(4) have "tokenOf E st q \<in> batchToken ` set bs" by (auto simp: batches_of_def)
  then obtain x where x: "x \<in> set bs" "batchToken x = tokenOf E st q" by auto
  with b assms(4) have "q \<in> set (batchQuestions x)" by (simp add: batches_of_def)
  with tryDirectQuery_answers [OF assms(3)] perm x(1) show ?thesis by blast
qed

text \<open>When every cluster has a reachable member, a broadcast leaves the reply as it was.\<close>

lemma broadcast_reachable:
  assumes "fair_shuffle E" "enumerates (hRange E (clusters st)) (clusters st)"
    and "\<And>t c m. fmlookup (clusters st) t = Some c \<Longrightarrow> \<exists>s \<in> set (members c). reachable X m s"
  shows "\<exists>alive. tryBroadcastAndMerge X E st msg = Inr (msg, alive)"
proof -
  have "\<exists>s \<in> set (getPreferredServerIPsInOrder E st (members (clusterAt t st))). reachable X m s"
    if t: "t \<in> set (hRange E (clusters st))" for t m
  proof -
    from t assms(2) obtain c where c: "fmlookup (clusters st) t = Some c" by (auto simp: enumerates_lookup)
    with assms(3) [OF c, of m] show ?thesis by (simp add: clusterAt_def preferred_set [OF assms(1)])
  qed
  then show ?thesis
    unfolding tryBroadcastAndMerge_def by (intro broadcastLoop_reachable) simp
qed

lemma addReplyToCache_False [simp]: "addReplyToCache A E False m st = st"
  by (simp add: addReplyToCache_def)

lemma serve_steps:
  assumes "serveHashServerUDPAPI A X E order False r st = Inr (reply, st')"
  shows "\<exists>bs hasAll m alive. makeBatches E st (Questions r) [] = Inr bs \<and>
     tryDirectQuery X (hNow E) (RecursionDesired r) (order bs)
       (True, newMsg\<lparr>Id := Id r, Questions := Questions r\<rparr>, aliveSince st) = Inr (hasAll, m, alive) \<and>
     (if hasAll then Inr (m\<lparr>Response := True\<rparr>, st\<lparr>aliveSince := alive\<rparr>)
      else go_bind (tryBroadcastAndMerge X E (st\<lparr>aliveSince := alive\<rparr>)
             (newMsg\<lparr>Id := Id r, Questions := Questions r\<rparr>))
          (\<lambda>(mB, alive'). Inr (mB\<lparr>Response := True\<rparr>, st\<lparr>aliveSince := alive'\<rparr>))) = Inr (reply, st')"
proof -
  from assms obtain bs where bs: "makeBatches E st (Questions r) [] = Inr bs"
    by (auto simp: serveHashServerUDPAPI_def go_bind_Inr_iff)
  obtain hasAll m alive where d: "tryDirectQuery X (hNow E) (RecursionDesired r) (order bs)
       (True, newMsg\<lparr>Id := Id r, Questions := Questions r\<rparr>, aliveSince st) = Inr (hasAll, m, alive)"
    using assms bs
    by (cases "tryDirectQuery X (hNow E) (RecursionDesired r) (order bs)
       (True, newMsg\<lparr>Id := Id r, Questions := Questions r\<rparr>, aliveSince st)")
      (auto simp: serveHashServerUDPAPI_def)
  from assms bs d show ?thesis by (auto simp: serveHashServerUDPAPI_def Let_def)
qed

section \<open>Sample surroundings\<close>

text \<open>An exchange in which \<open>10.0.0.1\<close> is down and every other server answers with one record.\<close>

definition sampleExchange :: "dnsRR list \<Rightarrow> exchange" where
  "sampleExchange rrs addr m =
     (if addr = ''10.0.0.1:53'' then (None, Some ''timeout'') else (Some (newMsg\<lparr>Answer := rrs\<rparr>), None))"

lemma serverAddr_sample [simp]: "serverAddr (sampleServer i ip) = ip @ '':53''"
  by (simp add: serverAddr_def sampleServer_def getIPFromARecord_def ipString_def sampleData_def)


section \<open>Properties\<close>

text \<open>
  Alive servers first: the servers of a cluster are tried in an order that leaves none out and
  repeats none, has every server that counts as alive before every one that does not, and the
  latter by the time they count as alive again.
\<close>

theorem preferred_server_order:
  assumes "fair_shuffle E"
  shows "mset (getPreferredServerIPsInOrder E st ms) = mset ms \<and>
     (\<exists>alive dead. getPreferredServerIPsInOrder E st ms = alive @ dead \<and>
        (\<forall>s \<in> set alive. aliveSince st (nsCell s) < hNow E) \<and>
        (\<forall>s \<in> set dead. hNow E \<le> aliveSince st (nsCell s)) \<and>
        sorted (map (\<lambda>s. aliveSince st (nsCell s)) dead))"
proof -
  let ?alive = "\<lambda>s. aliveSince st (nsCell s) < hNow E"
  have "set (hShuffle E (filter ?alive ms)) = set (filter ?alive ms)"
    using assms by (intro mset_eq_setD) (simp add: fair_shuffle_def)
  then show ?thesis
    using preferred_mset [OF assms]
    by (intro conjI exI [of _ "hShuffle E (filter ?alive ms)"]
          exI [of _ "sort_key (\<lambda>s. aliveSince st (nsCell s)) (filter (\<lambda>s. \<not> ?alive s) ms)"])
      (auto simp: getPreferredServerIPsInOrder_def Let_def)
qed

lemma preferred_server_order_witness:
  "let st = sampleHashStore\<lparr>aliveSince := (\<lambda>k. if k = 0 then 9 else 1)\<rparr>
   in mset (getPreferredServerIPsInOrder (sampleHashEnv 5) st [sampleServer 0 ''x'', sampleServer 1 ''y''])
      = {#sampleServer 0 ''x'', sampleServer 1 ''y''#}"
  using preferred_server_order [of "sampleHashEnv 5"
      "sampleHashStore\<lparr>aliveSince := (\<lambda>k. if k = 0 then 9 else 1)\<rparr>"
      "[sampleServer 0 ''x'', sampleServer 1 ''y'']"]
  by simp

text \<open>
  C35. Failover: trying servers in order, the first reachable one answers; exactly the servers tried
  before it count as dead, until half a second later, and nothing else is changed.
\<close>

theorem server_failover:
  assumes "\<forall>s \<in> set ss. \<not> reachable X m s" and "reachable X m s"
  shows "\<exists>alive'. sendDNSMsgUntilSuccess X t m (ss @ s # rest) res alive
         = ((fst (X (serverAddr s) m), None), alive') \<and>
     (\<forall>x \<in> set ss. \<forall>t'. alive' (nsCell x) < t' \<longleftrightarrow> t + 500 * 10 ^ 6 < t') \<and>
     (\<forall>k. k \<notin> nsCell ` set ss \<longrightarrow> alive' k = alive k)"
  using send_first_reachable [OF assms, of t rest res alive] by (auto simp: markDown_def)

lemma server_failover_witness:
  "\<exists>alive'. sendDNSMsgUntilSuccess (sampleExchange []) 7 newMsg
       [sampleServer 0 ''10.0.0.1'', sampleServer 1 ''10.0.0.2''] (None, None) (\<lambda>_. 0)
     = ((Some (newMsg\<lparr>Answer := []\<rparr>), None), alive') \<and> \<not> alive' 0 < 500000007 \<and> alive' 1 = 0"
proof -
  have "\<forall>s \<in> set [sampleServer 0 ''10.0.0.1'']. \<not> reachable (sampleExchange []) newMsg s"
    and "reachable (sampleExchange []) newMsg (sampleServer 1 ''10.0.0.2'')"
    by (simp_all add: reachable_def sampleExchange_def)
  from server_failover [OF this, of 7 "[]" "(None, None)" "\<lambda>_. 0"] show ?thesis
    by (auto simp: sampleExchange_def)
qed

text \<open>
  C25. Every question goes to one place: the batches of a request have different tokens, every
  question is in exactly the batch of the cluster the ring names for it, in the order of the
  request, and a batch is tried on the members of its cluster.
\<close>

theorem questions_are_partitioned:
  assumes "fair_shuffle E" and "makeBatches E st qs [] = Inr bs"
  shows "distinct (map batchToken bs) \<and>
     (\<forall>b \<in> set bs. batchQuestions b = filter (\<lambda>q. tokenOf E st q = batchToken b) qs \<and>
        batchQuestions b \<noteq> [] \<and> mset (chosenServers b) = mset (members (clusterAt (batchToken b) st))) \<and>
     (\<forall>q \<in> set qs. \<exists>!b. b \<in> set bs \<and> q \<in> set (batchQuestions b))"
proof -
  note b = makeBatches_tokens [OF assms(2)]
  have ne: "batchQuestions x \<noteq> []" if "x \<in> set bs" for x
  proof -
    from b that have "batchToken x \<in> tokenOf E st ` set qs"
      unfolding batches_of_def by (metis imageI)
    with b that show ?thesis by (auto simp: batches_of_def filter_empty_conv)
  qed
  have "\<exists>!x. x \<in> set bs \<and> q \<in> set (batchQuestions x)" if "q \<in> set qs" for q
  proof -
    from b that have "tokenOf E st q \<in> batchToken ` set bs" by (auto simp: batches_of_def)
    then obtain x where x: "x \<in> set bs" "batchToken x = tokenOf E st q" by auto
    have "y = x" if "y \<in> set bs" "q \<in> set (batchQuestions y)" for y
      using that b x by (auto simp: batches_of_def distinct_map inj_on_eq_iff)
    moreover have "q \<in> set (batchQuestions x)" using x b that by (simp add: batches_of_def)
    ultimately show ?thesis using x by blast
  qed
  with b ne show ?thesis by (auto simp: batches_of_def preferred_mset [OF assms(1)])
qed

lemma questions_are_partitioned_witness:
  "\<exists>bs. makeBatches (sampleHashEnv 5) sampleHashStore [\<lparr>q_Name = ''a.'', q_Qtype = TypeA\<rparr>] [] = Inr bs \<and>
     (\<exists>!b. b \<in> set bs \<and> \<lparr>q_Name = ''a.'', q_Qtype = TypeA\<rparr> \<in> set (batchQuestions b))"
proof -
  have "\<exists>bs. makeBatches (sampleHashEnv 5) sampleHashStore [\<lparr>q_Name = ''a.'', q_Qtype = TypeA\<rparr>] [] = Inr bs"
    by (rule makeBatches_total) (simp add: sampleLocate_def sampleHashStore_def newRing_def emptyHashServerStore_def)
  then obtain bs where bs: "makeBatches (sampleHashEnv 5) sampleHashStore
      [\<lparr>q_Name = ''a.'', q_Qtype = TypeA\<rparr>] [] = Inr bs" by blast
  from questions_are_partitioned [OF _ bs] bs show ?thesis by simp
qed








lemma addsLower_reply: "addsLower st \<Longrightarrow> addsLower (addReplyToCache A E u m st)"
  by (simp add: addReplyToCache_def addsLower_adds)

lemma addsLower_alive: "addsLower (st\<lparr>aliveSince := a\<rparr>) = addsLower st"
  by (simp add: addsLower_def)

lemma addsLower_serve:
  assumes "addsLower st" and "serveHashServerUDPAPI A X E order u r st = Inr (reply, st')"
  shows "addsLower st'"
proof -
  obtain c st1 where c: "(if u then queryCache A E r st else (None, st)) = (c, st1)" by fastforce
  have st1: "addsLower st1"
    using assms(1) c addsLower_query [OF assms(1), of A E "Questions r" newMsg]
    by (auto simp: queryCache_def split: if_splits)
  show ?thesis
  proof (cases c)
    case (Some m)
    with assms(2) c st1 show ?thesis by (simp add: serveHashServerUDPAPI_def)
  next
    case None
    with assms(2) c obtain bs hasAll m alive where
      "(if hasAll then Inr (m\<lparr>Response := True\<rparr>, addReplyToCache A E u m (st1\<lparr>aliveSince := alive\<rparr>))
        else go_bind (tryBroadcastAndMerge X E (st1\<lparr>aliveSince := alive\<rparr>)
               (newMsg\<lparr>Id := Id r, Questions := Questions r\<rparr>))
            (\<lambda>(mB, alive'). Inr (mB\<lparr>Response := True\<rparr>,
               addReplyToCache A E u mB (st1\<lparr>aliveSince := alive, aliveSince := alive'\<rparr>)))) = Inr (reply, st')"
      by (simp add: serveHashServerUDPAPI_def go_bind_Inr_iff Let_def) blast
    then show ?thesis
      using st1 by (auto simp: go_bind_Inr_iff addsLower_alive split: if_splits intro!: addsLower_reply)
  qed
qed

text \<open>A run of the UDP handler over requests, each with its surroundings.\<close>

fun runQueries ::
    "arcLib \<Rightarrow> (exchange \<times> hash_env \<times> (batchedDNSQuestions list \<Rightarrow> batchedDNSQuestions list) \<times> bool \<times> dnsMsg) list
       \<Rightarrow> hashServerStore \<Rightarrow> hashServerStore go" where
  "runQueries A [] st = Inr st"
| "runQueries A ((X, E, order, useCache, r) # rs) st =
     go_bind (serveHashServerUDPAPI A X E order useCache r st) (\<lambda>(_, st'). runQueries A rs st')"

lemma addsLower_run: "addsLower st \<Longrightarrow> runQueries A rs st = Inr st' \<Longrightarrow> addsLower st'"
proof (induction rs arbitrary: st)
  case (Cons x rs)
  obtain X E order u r where x: "x = (X, E, order, u, r)" by (cases x)
  with Cons.prems(2) obtain m st1 where "serveHashServerUDPAPI A X E order u r st = Inr (m, st1)"
    "runQueries A rs st1 = Inr st'" by (auto simp: go_bind_Inr_iff)
  with Cons.IH Cons.prems(1) addsLower_serve show ?case by blast
qed simp

text \<open>
  A question with an upper-case letter never hits the cache: after whatever requests the server
  has handled, a request with such a question is not answered from the cache, although the
  records of its name are stored there (under the lower-case name).
\<close>

theorem mixed_case_misses_cache:
  assumes "arc_ok A" and "arcHistory st0 = []" and "runQueries A rs st0 = Inr st"
    and "q \<in> set (Questions r)" and "\<not> is_lower (q_Name q)"
  shows "fst (queryCache A E r st) = None"
proof -
  have "addsLower st0" using assms(2) by (simp add: addsLower_def)
  then have low: "addsLower st" by (rule addsLower_run) (rule assms(3))
  have "fst (queryCacheLoop A E qs m s) = None" if "q \<in> set qs" "addsLower s" for qs m s
    using that
  proof (induction qs arbitrary: m s)
    case (Cons q' qs)
    show ?case
    proof (cases "q' = q")
      case True
      have "A (arcHistory s) (q_Name q) = None"
        by (rule arc_lower_miss [OF assms(1) Cons.prems(2) assms(5)])
      with True show ?thesis by (simp add: hashGetCacheRecords_def)
    next
      case False
      with Cons addsLower_get [OF Cons.prems(2)] show ?thesis by (simp add: split_beta)
    qed
  qed simp
  with low assms(4) show ?thesis by (simp add: queryCache_def)
qed

lemma mixed_case_misses_cache_witness:
  "fst (queryCache sampleArc (sampleHashEnv 5) (newMsg\<lparr>Questions := [\<lparr>q_Name = ''B.'', q_Qtype = TypeA\<rparr>]\<rparr>)
     sampleHashStore) = None"
proof -
  have "\<not> is_lower ''B.''" by (simp add: is_lower_def toLower_def toLowerChar_def char_of_code)
  then show ?thesis
    using mixed_case_misses_cache [of sampleArc sampleHashStore "[]" sampleHashStore
        "\<lparr>q_Name = ''B.'', q_Qtype = TypeA\<rparr>" "newMsg\<lparr>Questions := [\<lparr>q_Name = ''B.'', q_Qtype = TypeA\<rparr>]\<rparr>"]
    by (simp add: sampleHashStore_def emptyHashServerStore_def)
qed

end
