(* ===== verification/Migration.thy ===== *)
theory Migration
  imports Hash_Query
begin

text \<open>
  Migration to a new cluster, the second half of \<open>dns/dns.go\<close>: a name server of the new cluster
  asks the hash server for the clusters, switches writes off, tells every cluster about the new
  one, fetches the records the new cluster is responsible for, and tells the hash server.

  A call that may end the process while the other machines have already changed is a function on
  their state \<open>'w\<close> that returns a \<open>go\<close> and the state.
\<close>

section \<open>Calls on other machines\<close>

type_synonym ('w, 'a) io = "'w \<Rightarrow> 'a go \<times> 'w"

definition io_return :: "'a go \<Rightarrow> ('w, 'a) io" where
  "io_return r w = (r, w)"

definition io_bind :: "('w, 'a) io \<Rightarrow> ('a \<Rightarrow> ('w, 'b) io) \<Rightarrow> ('w, 'b) io" where
  "io_bind m f w = (case m w of (Inl e, w') \<Rightarrow> (Inl e, w') | (Inr a, w') \<Rightarrow> f a w')"

text \<open>Form a request and make it; either error ends the process.\<close>

definition request :: "'w http_client \<Rightarrow> string \<Rightarrow> string \<Rightarrow> string \<Rightarrow> ('w, http_response) io" where
  "request C method url body w =
     (if \<not> validURL C url then (Inl (Fatal ''cannot form request''), w)
      else case clientDo C method url body w of
          (Inl err, w') \<Rightarrow> (Inl (Fatal err), w')
        | (Inr resp, w') \<Rightarrow> (Inr resp, w'))"

section \<open>The code\<close>

definition getClusterInfo :: "'w http_client \<Rightarrow> string \<Rightarrow> ('w, jsonClusterInfo list) io" where
  "getClusterInfo C hashServer =
     io_bind (request C ''GET'' (apiURL hashServer ''/clusterinfo'') []) (\<lambda>resp.
       io_return
         (if StatusCode resp = StatusInternalServerError then Inl (Fatal ''Hash server internal server error'')
          else case decodeClusters (respBody resp) of
              None \<Rightarrow> Inl (Fatal ''json'')
            | Some jsonClusters \<Rightarrow> Inr jsonClusters))"

text \<open>The file with the new cluster; \<open>None\<close> if it cannot be read.\<close>

definition updateConfig :: "jsonClusterInfo list \<Rightarrow> string option \<Rightarrow> jsonClusterInfo list go" where
  "updateConfig cs conf = (case conf of
       None \<Rightarrow> Inl (Fatal ''Update config read failed: '')
     | Some fileContent \<Rightarrow>
         (case Option.bind (parseJson fileContent) unmarshalClusterInfo of
            None \<Rightarrow> Inl (Fatal ''Update config unmarshal:'')
          | Some newCluster \<Rightarrow> Inr (cs @ [newCluster])))"

text \<open>A request that has to be answered 204: \<open>disableWrites\<close>, \<open>enableWrites\<close>, \<open>sendClusterInfo\<close>.\<close>

definition requestNoContent :: "'w http_client \<Rightarrow> string \<Rightarrow> string \<Rightarrow> ('w, unit) io" where
  "requestNoContent C url body =
     io_bind (request C ''PUT'' url body) (\<lambda>resp.
       io_return (if StatusCode resp \<noteq> StatusNoContent then Inl (Fatal ''request failed at server side'')
                  else Inr ()))"

definition sendClusterInfo :: "'w http_client \<Rightarrow> jsonClusterInfo list \<Rightarrow> string \<Rightarrow> ('w, unit) io" where
  "sendClusterInfo C cs destIP = requestNoContent C (apiURL destIP ''/addcluster'') (encodeClusters cs)"

definition disableWrites :: "'w http_client \<Rightarrow> string \<Rightarrow> ('w, unit) io" where
  "disableWrites C hashServer = requestNoContent C (apiURL hashServer ''/disablewrite'') []"

definition enableWrites :: "'w http_client \<Rightarrow> string \<Rightarrow> ('w, unit) io" where
  "enableWrites C hashServer = requestNoContent C (apiURL hashServer ''/enablewrite'') []"

text \<open>The last word of the first member's glue record.\<close>

definition memberIP :: "jsonClusterInfo \<Rightarrow> string go" where
  "memberIP c = (case Members c of
       [] \<Rightarrow> Inl (Panic ''index out of range'')
     | m # _ \<Rightarrow> Inr (last (split CHR '' '' (GlueRecord m))))"

fun sendToClusters :: "'w http_client \<Rightarrow> jsonClusterInfo list \<Rightarrow> jsonClusterInfo list \<Rightarrow> ('w, unit) io" where
  "sendToClusters C cs [] = io_return (Inr ())"
| "sendToClusters C cs (c # rest) =
     io_bind (io_return (memberIP c)) (\<lambda>ip.
     io_bind (sendClusterInfo C cs ip) (\<lambda>_. sendToClusters C cs rest))"

definition decodeRecords :: "string \<Rightarrow> string list option" where
  "decodeRecords body = Option.bind (parseJson body) (unmarshalList unmarshalString)"

text \<open>Propose the records of one answer; false at the first that is not valid.\<close>

fun proposeRecords :: "dns_lib \<Rightarrow> gob_lib \<Rightarrow> string list \<Rightarrow> dnsStore \<Rightarrow> bool \<times> dnsStore" where
  "proposeRecords L G [] s = (True, s)"
| "proposeRecords L G (rrString # records) s =
     (if \<not> checkValidRRString L rrString then (False, s)
      else proposeRecords L G records (ProposeAddRR G rrString s))"

text \<open>
  The loop of one goroutine of \<open>retrieveRR\<close>, which has no bound: \<open>None\<close> is a loop that does not
  end. An error is handed to the main goroutine, which ends the process.
\<close>

partial_function (option) retrieveFrom ::
    "dns_lib \<Rightarrow> gob_lib \<Rightarrow> 'w http_client \<Rightarrow> string \<Rightarrow> nat \<Rightarrow> dnsStore \<Rightarrow> 'w \<Rightarrow> (unit go \<times> dnsStore \<times> 'w) option" where
  "retrieveFrom L G C addr counter s w =
     (let (res, w') = request C ''GET'' addr (decimal counter) w
      in case res of
           Inl e \<Rightarrow> Some (Inl e, s, w')
         | Inr resp \<Rightarrow>
             (case decodeRecords (respBody resp) of
                None \<Rightarrow> Some (Inl (Fatal ''retrieveRR''), s, w')
              | Some records \<Rightarrow>
                  if records = [''Done''] then Some (Inr (), s, w')
                  else (let (ok, s') = proposeRecords L G records s
                        in if ok then retrieveFrom L G C addr (Suc counter) s' w'
                           else Some (Inl (Fatal ''Recevied bad RR''), s', w'))))"

text \<open>
  \<open>retrieveRR\<close>: one goroutine for each cluster but the last. They share only the proposal channel;
  here they run one after the other in the order of the configuration.
\<close>

fun retrieveAll ::
    "dns_lib \<Rightarrow> gob_lib \<Rightarrow> 'w http_client \<Rightarrow> jsonClusterInfo list \<Rightarrow> dnsStore \<Rightarrow> 'w
       \<Rightarrow> (unit go \<times> dnsStore \<times> 'w) option" where
  "retrieveAll L G C [] s w = Some (Inr (), s, w)"
| "retrieveAll L G C (c # cs) s w =
     (case memberIP c of
        Inl e \<Rightarrow> Some (Inl e, s, w)
      | Inr ip \<Rightarrow>
          (case retrieveFrom L G C (apiURL ip ''/getrecord'') 0 s w of
             None \<Rightarrow> None
           | Some (Inl e, s', w') \<Rightarrow> Some (Inl e, s', w')
           | Some (Inr _, s', w') \<Rightarrow> retrieveAll L G C cs s' w'))"

definition retrieveRR ::
    "dns_lib \<Rightarrow> gob_lib \<Rightarrow> 'w http_client \<Rightarrow> jsonClusterInfo list \<Rightarrow> dnsStore \<Rightarrow> 'w
       \<Rightarrow> (unit go \<times> dnsStore \<times> 'w) option" where
  "retrieveRR L G C cs s w = retrieveAll L G C (butlast cs) s w"

text \<open>What happens before the records are fetched: the new configuration.\<close>

definition prepareMigration ::
    "'w http_client \<Rightarrow> string \<Rightarrow> string option \<Rightarrow> ('w, jsonClusterInfo list) io" where
  "prepareMigration C hashServer conf =
     io_bind (getClusterInfo C hashServer) (\<lambda>clusters0.
     io_bind (disableWrites C hashServer) (\<lambda>_.
     io_bind (io_return (updateConfig clusters0 conf)) (\<lambda>cs.
     io_bind (sendToClusters C cs (butlast cs)) (\<lambda>_. io_return (Inr cs)))))"

definition migrateDNS ::
    "dns_lib \<Rightarrow> gob_lib \<Rightarrow> 'w http_client \<Rightarrow> string \<Rightarrow> string option \<Rightarrow> dnsStore \<Rightarrow> 'w
       \<Rightarrow> (unit go \<times> dnsStore \<times> 'w) option" where
  "migrateDNS L G C hashServer conf s w =
     (case prepareMigration C hashServer conf w of
        (Inl e, w1) \<Rightarrow> Some (Inl e, s, w1)
      | (Inr cs, w1) \<Rightarrow>
          (case retrieveRR L G C cs s w1 of
             None \<Rightarrow> None
           | Some (Inl e, s2, w2) \<Rightarrow> Some (Inl e, s2, w2)
           | Some (Inr _, s2, w2) \<Rightarrow>
               (let (res, w3) = io_bind (sendClusterInfo C cs hashServer)
                                  (\<lambda>_. enableWrites C hashServer) w2
                in Some (res, s2, w3))))"

section \<open>A network of the modelled servers\<close>

text \<open>
  The other machines, for the properties: a hash server and name servers, in memory or paged, by
  address. A request is answered by the handlers of the machine its URL names; a machine that is
  not there, a panic of a handler or the end of a process is an error of the client.
\<close>

datatype node = FlatNode "dnsStore httpServer" | PagedNode "pagedDNSStore httpServer"

type_synonym nodes = "(string, node) fmap"

record network =
  netHashIP :: string
  netHash :: hashServerStore
  netNodes :: nodes

definition urlHost :: "string \<Rightarrow> string" where
  "urlHost u = takeWhile (\<lambda>c. c \<noteq> CHR '':'') (drop 7 u)"

definition urlPath :: "string \<Rightarrow> string" where
  "urlPath u = drop (12 + length (urlHost u)) u"

lemma apiURL_parts [simp]:
  assumes "CHR '':'' \<notin> set ip"
  shows "urlHost (apiURL ip path) = ip" "urlPath (apiURL ip path) = path"
proof -
  have "takeWhile (\<lambda>c. c \<noteq> CHR '':'') (ip @ CHR '':'' # r) = ip" for r
    using assms by (subst takeWhile_append2) auto
  then show h: "urlHost (apiURL ip path) = ip" by (simp add: urlHost_def apiURL_def)
  have "apiURL ip path = (''http://'' @ ip @ '':9121'') @ path" by (simp add: apiURL_def)
  moreover have "length (''http://'' @ ip @ '':9121'') = 12 + length ip" by simp
  ultimately show "urlPath (apiURL ip path) = path" unfolding urlPath_def h by (metis append_eq_conv_conj)
qed

definition nodeDo ::
    "node_env \<Rightarrow> string \<Rightarrow> string \<Rightarrow> string \<Rightarrow> nodes \<Rightarrow> (string + http_response) \<times> nodes" where
  "nodeDo N method u body ns =
     (let host = urlHost u; r = \<lparr>Method = method, Body = Inr body\<rparr>
      in case fmlookup ns host of
           None \<Rightarrow> (Inl ''connection refused'', ns)
         | Some (FlatNode sv) \<Rightarrow>
             (case serveHTTPAPI N (urlPath u) r sv of
                Inl _ \<Rightarrow> (Inl ''EOF'', ns)
              | Inr (resp, sv') \<Rightarrow> (Inr resp, fmupd host (FlatNode sv') ns))
         | Some (PagedNode sv) \<Rightarrow>
             (case PagedServeHTTPAPI N (urlPath u) r sv of
                Inl _ \<Rightarrow> (Inl ''EOF'', ns)
              | Inr (resp, sv') \<Rightarrow> (Inr resp, fmupd host (PagedNode sv') ns)))"

definition nodeClient :: "node_env \<Rightarrow> nodes http_client" where
  "nodeClient N = \<lparr>validURL = (\<lambda>_. True), clientDo = nodeDo N\<rparr>"

definition networkDo ::
    "node_env \<Rightarrow> hash_env \<Rightarrow> string \<Rightarrow> string \<Rightarrow> string \<Rightarrow> network \<Rightarrow> (string + http_response) \<times> network" where
  "networkDo N H method u body net =
     (if urlHost u = netHashIP net
      then (case serveHashServerHTTPAPI H (nodeClient N) (urlPath u) \<lparr>Method = method, Body = Inr body\<rparr>
                   (netHash net) (netNodes net) of
          Inl _ \<Rightarrow> (Inl ''EOF'', net)
        | Inr (resp, st', ns') \<Rightarrow> (Inr resp, net\<lparr>netHash := st', netNodes := ns'\<rparr>))
      else (let (res, ns') = nodeDo N method u body (netNodes net) in (res, net\<lparr>netNodes := ns'\<rparr>)))"

definition networkClient :: "node_env \<Rightarrow> hash_env \<Rightarrow> network http_client" where
  "networkClient N H = \<lparr>validURL = (\<lambda>_. True), clientDo = networkDo N H\<rparr>"


section \<open>Lemmas: switched-off writes\<close>

text \<open>The addresses a migration uses have no colon, so the URLs it builds name them.\<close>

definition plainIPs :: "jsonClusterInfo list \<Rightarrow> bool" where
  "plainIPs cs \<longleftrightarrow> (\<forall>c \<in> set cs. \<forall>ip. memberIP c = Inr ip \<longrightarrow> CHR '':'' \<notin> set ip)"

lemma plainIPs_simps [simp]:
  "plainIPs []" "plainIPs (c # cs) \<longleftrightarrow> (\<forall>ip. memberIP c = Inr ip \<longrightarrow> CHR '':'' \<notin> set ip) \<and> plainIPs cs"
  by (auto simp: plainIPs_def)

lemma io_bind_cases:
  assumes "io_bind m f w = (r, w')"
  shows "(\<exists>e. m w = (Inl e, w') \<and> r = Inl e) \<or> (\<exists>a w1. m w = (Inr a, w1) \<and> f a w1 = (r, w'))"
  using assms by (auto simp: io_bind_def split: prod.splits sum.splits)

text \<open>The hash server as a migration leaves it: no writes, and the clusters of the start.\<close>

definition frozen :: "network \<Rightarrow> network \<Rightarrow> bool" where
  "frozen net0 net \<longleftrightarrow> \<not> writeEnabled (netHash net) \<and> clusters (netHash net) = clusters (netHash net0) \<and>
     netHashIP net = netHashIP net0"

lemma serveHash_stays_off:
  assumes "mux_ok (hMux H)" "path \<noteq> ''/enablewrite''" "\<not> writeEnabled st"
    and "serveHashServerHTTPAPI H C path r st w = Inr (resp, st', w')"
  shows "\<not> writeEnabled st' \<and> clusters st' = clusters st"
proof (cases "hMux H [''/add'', ''/delete'', ''/clusterinfo'', ''/addcluster'', ''/disablewrite'', ''/enablewrite''] path")
  case None
  with assms(3,4) show ?thesis by (simp add: serveHashServerHTTPAPI_def)
next
  case (Some x)
  then obtain v p where x: "hMux H [''/add'', ''/delete'', ''/clusterinfo'', ''/addcluster'',
      ''/disablewrite'', ''/enablewrite''] path = Some (p, v)" by (cases x) simp
  with assms(1) have pin: "p \<in> set [''/add'', ''/delete'', ''/clusterinfo'', ''/addcluster'',
      ''/disablewrite'', ''/enablewrite'']" and cm: "couldMatch p path"
    unfolding mux_ok_def by blast+
  have "CHR 0x7B \<notin> set p" using pin by auto
  with cm have "p = path" by (simp add: couldMatch_def)
  have "path = ''/add'' \<or> path = ''/delete'' \<or> path = ''/clusterinfo'' \<or> path = ''/addcluster'' \<or>
      path = ''/disablewrite''"
    using pin assms(2) unfolding \<open>p = path\<close> by simp
  then consider "path = ''/add''" | "path = ''/delete''" | "path = ''/clusterinfo''"
    | "path = ''/addcluster''" | "path = ''/disablewrite''" by blast
  then show ?thesis
  proof cases
    case 1
    with assms(4) have "st' = st" by (simp add: serveHash_simps [OF assms(1)] go_bind_Inr_iff)
    with assms(3) show ?thesis by simp
  next
    case 2
    with assms(4) have "st' = st" by (simp add: serveHash_simps [OF assms(1)] go_bind_Inr_iff)
    with assms(3) show ?thesis by simp
  next
    case 3
    with assms(4) have "st' = st" by (simp add: serveHash_simps [OF assms(1)] go_bind_Inr_iff)
    with assms(3) show ?thesis by simp
  next
    case 4
    with assms(3,4) show ?thesis by (simp add: serveHash_simps [OF assms(1)] hashHandleAddCluster_def)
  next
    case 5
    with assms(4) have "st' = snd (hashHandleSwitch False r st)" by (simp add: serveHash_simps [OF assms(1)])
    with assms(3) show ?thesis by (simp add: hashHandleSwitch_def)
  qed
qed

lemma networkDo_frozen:
  assumes "mux_ok (hMux H)" "CHR '':'' \<notin> set ip" "path \<noteq> ''/enablewrite''" "frozen net0 net"
    and "networkDo N H m (apiURL ip path) body net = (res, net')"
  shows "frozen net0 net'"
proof (cases "ip = netHashIP net")
  case True
  show ?thesis
  proof (cases "serveHashServerHTTPAPI H (nodeClient N) path \<lparr>Method = m, Body = Inr body\<rparr>
                   (netHash net) (netNodes net)")
    case (Inl e)
    with True assms(2,4,5) show ?thesis by (simp add: networkDo_def)
  next
    case (Inr x)
    then obtain resp st' ns' where x: "serveHashServerHTTPAPI H (nodeClient N) path
        \<lparr>Method = m, Body = Inr body\<rparr> (netHash net) (netNodes net) = Inr (resp, st', ns')" by (cases x) auto
    have "\<not> writeEnabled (netHash net)" using assms(4) by (simp add: frozen_def)
    from serveHash_stays_off [OF assms(1,3) this x] x True assms(2,4,5) show ?thesis
      by (auto simp: networkDo_def frozen_def)
  qed
next
  case False
  with assms(2,4,5) show ?thesis by (auto simp: networkDo_def frozen_def split: prod.splits)
qed

lemma request_frozen:
  assumes "mux_ok (hMux H)" "CHR '':'' \<notin> set ip" "path \<noteq> ''/enablewrite''" "frozen net0 net"
    and "request (networkClient N H) m (apiURL ip path) body net = (res, net')"
  shows "frozen net0 net'"
  using assms(5) networkDo_frozen [OF assms(1-4), of N m body]
  by (auto simp: request_def networkClient_def split: prod.splits sum.splits)

lemma requestNoContent_frozen:
  assumes "mux_ok (hMux H)" "CHR '':'' \<notin> set ip" "path \<noteq> ''/enablewrite''" "frozen net0 net"
    and "requestNoContent (networkClient N H) (apiURL ip path) body net = (res, net')"
  shows "frozen net0 net'"
proof -
  from assms(5) obtain r1 where "request (networkClient N H) ''PUT'' (apiURL ip path) body net = (r1, net')"
    unfolding requestNoContent_def by (auto dest!: io_bind_cases simp: io_return_def)
  then show ?thesis by (rule request_frozen [OF assms(1-4)])
qed

lemma sendToClusters_frozen:
  assumes "mux_ok (hMux H)" "plainIPs rest"
    and "frozen net0 net" and "sendToClusters (networkClient N H) cs rest net = (res, net')"
  shows "frozen net0 net'"
  using assms(2-)
proof (induction rest arbitrary: net)
  case Nil
  then show ?case by (simp add: io_return_def)
next
  case (Cons c rest)
  show ?case
  proof (cases "memberIP c")
    case (Inl e)
    with Cons.prems show ?thesis by (auto simp: io_bind_def io_return_def)
  next
    case (Inr ip)
    obtain r1 net1 where s: "sendClusterInfo (networkClient N H) cs ip net = (r1, net1)" by fastforce
    have "CHR '':'' \<notin> set ip" using Cons.prems(1) Inr by simp
    then have f: "frozen net0 net1"
      using s Cons.prems(2) unfolding sendClusterInfo_def
      by (rule_tac requestNoContent_frozen [OF assms(1)]) auto
    show ?thesis
    proof (cases r1)
      case (Inl e)
      with s Inr Cons.prems(3) f show ?thesis by (auto simp: io_bind_def io_return_def)
    next
      case (Inr u)
      with s \<open>memberIP c = Inr ip\<close> Cons.prems(3)
      have "sendToClusters (networkClient N H) cs rest net1 = (res, net')"
        by (simp add: io_bind_def io_return_def)
      with Cons.IH [OF _ f] Cons.prems(1) show ?thesis by simp
    qed
  qed
qed

lemma retrieveFrom_frozen:
  assumes "retrieveFrom L G C addr k s net = Some y"
    and "C = networkClient N H" "addr = apiURL ip ''/getrecord''" "mux_ok (hMux H)" "CHR '':'' \<notin> set ip"
    and "frozen net0 net"
  shows "frozen net0 (snd (snd y))"
  using assms
proof (induction rule: retrieveFrom.raw_induct [rotated, consumes 1, case_names step])
  case (step f L G C addr k s net y)
  obtain r net1 where r: "request C ''GET'' addr (decimal k) net = (r, net1)" by fastforce
  have "request (networkClient N H) ''GET'' (apiURL ip ''/getrecord'') (decimal k) net = (r, net1)"
    using r step.prems(1,2) by simp
  from request_frozen [OF step.prems(3,4) _ step.prems(5) this] have fr: "frozen net0 net1" by simp
  show ?case
  proof (cases r)
    case (Inl e)
    with step.hyps r fr show ?thesis by auto
  next
    case resp: (Inr resp)
    show ?thesis
    proof (cases "decodeRecords (respBody resp)")
      case None
      with step.hyps r fr resp show ?thesis by auto
    next
      case (Some records)
      obtain ok s1 where p: "proposeRecords L G records s = (ok, s1)" by fastforce
      show ?thesis
      proof (cases "records = [''Done''] \<or> \<not> ok")
        case True
        with step.hyps r fr resp Some p show ?thesis by (auto split: if_splits)
      next
        case False
        with step.hyps r resp Some p have "f L G C addr (Suc k) s1 net1 = Some y" by simp
        from step.IH [OF this step.prems(1-4) fr] show ?thesis .
      qed
    qed
  qed
qed

lemma retrieveAll_frozen:
  assumes "mux_ok (hMux H)"
  shows "plainIPs cs \<Longrightarrow> frozen net0 net \<Longrightarrow>
    retrieveAll L G (networkClient N H) cs s net = Some (res, s', net') \<Longrightarrow> frozen net0 net'"
proof (induction cs arbitrary: s net)
  case (Cons c cs)
  show ?case
  proof (cases "memberIP c")
    case (Inl e)
    with Cons.prems show ?thesis by simp
  next
    case (Inr ip)
    have ip: "CHR '':'' \<notin> set ip" using Cons.prems(1) Inr by simp
    from Cons.prems(3) Inr obtain r1 s1 net1 where
      f: "retrieveFrom L G (networkClient N H) (apiURL ip ''/getrecord'') 0 s net = Some (r1, s1, net1)"
      by (auto split: option.splits)
    from retrieveFrom_frozen [OF f refl refl assms ip Cons.prems(2)] have fr: "frozen net0 net1" by simp
    show ?thesis
    proof (cases r1)
      case (Inl e)
      with f Inr Cons.prems(3) fr show ?thesis by auto
    next
      case (Inr u)
      with f \<open>memberIP c = Inr ip\<close> Cons.prems(3)
      have "retrieveAll L G (networkClient N H) cs s1 net1 = Some (res, s', net')" by simp
      with Cons.IH [OF _ fr] Cons.prems(1) show ?thesis by simp
    qed
  qed
qed simp


text \<open>The three requests to the hash server itself.\<close>

lemma networkDo_hash:
  assumes "CHR '':'' \<notin> set (netHashIP net)"
    and "serveHashServerHTTPAPI H (nodeClient N) path \<lparr>Method = m, Body = Inr body\<rparr> (netHash net) (netNodes net)
       = Inr (resp, st', ns')"
  shows "request (networkClient N H) m (apiURL (netHashIP net) path) body net
     = (Inr resp, net\<lparr>netHash := st', netNodes := ns'\<rparr>)"
  using assms by (simp add: request_def networkClient_def networkDo_def)

lemma getClusterInfo_hash:
  assumes "mux_ok (hMux H)" "CHR '':'' \<notin> set (netHashIP net)"
    and "getClusterInfo (networkClient N H) (netHashIP net) net = (res, net')"
  shows "net' = net \<and> (\<forall>cs. res = Inr cs \<longrightarrow> Option.bind (configFile (netHash net)) decodeClusters = Some cs)"
proof (cases "configFile (netHash net)")
  case None
  then have "request (networkClient N H) ''GET'' (apiURL (netHashIP net) ''/clusterinfo'') [] net
      = (Inl (Fatal ''EOF''), net)"
    using assms(2) by (simp add: request_def networkClient_def networkDo_def
        serveHash_simps [OF assms(1)] hashHandleClusterInfo_def)
  with assms(3) show ?thesis by (auto simp: getClusterInfo_def io_bind_def)
next
  case (Some content)
  then have "request (networkClient N H) ''GET'' (apiURL (netHashIP net) ''/clusterinfo'') [] net
      = (Inr (writeString content), net\<lparr>netHash := netHash net, netNodes := netNodes net\<rparr>)"
    by (intro networkDo_hash assms(2)) (simp add: serveHash_simps [OF assms(1)] hashHandleClusterInfo_def)
  with assms(3) Some show ?thesis
    by (auto simp: getClusterInfo_def io_bind_def io_return_def status_defs split: option.splits)
qed

lemma disableWrites_hash:
  assumes "mux_ok (hMux H)" "CHR '':'' \<notin> set (netHashIP net)"
  shows "disableWrites (networkClient N H) (netHashIP net) net
     = (Inr (), net\<lparr>netHash := (netHash net)\<lparr>writeEnabled := False\<rparr>\<rparr>)"
proof -
  have "request (networkClient N H) ''PUT'' (apiURL (netHashIP net) ''/disablewrite'') [] net
      = (Inr (writeHeader StatusNoContent), net\<lparr>netHash := (netHash net)\<lparr>writeEnabled := False\<rparr>,
           netNodes := netNodes net\<rparr>)"
    by (intro networkDo_hash assms(2)) (simp add: serveHash_simps [OF assms(1)] hashHandleSwitch_def)
  then show ?thesis
    by (simp add: disableWrites_def requestNoContent_def io_bind_def io_return_def)
qed

lemma sendClusterInfo_hash_refused:
  assumes "mux_ok (hMux H)" "CHR '':'' \<notin> set (netHashIP net)" "\<not> writeEnabled (netHash net)"
  shows "\<exists>e. sendClusterInfo (networkClient N H) cs (netHashIP net) net = (Inl e, net)"
proof -
  have "request (networkClient N H) ''PUT'' (apiURL (netHashIP net) ''/addcluster'') (encodeClusters cs) net
      = (Inr (httpError ''Write is disabled'' StatusMethodNotAllowed),
         net\<lparr>netHash := netHash net, netNodes := netNodes net\<rparr>)"
    using assms(3)
    by (intro networkDo_hash assms(2)) (simp add: serveHash_simps [OF assms(1)] hashHandleAddCluster_def)
  then show ?thesis
    by (simp add: sendClusterInfo_def requestNoContent_def io_bind_def io_return_def status_defs)
qed

lemma prepareMigration_hash:
  assumes "mux_ok (hMux H)" "CHR '':'' \<notin> set (netHashIP net)"
    and "\<And>cs. Option.bind (configFile (netHash net)) decodeClusters = Some cs \<Longrightarrow> plainIPs cs"
    and "prepareMigration (networkClient N H) (netHashIP net) conf net = (res, net')"
  shows "(net' = net \<and> (\<exists>e. res = Inl e)) \<or> (frozen net net' \<and> (\<forall>cs. res = Inr cs \<longrightarrow> plainIPs (butlast cs)))"
proof -
  let ?C = "networkClient N H"
  obtain g net1 where g: "getClusterInfo ?C (netHashIP net) net = (g, net1)" by fastforce
  note gh = getClusterInfo_hash [OF assms(1,2) g]
  show ?thesis
  proof (cases g)
    case (Inl e)
    with assms(4) g gh show ?thesis by (auto simp: prepareMigration_def io_bind_def)
  next
    case (Inr cs0)
    with gh assms(3) have plain: "plainIPs cs0" by blast
    let ?net = "net\<lparr>netHash := (netHash net)\<lparr>writeEnabled := False\<rparr>\<rparr>"
    have fr: "frozen net ?net" by (simp add: frozen_def)
    have rest: "io_bind (io_return (updateConfig cs0 conf)) (\<lambda>cs.
       io_bind (sendToClusters ?C cs (butlast cs)) (\<lambda>_. io_return (Inr cs))) ?net = (res, net')"
      using assms(4) g gh Inr disableWrites_hash [OF assms(1,2)]
      by (simp add: prepareMigration_def io_bind_def)
    show ?thesis
    proof (cases "updateConfig cs0 conf")
      case (Inl e)
      with rest fr show ?thesis by (auto simp: io_bind_def io_return_def)
    next
      case u: (Inr cs)
      then have b: "butlast cs = cs0"
        by (auto simp: updateConfig_def split: option.splits)
      obtain r net2 where send: "sendToClusters ?C cs cs0 ?net = (r, net2)" by fastforce
      from sendToClusters_frozen [OF assms(1) plain fr send] have "frozen net net2" .
      moreover have "net' = net2 \<and> (\<forall>cs'. res = Inr cs' \<longrightarrow> cs' = cs)"
        using rest u send b by (cases r) (auto simp: io_bind_def io_return_def)
      ultimately show ?thesis using plain b by auto
    qed
  qed
qed

section \<open>Properties\<close>

text \<open>
  C23. A migration never completes: whatever the clusters, their machines and the new configuration
  are, \<open>migrateDNS\<close> ends the process with an error whenever it ends. The clusters the hash server
  knows are still the old ones; and either it has not been touched, or writes are switched off at
  it and stay so. (The addresses are written without a colon.)
\<close>

theorem migration_never_completes:
  assumes "mux_ok (hMux H)" "CHR '':'' \<notin> set (netHashIP net)"
    and "\<And>cs. Option.bind (configFile (netHash net)) decodeClusters = Some cs \<Longrightarrow> plainIPs cs"
    and "migrateDNS L G (networkClient N H) (netHashIP net) conf s net = Some (res, s', net')"
  shows "(\<exists>e. res = Inl e) \<and> clusters (netHash net') = clusters (netHash net) \<and>
     (netHash net' = netHash net \<or> \<not> writeEnabled (netHash net'))"
proof -
  let ?C = "networkClient N H"
  obtain p net1 where p: "prepareMigration ?C (netHashIP net) conf net = (p, net1)" by fastforce
  note prep = prepareMigration_hash [OF assms(1-3) p]
  show ?thesis
  proof (cases p)
    case (Inl e)
    with assms(4) p prep show ?thesis by (auto simp: migrateDNS_def frozen_def)
  next
    case (Inr cs)
    with prep have fr1: "frozen net net1" and plain: "plainIPs (butlast cs)" by auto
    from assms(4) p Inr obtain r s2 net2 where
      r: "retrieveAll L G ?C (butlast cs) s net1 = Some (r, s2, net2)"
      by (auto simp: migrateDNS_def retrieveRR_def split: option.splits)
    have fr2: "frozen net net2" by (rule retrieveAll_frozen [OF assms(1) plain fr1 r])
    show ?thesis
    proof (cases r)
      case (Inl e)
      with assms(4) p \<open>p = Inr cs\<close> r fr2 show ?thesis by (auto simp: migrateDNS_def retrieveRR_def frozen_def)
    next
      case (Inr u)
      have ip: "netHashIP net2 = netHashIP net" "\<not> writeEnabled (netHash net2)"
        using fr2 by (simp_all add: frozen_def)
      then obtain e where "sendClusterInfo ?C cs (netHashIP net) net2 = (Inl e, net2)"
        using sendClusterInfo_hash_refused [OF assms(1), of net2 N cs] assms(2) by auto
      with assms(4) p \<open>p = Inr cs\<close> r Inr fr2 show ?thesis
        by (auto simp: migrateDNS_def retrieveRR_def frozen_def io_bind_def)
    qed
  qed
qed

text \<open>A hash server alone, asked by the first cluster that joins.\<close>

definition lonelyNetwork :: network where
  "lonelyNetwork = \<lparr>netHashIP = ''h'', netHash = emptyHashServerStore (Some (encodeClusters [])), netNodes = fmempty\<rparr>"

lemma migration_never_completes_witness:
  "\<forall>N. \<exists>e s' net'. migrateDNS sampleLib sampleGob (networkClient N (sampleHashEnv 5)) ''h''
        (Some (printJson (marshalClusterInfo \<lparr>ClusterToken = ''c1'', Members = []\<rparr>))) (emptyDNSStore [] 1) lonelyNetwork = Some (Inl e, s', net') \<and>
     \<not> writeEnabled (netHash net')"
proof
  fix N
  let ?conf = "Some (printJson (marshalClusterInfo \<lparr>ClusterToken = ''c1'', Members = []\<rparr>))"
  let ?C = "networkClient N (sampleHashEnv 5)"
  let ?net = "lonelyNetwork\<lparr>netHash := (netHash lonelyNetwork)\<lparr>writeEnabled := False\<rparr>\<rparr>"
  have "okJson (marshalClusterInfo \<lparr>ClusterToken = ''c1'', Members = []\<rparr>)"
    by (auto simp: marshalClusterInfo_def intro!: okJson_marshalList)
  then have upd: "updateConfig [] ?conf = Inr [\<lparr>ClusterToken = ''c1'', Members = []\<rparr>]"
    by (simp add: updateConfig_def parseJson_printJson)
  have "request ?C ''GET'' (apiURL (netHashIP lonelyNetwork) ''/clusterinfo'') [] lonelyNetwork
      = (Inr (writeString (encodeClusters [])),
         lonelyNetwork\<lparr>netHash := netHash lonelyNetwork, netNodes := netNodes lonelyNetwork\<rparr>)"
    by (rule networkDo_hash)
      (simp_all add: lonelyNetwork_def serveHash_simps hashHandleClusterInfo_def emptyHashServerStore_def)
  then have get: "getClusterInfo ?C ''h'' lonelyNetwork = (Inr [], lonelyNetwork)"
    by (simp add: getClusterInfo_def io_bind_def io_return_def status_defs lonelyNetwork_def)
  have dis: "disableWrites ?C ''h'' lonelyNetwork = (Inr (), ?net)"
    using disableWrites_hash [of "sampleHashEnv 5" lonelyNetwork N] by (simp add: lonelyNetwork_def)
  have "prepareMigration ?C ''h'' ?conf lonelyNetwork = (Inr [\<lparr>ClusterToken = ''c1'', Members = []\<rparr>], ?net)"
    by (simp add: prepareMigration_def io_bind_def io_return_def get dis upd)
  then obtain res s' net' where m: "migrateDNS sampleLib sampleGob ?C (netHashIP lonelyNetwork) ?conf
      (emptyDNSStore [] 1) lonelyNetwork = Some (res, s', net')" "net' = ?net"
    using sendClusterInfo_hash_refused [of "sampleHashEnv 5" ?net N "[\<lparr>ClusterToken = ''c1'', Members = []\<rparr>]"]
    by (auto simp: migrateDNS_def retrieveRR_def io_bind_def lonelyNetwork_def)
  have "plainIPs cs" if "Option.bind (configFile (netHash lonelyNetwork)) decodeClusters = Some cs" for cs
    using that by (simp add: lonelyNetwork_def emptyHashServerStore_def)
  from migration_never_completes [OF _ _ this m(1)] m
  show "\<exists>e s' net'. migrateDNS sampleLib sampleGob ?C ''h'' ?conf (emptyDNSStore [] 1) lonelyNetwork = Some (Inl e, s', net') \<and>
     \<not> writeEnabled (netHash net')"
    by (auto simp: lonelyNetwork_def)
qed

end
