(* ===== verification/Record_Transfer.thy ===== *)
theory Record_Transfer
  imports Migration
begin

text \<open>
  How the records reach the new cluster: the loop of \<open>retrieveRR\<close> (\<open>dns/dns.go\<close>) against the
  \<open>/getrecord\<close> handler of a member of an old cluster (\<open>dns/httpapi.go\<close>), up to the commits the
  new cluster applies. This theory has no code of its own.
\<close>

section \<open>The records of a name\<close>

text \<open>Every stored string is the text of the record it reads as.\<close>

definition canonical :: "dns_lib \<Rightarrow> storeMap \<Rightarrow> bool" where
  "canonical L st \<longleftrightarrow> (\<forall>n ty s. s \<in> set (rrsAt st n ty) \<longrightarrow>
     (\<exists>rr. parseRR L s = Some rr \<and> toLower (hdr_Name rr) = n \<and> hdr_Rrtype rr = ty \<and> RRString L rr = s))"

lemma canonicalD: "canonical L st \<Longrightarrow> s \<in> set (rrsAt st n ty) \<Longrightarrow>
    \<exists>rr. parseRR L s = Some rr \<and> toLower (hdr_Name rr) = n \<and> hdr_Rrtype rr = ty \<and> RRString L rr = s"
  by (auto simp: canonical_def)

lemma canonical_applyTo [inv_intros]:
  assumes "rr_text_roundtrip L" "canonical L st"
  shows "canonical L (applyTo L p st)"
proof (cases "ProposalType p = AddRR")
  case True
  show ?thesis
  proof (cases "parseRR L (p_RRString p)")
    case (Some rr)
    with True assms(2) rr_text_roundtrip_same [OF assms(1) Some] show ?thesis
      by (auto simp: canonical_def applyTo_def rrsAt_insert)
  qed (use True assms(2) in \<open>simp add: applyTo_def\<close>)
qed (use assms(2) in \<open>auto simp: canonical_def applyTo_def rrsAt_delete\<close>)

lemma canonical_fold:
  "rr_text_roundtrip L \<Longrightarrow> canonical L (fold (applyTo L) ps fmempty)"
  by (rule fold_inv [where P = "canonical L"]) (simp_all add: canonical_def inv_intros, simp add: canonical_def [symmetric] inv_intros)

text \<open>What one answer holds: the records of a name, if it belongs to the last cluster.\<close>

definition answerFor :: "range_env \<Rightarrow> (string \<Rightarrow> string) \<Rightarrow> dnsStore \<Rightarrow> string \<Rightarrow> string list" where
  "answerFor R owner s n =
     (if owner n = ClusterToken (last (config s)) then recordsToMigrate R n s else [])"

lemma set_recordsToMigrate:
  assumes "range_ok R"
  shows "x \<in> set (recordsToMigrate R n s) \<longleftrightarrow> (\<exists>ty. x \<in> set (rrsAt (store s) n ty))"
proof (cases "fmlookup (store s) n")
  case None
  then show ?thesis by (simp add: recordsToMigrate_def rrsAt_def)
next
  case (Some tm)
  have e: "enumerates (rangeTypes R tm) tm" using assms by (simp add: range_ok_def)
  have "ty \<in> set (rangeTypes R tm)" if "x \<in> set (fm_getl tm ty)" for ty
    using that enumerates_lookup [OF e] by (cases "fmlookup tm ty") (simp_all add: fm_getl_def)
  with Some show ?thesis by (auto simp: recordsToMigrate_def rrsAt_def)
qed

text \<open>Adding the records of a list of names leaves each name's records under its types.\<close>

definition addRecords :: "string list \<Rightarrow> dnsProposal list" where
  "addRecords rs = map addProposal rs"

lemma logContents_addRecords:
  "logContents L n ty (addRecords rs) = List.map_filter (\<lambda>x. addedAt L n ty (addProposal x)) rs"
proof -
  have "\<not> deletes n ty (addProposal r)" for r by (simp add: deletes_def addProposal_def)
  then have *: "takeWhile (\<lambda>p. \<not> deletes n ty p) (rev (map addProposal rs)) = rev (map addProposal rs)"
    by (intro takeWhile_eq_all_conv [THEN iffD2]) auto
  show ?thesis
    unfolding logContents_def addRecords_def *
    by (simp add: List.map_filter_def filter_map comp_def)
qed

lemma map_filter_concat: "List.map_filter f (concat xss) = concat (map (List.map_filter f) xss)"
  by (induction xss) (simp_all add: map_filter_simps)

lemma map_filter_all: "(\<And>x. x \<in> set xs \<Longrightarrow> f x = Some x) \<Longrightarrow> List.map_filter f xs = xs"
  by (induction xs) (simp_all add: map_filter_simps)

lemma map_filter_none: "(\<And>x. x \<in> set xs \<Longrightarrow> f x = None) \<Longrightarrow> List.map_filter f xs = []"
  by (induction xs) (simp_all add: map_filter_simps)

lemma concat_map_single:
  assumes "distinct ks" "\<And>k. k \<in> set ks \<Longrightarrow> k \<noteq> x \<Longrightarrow> f k = []"
  shows "concat (map f ks) = (if x \<in> set ks then f x else [])"
  using assms
proof (induction ks)
  case (Cons k ks)
  have "concat (map f ks) = (if x \<in> set ks then f x else [])"
    using Cons.prems by (intro Cons.IH) auto
  with Cons.prems show ?case by (cases "k = x") auto
qed simp

lemma addedAt_canonical:
  assumes "canonical L st" "x \<in> set (rrsAt st n' ty')"
  shows "addedAt L n ty (addProposal x) = (if n' = n \<and> ty' = ty then Some x else None)"
  using canonicalD [OF assms] by (auto simp: addedAt_def addProposal_def)

lemma added_of_type:
  assumes "canonical L (store s)" "range_ok R"
  shows "List.map_filter (\<lambda>x. addedAt L n ty (addProposal x)) (recordsToMigrate R n' s)
     = (if n' = n then rrsAt (store s) n ty else [])"
proof (cases "fmlookup (store s) n'")
  case None
  then show ?thesis by (auto simp: recordsToMigrate_def rrsAt_def map_filter_simps)
next
  case (Some tm)
  let ?f = "\<lambda>x. addedAt L n ty (addProposal x)"
  have e: "enumerates (rangeTypes R tm) tm" using assms(2) by (simp add: range_ok_def)
  have g: "fm_getl tm ty' = rrsAt (store s) n' ty'" for ty' using Some by (simp add: rrsAt_def)
  have "List.map_filter ?f (fm_getl tm ty') = (if n' = n \<and> ty' = ty then fm_getl tm ty' else [])" for ty'
    using addedAt_canonical [OF assms(1)] unfolding g
    by (auto intro!: map_filter_all map_filter_none)
  then have "List.map_filter ?f (recordsToMigrate R n' s)
      = concat (map (\<lambda>ty'. if n' = n \<and> ty' = ty then fm_getl tm ty' else []) (rangeTypes R tm))"
    using Some by (simp add: recordsToMigrate_def map_filter_concat comp_def)
  also have "\<dots> = (if ty \<in> set (rangeTypes R tm) then if n' = n then fm_getl tm ty else [] else [])"
    using e by (subst concat_map_single [where x = ty]) (auto simp: enumerates_def)
  also have "\<dots> = (if n' = n then rrsAt (store s) n ty else [])"
    using enumerates_lookup [OF e, of ty] g [of ty] by (auto simp: fm_getl_def)
  finally show ?thesis .
qed

lemma added_of_names:
  assumes "canonical L (store s)" "range_ok R" "enumerates names (store s)"
  shows "logContents L n ty (addRecords (concat (map (answerFor R owner s) names)))
     = (if owner n = ClusterToken (last (config s)) then rrsAt (store s) n ty else [])"
proof -
  let ?f = "\<lambda>x. addedAt L n ty (addProposal x)"
  have page: "List.map_filter ?f (answerFor R owner s n')
      = (if n' = n \<and> owner n = ClusterToken (last (config s)) then rrsAt (store s) n ty else [])" for n'
    using added_of_type [OF assms(1,2)] by (auto simp: answerFor_def map_filter_simps)
  have "logContents L n ty (addRecords (concat (map (answerFor R owner s) names)))
      = concat (map (\<lambda>n'. List.map_filter ?f (answerFor R owner s n')) names)"
    by (simp add: logContents_addRecords map_filter_concat comp_def)
  also have "\<dots> = (if n \<in> set names then List.map_filter ?f (answerFor R owner s n) else [])"
    using assms(3) by (intro concat_map_single) (auto simp: enumerates_def page)
  also have "\<dots> = (if owner n = ClusterToken (last (config s)) then rrsAt (store s) n ty else [])"
    using enumerates_lookup [OF assms(3), of n] by (auto simp: page rrsAt_def)
  finally show ?thesis .
qed


section \<open>The loop of \<open>retrieveRR\<close>\<close>

text \<open>
  The hypotheses about the server: it knows the clusters, its library places every name, and its
  store is one that commits can build.
\<close>

record source =
  srcEnv :: node_env
  srcOwner :: "string \<Rightarrow> string"

definition source_ok :: "dns_lib \<Rightarrow> source \<Rightarrow> dnsStore \<Rightarrow> bool" where
  "source_ok L S s \<longleftrightarrow> mux_ok (envMux (srcEnv S)) \<and> range_ok (envRange (srcEnv S)) \<and>
     canonical L (store s) \<and> fm_len (store s) < 2 ^ 63 \<and> config s \<noteq> [] \<and>
     (\<exists>ring. lookup s = Some ring \<and> (\<forall>n. envLocate (srcEnv S) ring n = Inr (srcOwner S n)))"

text \<open>The names the handler indexes for a request: those it kept, and at index 0 the store's as well.\<close>

definition namesAt :: "source \<Rightarrow> nat \<Rightarrow> dnsStore httpServer \<Rightarrow> string list" where
  "namesAt S k sv =
     (if k = 0 then domainNames sv @ rangeStore (envRange (srcEnv S)) (store (srvStore sv)) else domainNames sv)"

abbreviation pageAt :: "source \<Rightarrow> dnsStore \<Rightarrow> string \<Rightarrow> string list" where
  "pageAt S s \<equiv> answerFor (envRange (srcEnv S)) (srcOwner S) s"

lemma decode_marshalRecords: "decodeRecords (marshalRecords rs) = Some rs"
proof (cases "rs = []")
  case True
  then show ?thesis
    by (simp add: decodeRecords_def marshalRecords_def parseJson_printJson unmarshalList_def del: printJson.simps)
next
  case False
  have "okJson (marshalList JString rs)" by (intro okJson_marshalList) simp
  with False show ?thesis
    by (simp add: decodeRecords_def marshalRecords_def parseJson_printJson unmarshalList_marshalList)
qed

lemma request_record:
  assumes "source_ok L S (srvStore sv)" "CHR '':'' \<notin> set ip" "fmlookup ns ip = Some (FlatNode sv)"
  shows
    "fm_len (store (srvStore sv)) = k \<Longrightarrow>
       \<exists>resp. request (nodeClient (srcEnv S)) ''GET'' (apiURL ip ''/getrecord'') (decimal k) ns = (Inr resp, ns) \<and>
         decodeRecords (respBody resp) = Some [''Done'']"
    "k < fm_len (store (srvStore sv)) \<Longrightarrow> k < length (namesAt S k sv) \<Longrightarrow>
       \<exists>resp. request (nodeClient (srcEnv S)) ''GET'' (apiURL ip ''/getrecord'') (decimal k) ns
           = (Inr resp, fmupd ip (FlatNode (sv\<lparr>domainNames := namesAt S k sv\<rparr>)) ns) \<and>
         decodeRecords (respBody resp) = Some (pageAt S (srvStore sv) (namesAt S k sv ! k))"
proof -
  obtain ring where ok: "mux_ok (envMux (srcEnv S))" "lookup (srvStore sv) = Some ring"
      "\<And>n. envLocate (srcEnv S) ring n = Inr (srcOwner S n)" "config (srvStore sv) \<noteq> []"
      "fm_len (store (srvStore sv)) < 2 ^ 63"
    using assms(1) unfolding source_ok_def by blast
  have same: "fmupd ip (FlatNode sv) ns = ns" using assms(3) by (intro fmap_ext) auto
  show "\<exists>resp. request (nodeClient (srcEnv S)) ''GET'' (apiURL ip ''/getrecord'') (decimal k) ns = (Inr resp, ns) \<and>
         decodeRecords (respBody resp) = Some [''Done'']" if "fm_len (store (srvStore sv)) = k"
    using that ok(5) assms(2,3) same
    by (simp add: request_def nodeClient_def nodeDo_def serveHTTPAPI_getrecord [OF ok(1)]
        handleGetRecord_def decode_marshalRecords)
  show "\<exists>resp. request (nodeClient (srcEnv S)) ''GET'' (apiURL ip ''/getrecord'') (decimal k) ns
           = (Inr resp, fmupd ip (FlatNode (sv\<lparr>domainNames := namesAt S k sv\<rparr>)) ns) \<and>
         decodeRecords (respBody resp) = Some (pageAt S (srvStore sv) (namesAt S k sv ! k))"
    if "k < fm_len (store (srvStore sv))" "k < length (namesAt S k sv)"
  proof -
    have h: "handleGetRecord (envLocate (srcEnv S)) (envRange (srcEnv S)) \<lparr>Method = ''GET'', Body = Inr (decimal k)\<rparr>
        (domainNames sv) (srvStore sv)
      = Inr (writeString (marshalRecords (pageAt S (srvStore sv) (namesAt S k sv ! k))), namesAt S k sv)"
      using that ok by (auto simp: handleGetRecord_def shouldMigrate_def answerFor_def namesAt_def Let_def)
    show ?thesis
      using assms(2,3) 
      by (simp add: request_def nodeClient_def nodeDo_def serveHTTPAPI_getrecord [OF ok(1)] h decode_marshalRecords)
  qed
qed

lemma proposeRecords_all:
  "(\<And>r. r \<in> set rs \<Longrightarrow> parseRR L r \<noteq> None) \<Longrightarrow>
     proposeRecords L G rs s = (True, s\<lparr>proposeC := proposeC s @ map (gobEncode G) (addRecords rs)\<rparr>)"
  by (induction rs arbitrary: s) (simp_all add: addRecords_def checkValidRRString_iff ProposeAddRR_def)

lemma page_parses:
  assumes "source_ok L S s" "r \<in> set (pageAt S s n)"
  shows "parseRR L r \<noteq> None"
  using assms set_recordsToMigrate [of "envRange (srcEnv S)" r n s]
  by (auto simp: source_ok_def answerFor_def split: if_splits dest: canonicalD)

lemma retrieve_loop:
  assumes "source_ok L S (srvStore sv)" "CHR '':'' \<notin> set ip" "parseRR L ''Done'' = None"
    and "fmlookup ns ip = Some (FlatNode sv)" and "namesAt S k sv = names"
    and "fm_len (store (srvStore sv)) = k + j" "k + j \<le> length names"
  shows "\<exists>sv'. retrieveFrom L G (nodeClient (srcEnv S)) (apiURL ip ''/getrecord'') k s ns
     = Some (Inr (), s\<lparr>proposeC := proposeC s @
           map (gobEncode G) (addRecords (concat (map (pageAt S (srvStore sv)) (take j (drop k names)))))\<rparr>,
         fmupd ip (FlatNode sv') ns) \<and> srvStore sv' = srvStore sv"
  using assms
proof (induction j arbitrary: k s sv ns)
  case 0
  from request_record(1) [OF 0(1,2,4), of k] 0(6) obtain resp where
    "request (nodeClient (srcEnv S)) ''GET'' (apiURL ip ''/getrecord'') (decimal k) ns = (Inr resp, ns)"
    "decodeRecords (respBody resp) = Some [''Done'']" by auto
  moreover have "fmupd ip (FlatNode sv) ns = ns" using 0(4) by (intro fmap_ext) auto
  ultimately show ?case
    by (subst retrieveFrom.simps, intro exI [of _ sv]) (simp add: addRecords_def)
next
  case (Suc j)
  let ?st = "srvStore sv" and ?sv = "sv\<lparr>domainNames := names\<rparr>"
  let ?rs = "pageAt S ?st (names ! k)" and ?ns = "fmupd ip (FlatNode (sv\<lparr>domainNames := names\<rparr>)) ns"
  have k: "k < fm_len (store ?st)" "k < length names" using Suc.prems(6,7) by auto
  from request_record(2) [OF Suc.prems(1,2,4), of k] k Suc.prems(5) obtain resp where
    req: "request (nodeClient (srcEnv S)) ''GET'' (apiURL ip ''/getrecord'') (decimal k) ns = (Inr resp, ?ns)"
    "decodeRecords (respBody resp) = Some ?rs" by auto
  have valid: "\<And>r. r \<in> set ?rs \<Longrightarrow> parseRR L r \<noteq> None" by (rule page_parses [OF Suc.prems(1)])
  with Suc.prems(3) have "?rs \<noteq> [''Done'']" by fastforce
  let ?s = "s\<lparr>proposeC := proposeC s @ map (gobEncode G) (addRecords ?rs)\<rparr>"
  have step: "retrieveFrom L G (nodeClient (srcEnv S)) (apiURL ip ''/getrecord'') k s ns
      = retrieveFrom L G (nodeClient (srcEnv S)) (apiURL ip ''/getrecord'') (Suc k) ?s ?ns"
    using \<open>?rs \<noteq> [''Done'']\<close> proposeRecords_all [OF valid, where G = G and s = s]
    by (subst retrieveFrom.simps) (simp add: req)
  have take: "take (Suc j) (drop k names) = names ! k # take j (drop (Suc k) names)"
    using k(2) by (simp add: Cons_nth_drop_Suc [symmetric])
  have "\<exists>sv'. retrieveFrom L G (nodeClient (srcEnv S)) (apiURL ip ''/getrecord'') (Suc k) ?s ?ns
     = Some (Inr (), ?s\<lparr>proposeC := proposeC ?s @
           map (gobEncode G) (addRecords (concat (map (pageAt S (srvStore ?sv)) (take j (drop (Suc k) names)))))\<rparr>,
         fmupd ip (FlatNode sv') ?ns) \<and> srvStore sv' = srvStore ?sv"
    using Suc.prems by (intro Suc.IH) (simp_all add: namesAt_def)
  then show ?case unfolding step take by (simp add: addRecords_def)
qed

section \<open>A sample server\<close>

definition sampleNodeEnv :: node_env where
  "sampleNodeEnv = \<lparr>envLib = sampleLib, envGob = sampleGob, envEnv = sampleEnv 0, envLocate = sampleLocate,
     envRange = \<lparr>rangeStore = (\<lambda>m. map fst (sorted_list_of_fmap m)),
                 rangeTypes = (\<lambda>m. map fst (sorted_list_of_fmap m))\<rparr>, envMux = sampleMux\<rparr>"

text \<open>A member of an old cluster that stores one address and gives every name to the new cluster \<open>c2\<close>.\<close>

definition sampleMember :: "string list \<Rightarrow> string \<Rightarrow> dnsStore httpServer" where
  "sampleMember names n = \<lparr>srvStore = (emptyDNSStore [] 1)\<lparr>
       store := fold (applyTo sampleLib) [addProposal (RRString sampleLib (sampleRR n TypeA ''10.0.0.1''))] fmempty,
       config := [\<lparr>ClusterToken = ''c2'', Members = []\<rparr>], lookup := Some (newRing 1 [''c2''])\<rparr>,
     domainNames = names, confChangeC = []\<rparr>"

lemma fm_len_single [simp]: "fm_len (fmupd k v fmempty) = 1"
proof -
  have "fcard {|k|} = 1" by (simp add: fcard_fempty fcard_finsert_if)
  then show ?thesis by (simp add: fm_len_def)
qed

lemma enumerates_sorted:
  fixes m :: "('k :: linorder, 'v) fmap"
  shows "enumerates (map fst (sorted_list_of_fmap m)) m"
proof -
  have "set (map fst (sorted_list_of_fmap m)) = fmdom' m"
    using dom_map_of_conv_image_fst [of "sorted_list_of_fmap m"] by simp
  then show ?thesis by (simp add: enumerates_def distinct_sorted_list_of_fmap)
qed

lemma sampleNodeEnv_simps [simp]:
  "mux_ok (envMux sampleNodeEnv)" "range_ok (envRange sampleNodeEnv)"
  "envLocate sampleNodeEnv (newRing n [''c2'']) m = Inr ''c2''"
  by (simp_all add: sampleNodeEnv_def range_ok_def sampleLocate_def newRing_def enumerates_sorted)

lemma sampleMember_store:
  "store (srvStore (sampleMember names n))
      = fold (applyTo sampleLib) [addProposal (RRString sampleLib (sampleRR n TypeA ''10.0.0.1''))] fmempty"
  by (simp add: sampleMember_def)

lemma sampleMember_simps [simp]:
  assumes "CHR '' '' \<notin> set n"
  shows "fm_len (store (srvStore (sampleMember names n))) = 1"
    "domainNames (sampleMember names n) = names"
    "config (srvStore (sampleMember names n)) = [\<lparr>ClusterToken = ''c2'', Members = []\<rparr>]"
    "lookup (srvStore (sampleMember names n)) = Some (newRing 1 [''c2''])"
  using assms by (simp_all add: sampleMember_def applyTo_def addProposal_def sampleLib_parse storeInsert_def)

lemma sampleMember_log:
  "CHR '' '' \<notin> set n \<Longrightarrow>
     logContents sampleLib (toLower n) TypeA [addProposal (RRString sampleLib (sampleRR n TypeA ''10.0.0.1''))]
       = [RRString sampleLib (sampleRR n TypeA ''10.0.0.1'')]"
  by (simp add: logContents_def deletes_def addedAt_def addProposal_def sampleLib_parse map_filter_simps)

section \<open>Properties\<close>



text \<open>
  Names added since are not fetched: the handler never clears the names it collected at index
  0, so from the second time on the loop only asks for the first of the names it collected the
  first time; as long as the store has not more names than it had then, no record of a name that
  was added since is proposed.
\<close>

theorem later_names_are_not_fetched:
  assumes "source_ok L S (srvStore sv)" "parseRR L ''Done'' = None"
    and "CHR '':'' \<notin> set ip" "fmlookup ns ip = Some (FlatNode sv)"
    and "fm_len (store (srvStore sv)) \<le> length (domainNames sv)" "n \<notin> set (domainNames sv)"
    and "retrieveFrom L G (nodeClient (srcEnv S)) (apiURL ip ''/getrecord'') 0 s ns = Some (res, s', ns')"
  shows "\<exists>qs. res = Inr () \<and> proposeC s' = proposeC s @ map (gobEncode G) qs \<and>
     (\<forall>ty. logContents L n ty qs = [])"
proof -
  let ?st = "srvStore sv" and ?names = "namesAt S 0 sv"
  let ?used = "take (fm_len (store ?st)) (domainNames sv)"
  let ?qs = "addRecords (concat (map (pageAt S ?st) ?used))"
  have t: "take (fm_len (store ?st)) ?names = ?used"
    using assms(5) by (simp add: namesAt_def)
  have "fm_len (store ?st) \<le> length ?names" using assms(5) by (simp add: namesAt_def)
  with retrieve_loop [OF assms(1,3,2,4) refl, of 0 "fm_len (store ?st)" G s] assms(7) t
  have "res = Inr () \<and> proposeC s' = proposeC s @ map (gobEncode G) ?qs" by auto
  moreover have "logContents L n ty ?qs = []" for ty
  proof -
    have ok: "canonical L (store ?st)" "range_ok (envRange (srcEnv S))" using assms(1) by (auto simp: source_ok_def)
    have "List.map_filter (\<lambda>x. addedAt L n ty (addProposal x)) (pageAt S ?st n') = []" if "n' \<in> set ?used" for n'
      using added_of_type [OF ok] that assms(6) in_set_takeD by (fastforce simp: answerFor_def map_filter_simps)
    then show ?thesis by (simp add: logContents_addRecords map_filter_concat)
  qed
  ultimately show ?thesis by blast
qed

text \<open>The server was asked when it stored \<open>a.\<close>; since then \<open>b.\<close> has taken its place.\<close>

lemma later_names_are_not_fetched_witness:
  "\<exists>s' ns' qs. retrieveFrom sampleLib sampleGob (nodeClient sampleNodeEnv) (apiURL ''10.0.0.1'' ''/getrecord'') 0
        (emptyDNSStore [] 2) (fmupd ''10.0.0.1'' (FlatNode (sampleMember [''a.''] ''b.'')) fmempty) = Some (Inr (), s', ns') \<and>
      proposeC s' = map (gobEncode sampleGob) qs \<and> (\<forall>ty. logContents sampleLib ''b.'' ty qs = [])"
proof -
  let ?sv = "sampleMember [''a.''] ''b.''"
  let ?ns = "fmupd ''10.0.0.1'' (FlatNode ?sv) fmempty"
  let ?S = "\<lparr>srcEnv = sampleNodeEnv, srcOwner = \<lambda>_. ''c2''\<rparr>"
  have dn: "parseRR sampleLib ''Done'' = None"
    by (simp add: parseRR_def sampleLib_def sampleParse_def)
  have "canonical sampleLib (store (srvStore ?sv))"
    unfolding sampleMember_store by (rule canonical_fold [OF sampleLib_roundtrip])
  then have ok: "source_ok sampleLib ?S (srvStore ?sv)"
    unfolding source_ok_def by auto
  from retrieve_loop [OF ok _ dn, of "''10.0.0.1''" ?ns 0 "namesAt ?S 0 ?sv" 1 sampleGob "emptyDNSStore [] 2"]
  obtain s' ns' where ret: "retrieveFrom sampleLib sampleGob (nodeClient sampleNodeEnv)
      (apiURL ''10.0.0.1'' ''/getrecord'') 0 (emptyDNSStore [] 2) ?ns = Some (Inr (), s', ns')"
    by (auto simp: namesAt_def)
  with later_names_are_not_fetched [OF ok dn, of "''10.0.0.1''" ?ns "''b.''" sampleGob "emptyDNSStore [] 2" "Inr ()" s' ns']
  show ?thesis by (auto simp: emptyDNSStore_def)
qed

end
