(* ===== verification/Hash_Forward.thy ===== *)
theory Hash_Forward
  imports Record_Transfer
begin

text \<open>
  The path of a write: the hash server's \<open>/add\<close> (\<open>dns/hash_server/hash_server.go\<close>), the member it
  forwards to (\<open>dns/httpapi.go\<close>, \<open>dns/paged_httpapi.go\<close>) and the proposal that member sends. This
  theory has no code of its own; the machines are those of the network of \<open>Migration\<close>.
\<close>

section \<open>Running members\<close>

definition proposals :: "node \<Rightarrow> string list" where
  "proposals nd = (case nd of FlatNode sv \<Rightarrow> proposeC (srvStore sv) | PagedNode sv \<Rightarrow> proposeC (srvStore sv))"

text \<open>A member with a readable address, at which a server runs.\<close>

definition running :: "nodes \<Rightarrow> nsInfo \<Rightarrow> bool" where
  "running ns m \<longleftrightarrow> (\<exists>ip nd. rr_data (glueRecord m) = RD_A ip \<and> CHR '':'' \<notin> set ip \<and> fmlookup ns ip = Some nd)"

definition addressOf :: "nsInfo \<Rightarrow> string" where
  "addressOf m = ipString (getIPFromARecord (glueRecord m))"

lemma PagedServeHTTPAPI_add:
  "mux_ok (envMux N) \<Longrightarrow> PagedServeHTTPAPI N ''/add'' r sv =
     Inr (fst (handleAdd (envLib N) (envGob N) r (srvStore sv)),
          sv\<lparr>srvStore := snd (handleAdd (envLib N) (envGob N) r (srvStore sv))\<rparr>)"
  unfolding PagedServeHTTPAPI_def by (subst mux_hit) (simp_all add: couldMatch_defs split_beta)

text \<open>A running member accepts a valid record and proposes it; nothing else changes.\<close>

lemma nodeDo_add:
  assumes "mux_ok (envMux N)" "fmlookup ns ip = Some nd" "CHR '':'' \<notin> set ip" "parseRR (envLib N) b \<noteq> None"
  shows "\<exists>nd'. nodeDo N ''PUT'' (apiURL ip ''/add'') b ns = (Inr (writeHeader StatusNoContent), fmupd ip nd' ns) \<and>
     proposals nd' = proposals nd @ [gobEncode (envGob N) (addProposal b)]"
  using assms
  by (cases nd) (auto simp: nodeDo_def serveHTTPAPI_add PagedServeHTTPAPI_add handleAdd_def
      checkValidRRString_iff ProposeAddRR_def proposals_def)

lemma forwardWrite_add:
  assumes "mux_ok (envMux N)" "running ns m" "parseRR (envLib N) b \<noteq> None"
  shows "\<exists>nd nd'. forwardWrite (nodeClient N) ''/add'' m b ns
         = Inr (writeHeader StatusNoContent, fmupd (addressOf m) nd' ns) \<and>
       fmlookup ns (addressOf m) = Some nd \<and>
       proposals nd' = proposals nd @ [gobEncode (envGob N) (addProposal b)]"
proof -
  from assms(2) obtain ip nd where ip: "rr_data (glueRecord m) = RD_A ip" "CHR '':'' \<notin> set ip" "fmlookup ns ip = Some nd"
    unfolding running_def by blast
  then have a: "addressOf m = ip" by (simp add: addressOf_def getIPFromARecord_def ipString_def)
  from nodeDo_add [OF assms(1) ip(3,2) assms(3)] obtain nd' where
    "nodeDo N ''PUT'' (apiURL ip ''/add'') b ns = (Inr (writeHeader StatusNoContent), fmupd ip nd' ns)"
    "proposals nd' = proposals nd @ [gobEncode (envGob N) (addProposal b)]" by blast
  then show ?thesis
    using ip a by (auto simp: forwardWrite_def Let_def nodeClient_def addressOf_def)
qed

text \<open>A member that is not there: the client's error is not looked at.\<close>

lemma forwardWrite_unreachable:
  assumes "CHR '':'' \<notin> set (addressOf m)" "fmlookup ns (addressOf m) = None"
  shows "forwardWrite (nodeClient N) path m b ns = Inl (Panic ''invalid memory address or nil pointer dereference'')"
  using assms by (simp add: forwardWrite_def Let_def nodeClient_def nodeDo_def addressOf_def)

section \<open>Properties\<close>


text \<open>
  A write to a member that is down is not answered: if the member that was picked is not there,
  the handler of \<open>/add\<close> panics on the response it has not got, although the other members of the
  cluster could have taken the write.
\<close>

theorem write_to_dead_member_panics:
  assumes "mux_ok (hMux H)" "writeEnabled st" "parseRR (hLib H) b = Some rr"
    and "hLocate H (hashLookup st) (hdr_Name rr) = Inr t" "fmlookup (clusters st) (clusterToken t) = Some c"
    and "m = members c ! (hRand H mod length (members c))" "members c \<noteq> []"
    and "CHR '':'' \<notin> set (addressOf m)" "fmlookup ns (addressOf m) = None"
  shows "serveHashServerHTTPAPI H (nodeClient N) ''/add'' \<lparr>Method = ''PUT'', Body = Inr b\<rparr> st ns
     = Inl (Panic ''invalid memory address or nil pointer dereference'')"
  using assms forwardWrite_unreachable [OF assms(8,9), of N "''/add''" b]
  by (simp add: serveHash_simps [OF assms(1)] hashHandleAdd_def clusterAt_def pickMember_def)

section \<open>Witnesses\<close>

definition sampleNodes :: nodes where
  "sampleNodes = fmap_of_list [(''10.0.0.1'', FlatNode (sampleMember [] ''a.'')), (''10.0.0.2'', FlatNode (sampleMember [] ''a.''))]"

lemma sampleHashStore_simps [simp]:
  "writeEnabled sampleHashStore" "hashLookup sampleHashStore = newRing 1 [''c1'']"
  "fmlookup (clusters sampleHashStore) (clusterToken ''c1'') = Some \<lparr>token = clusterToken ''c1'',
     members = [sampleServer 0 ''10.0.0.1'', sampleServer 1 ''10.0.0.2'']\<rparr>"
  by (simp_all add: sampleHashStore_def emptyHashServerStore_def)

lemma sampleServer_address [simp]: "addressOf (sampleServer i ip) = ip"
  by (simp add: addressOf_def sampleServer_def getIPFromARecord_def ipString_def sampleData_def)

lemma sampleServer_running: "CHR '':'' \<notin> set ip \<Longrightarrow> fmlookup ns ip = Some nd \<Longrightarrow> running ns (sampleServer i ip)"
  by (simp add: running_def sampleServer_def sampleData_def)


lemma write_to_dead_member_panics_witness:
  "serveHashServerHTTPAPI (sampleHashEnv 5) (nodeClient sampleNodeEnv) ''/add''
      \<lparr>Method = ''PUT'', Body = Inr (RRString sampleLib (sampleRR ''b.'' TypeA ''10.0.0.9''))\<rparr> sampleHashStore
      (fmdrop ''10.0.0.1'' sampleNodes)
    = Inl (Panic ''invalid memory address or nil pointer dereference'')"
proof -
  let ?b = "RRString sampleLib (sampleRR ''b.'' TypeA ''10.0.0.9'')"
  have b: "parseRR (hLib (sampleHashEnv 5)) ?b = Some (sampleRR ''b.'' TypeA ''10.0.0.9'')"
    by (simp add: sampleLib_parse)
  have t: "hLocate (sampleHashEnv 5) (hashLookup sampleHashStore) (hdr_Name (sampleRR ''b.'' TypeA ''10.0.0.9'')) = Inr ''c1''"
    by (simp add: sampleLocate_def newRing_def)
  have "mux_ok (hMux (sampleHashEnv 5))" by simp
  from write_to_dead_member_panics [OF this sampleHashStore_simps(1) b t sampleHashStore_simps(3) refl] show ?thesis
    by simp
qed

end
