(* ===== verification/End_To_End.thy ===== *)
theory End_To_End
  imports Hash_Forward
begin

text \<open>
  The path of a question: the hash server's DNS handler (\<open>dns/hash_server/hash_server.go\<close>), its
  exchange with the name servers of a cluster, their resolution (\<open>dns/dns.go\<close>, \<open>dns/paged_dns.go\<close>)
  and the log their stores hold. This theory has no code of its own.
\<close>

section \<open>Exchanges with modelled servers\<close>

text \<open>
  The reply of the server at an address; an address without a server, and a server that does not
  return, is a timeout. What a question changes in a server's cache is not kept.
\<close>

definition dnsExchange ::
    "node_env \<Rightarrow> (string \<Rightarrow> 64 word) \<Rightarrow> (dnsMsg \<Rightarrow> dnsMsg) \<Rightarrow> (dnsMsg \<Rightarrow> dnsMsg option) \<Rightarrow> nodes \<Rightarrow> exchange" where
  "dnsExchange N H setReply upstream ns addr m =
     (let reply = (case fmlookup ns (take (length addr - 3) addr) of
            None \<Rightarrow> None
          | Some (FlatNode sv) \<Rightarrow>
              map_option fst (ProcessDNSQuery (envLib N) (envEnv N) setReply upstream m (srvStore sv))
          | Some (PagedNode sv) \<Rightarrow>
              map_option fst (PagedProcessDNSQuery H (envLib N) (envEnv N) setReply upstream m (srvStore sv)))
      in case reply of None \<Rightarrow> (None, Some ''i/o timeout'') | Some x \<Rightarrow> (Some x, None))"

text \<open>A server whose store, in memory or paged, holds a record map.\<close>

definition holds :: "(string \<Rightarrow> 64 word) \<Rightarrow> storeMap \<Rightarrow> node \<Rightarrow> bool" where
  "holds H m nd = (case nd of
       FlatNode sv \<Rightarrow> store (srvStore sv) = m
     | PagedNode sv \<Rightarrow> paged_ready (srvStore sv) \<and> pagedNames H (srvStore sv) = m)"

context name_finder
begin

lemma process_exact:
  assumes "ok s" "Questions req = [q]"
    and "parseRRs L (rrsAt (names s) (toLower (q_Name q)) (q_Qtype q)) \<noteq> []"
  shows "\<exists>s'. ProcessQuery look L E setReply exchange req s
     = Some ((setReply req)\<lparr>Answer := Answer (setReply req) @
           parseRRs L (rrsAt (names s) (toLower (q_Name q)) (q_Qtype q)), RecursionAvailable := True\<rparr>, s')"
  using assms by (simp add: ProcessQuery_def handle_step [OF assms(1) refl] Let_def)

end

lemma serverAddr_addressOf: "serverAddr m = addressOf m @ '':53''"
  by (simp add: serverAddr_def addressOf_def)

lemma dnsExchange_up:
  assumes "fmlookup ns ip = Some nd" "holds H st nd" "Questions m = [q]"
    and "parseRRs (envLib N) (rrsAt st (toLower (q_Name q)) (q_Qtype q)) \<noteq> []"
  shows "dnsExchange N H setReply upstream ns (ip @ '':53'') m
     = (Some ((setReply m)\<lparr>Answer := Answer (setReply m) @
           parseRRs (envLib N) (rrsAt st (toLower (q_Name q)) (q_Qtype q)), RecursionAvailable := True\<rparr>), None)"
proof (cases nd)
  case (FlatNode sv)
  with assms show ?thesis
    using ff.process_exact [OF cacheFrame_refl assms(3), of "envLib N" "srvStore sv" "envEnv N" setReply upstream]
    by (auto simp: dnsExchange_def holds_def ProcessDNSQuery_def)
next
  case (PagedNode sv)
  with assms show ?thesis
    using pf.process_exact [of "srvStore sv" m q "envLib N" H "envEnv N" setReply upstream]
    by (auto simp: dnsExchange_def holds_def PagedProcessDNSQuery_def)
qed

lemma dnsExchange_down:
  "fmlookup ns ip = None \<Longrightarrow> snd (dnsExchange N H setReply upstream ns (ip @ '':53'') m) \<noteq> None"
  by (simp add: dnsExchange_def)

section \<open>One question\<close>

text \<open>A request with one question makes one batch; its reply is what the first reachable server sends.\<close>

lemma single_question:
  assumes "fair_shuffle E" "\<And>bs. mset (order bs) = mset bs" "Questions r = [q]"
    and "hLocate E (hashLookup st) (q_Name q) = Inr t" "fmlookup (clusters st) (clusterToken t) = Some c"
    and "\<exists>m \<in> set (members c). reachable X (newMsg\<lparr>RecursionDesired := RecursionDesired r, Questions := [q]\<rparr>) m"
    and "\<And>m. m \<in> set (members c) \<Longrightarrow>
           reachable X (newMsg\<lparr>RecursionDesired := RecursionDesired r, Questions := [q]\<rparr>) m \<Longrightarrow>
           \<exists>x. fst (X (serverAddr m) (newMsg\<lparr>RecursionDesired := RecursionDesired r, Questions := [q]\<rparr>)) = Some x \<and>
             hasAnswer x q \<and> Answer x = rrs"
  shows "\<exists>reply st'. serveHashServerUDPAPI A X E order False r st = Inr (reply, st') \<and>
     Answer reply = rrs \<and> Id reply = Id r \<and> Response reply"
proof -
  let ?m = "newMsg\<lparr>RecursionDesired := RecursionDesired r, Questions := [q]\<rparr>"
  let ?servers = "getPreferredServerIPsInOrder E st (members c)"
  let ?b = "\<lparr>batchToken = clusterToken t, chosenServers = ?servers, batchQuestions = [q]\<rparr>"
  have servers: "set ?servers = set (members c)" by (rule preferred_set [OF assms(1)])
  have batches: "makeBatches E st (Questions r) [] = Inr [?b]"
    using assms(3-5) by (simp add: clusterAt_def)
  have order: "order [?b] = [?b]" using assms(2) [of "[?b]"] by simp
  obtain inMsg err alive' where send: "sendDNSMsgUntilSuccess X (hNow E) ?m ?servers (None, None) (aliveSince st)
      = ((inMsg, err), alive')" by (metis surj_pair)
  with send_cases [of ?servers X ?m "hNow E" "(None, None)" "aliveSince st"] assms(6) servers
  obtain s where s: "s \<in> set (members c)" "reachable X ?m s" "(inMsg, err) = (fst (X (serverAddr s) ?m), None)"
    by auto
  from assms(7) [OF s(1,2)] s(3) obtain x where "inMsg = Some x" "err = None" "hasAnswer x q" "Answer x = rrs" by auto
  with send have "tryDirectQuery X (hNow E) (RecursionDesired r) [?b]
      (True, newMsg\<lparr>Id := Id r, Questions := [q]\<rparr>, aliveSince st)
    = Inr (True, mergeMsg (newMsg\<lparr>Id := Id r, Questions := [q]\<rparr>) x, alive')"
    by (simp add: directBatch_def)
  with batches order assms(3) \<open>Answer x = rrs\<close> show ?thesis
    by (simp add: serveHashServerUDPAPI_def mergeMsg_def newMsg_def)
qed

section \<open>Properties\<close>


definition sampleSetReply :: "dnsMsg \<Rightarrow> dnsMsg" where
  "sampleSetReply m = newMsg\<lparr>Id := Id m, Response := True, Questions := Questions m\<rparr>"


end
