(* ===== verification/Raft_Start.thy ===== *)
theory Raft_Start
  imports Raft_Node
begin

text \<open>
  Starting the raft driver, the rest of \<open>dns/raft.go\<close>: the snapshot and log directories
  (\<open>loadSnapshot\<close>, \<open>openWAL\<close>), how the raft library is started (\<open>startRaft\<close>), and the goroutine of
  \<open>serveChannels\<close> that hands proposals to it; and from \<open>dns/main.go\<close> the addresses of the peers'
  HTTP interfaces.
\<close>

section \<open>Files\<close>

text \<open>What the file system and the libraries over it answer during the start.\<close>

record raft_files =
  snapDirExists :: bool
  mkSnapDirError :: "string option"
  snapLoad :: "string + Snapshot option"
  walExists :: bool
  mkWalDirError :: "string option"
  walCreateError :: "string option"
  walOpenError :: "string option"
  walReadAll :: "string + Entry list"

definition fatalIf :: "string \<Rightarrow> string option \<Rightarrow> unit go" where
  "fatalIf msg err = (case err of None \<Rightarrow> Inr () | Some e \<Rightarrow> Inl (Fatal msg))"

text \<open>\<open>ErrNoSnapshot\<close> is \<open>Inr None\<close>.\<close>

definition loadSnapshot :: "raft_files \<Rightarrow> Snapshot option go" where
  "loadSnapshot F = (case snapLoad F of
       Inl err \<Rightarrow> Inl (Fatal ''raftexample: error loading snapshot'')
     | Inr snapshot \<Rightarrow> Inr snapshot)"

text \<open>The index and the term at which the log is opened.\<close>

definition openWAL :: "raft_files \<Rightarrow> Snapshot option \<Rightarrow> (64 word \<times> 64 word) go" where
  "openWAL F snapshot =
     go_bind
       (if walExists F then Inr ()
        else go_bind (fatalIf ''raftexample: cannot create dir for wal'' (mkWalDirError F))
               (\<lambda>_. fatalIf ''raftexample: create wal error'' (walCreateError F)))
       (\<lambda>_. go_bind (fatalIf ''raftexample: error loading wal'' (walOpenError F))
         (\<lambda>_. Inr (case snapshot of None \<Rightarrow> (0, 0) | Some s \<Rightarrow> (snap_Index s, snap_Term s))))"

section \<open>Starting the library\<close>

text \<open>The call that starts the raft node, with its number and, for a new one, the peers it begins with.\<close>

datatype start_call = RestartNode "64 word" | StartNode "64 word" "64 word list"

definition raftPeers :: "string list \<Rightarrow> 64 word list" where
  "raftPeers peers = map (\<lambda>i. word_of_nat (i + 1)) [0..<length peers]"

fun addPeers :: "nat \<Rightarrow> string list \<Rightarrow> 'c raftNode \<Rightarrow> 'c raftNode" where
  "addPeers i [] rc = rc"
| "addPeers i (p # ps) rc =
     addPeers (Suc i) ps
       (if int (i + 1) \<noteq> rc_id rc then call (TransportAddPeer (word_of_nat (i + 1)) p) rc else rc)"

text \<open>\<open>ld\<close> is what a store that reads the nil of an empty replay would load.\<close>

definition startRaft ::
    "raft_files \<Rightarrow> load_result \<Rightarrow> string list \<Rightarrow> bool \<Rightarrow> 'c raftNode \<Rightarrow> (start_call \<times> 'c raftNode) go" where
  "startRaft F ld peers join rc =
     go_bind (if snapDirExists F then Inr ()
              else fatalIf ''raftexample: cannot create dir for snapshot'' (mkSnapDirError F)) (\<lambda>_.
     go_bind (loadSnapshot F) (\<lambda>snapshot.
     go_bind (openWAL F snapshot) (\<lambda>_.
       (case walReadAll F of
          Inl err \<Rightarrow> Inl (Fatal ''raftexample: failed to read WAL'')
        | Inr ents \<Rightarrow>
            (let rc1 = replayWAL ld snapshot ents rc;
                 self = word_of_int (rc_id rc);
                 start = (if walExists F then RestartNode self
                          else StartNode self (if join then [] else raftPeers peers))
             in Inr (start, addPeers 0 peers rc1))))))"

section \<open>Handing proposals to raft\<close>

text \<open>
  What the goroutine receives: a proposal or a configuration change, or (\<open>None\<close>) the closing of one
  of the two channels. It gives the calls it makes, and whether it closed \<open>stopc\<close> at its end.
\<close>

datatype proposal_event = ProposeRecv "string option" | ConfChangeRecv "ConfChange option"

datatype propose_call = Propose string | ProposeConfChange "64 word" ConfChange

fun forwardProposals :: "64 word \<Rightarrow> proposal_event list \<Rightarrow> propose_call list \<times> bool" where
  "forwardProposals n [] = ([], False)"
| "forwardProposals n (ProposeRecv None # es) = ([], True)"
| "forwardProposals n (ConfChangeRecv None # es) = ([], True)"
| "forwardProposals n (ProposeRecv (Some prop) # es) =
     (let (cs, stopped) = forwardProposals n es in (Propose prop # cs, stopped))"
| "forwardProposals n (ConfChangeRecv (Some cc) # es) =
     (let (cs, stopped) = forwardProposals (n + 1) es in (ProposeConfChange (n + 1) cc # cs, stopped))"

section \<open>Addresses\<close>

text \<open>The port of a peer's URL, taken to be its last four characters, is replaced by the HTTP port.\<close>

definition peerAddress :: "nat \<Rightarrow> string \<Rightarrow> string go" where
  "peerAddress port ip =
     (if length ip < 4 then Inl (Panic ''slice bounds out of range'')
      else Inr (take (length ip - 4) ip @ decimal port))"

fun clusterIPs :: "nat \<Rightarrow> string list \<Rightarrow> string list go" where
  "clusterIPs port [] = Inr []"
| "clusterIPs port (ip # ips) =
     go_bind (peerAddress port ip) (\<lambda>a. go_bind (clusterIPs port ips) (\<lambda>as. Inr (a # as)))"

section \<open>Lemmas\<close>

text \<open>A proposal is handed on exactly if no channel was closed before it; order is kept.\<close>

definition beforeClose :: "proposal_event list \<Rightarrow> proposal_event list" where
  "beforeClose es = takeWhile (\<lambda>e. e \<noteq> ProposeRecv None \<and> e \<noteq> ConfChangeRecv None) es"

lemma beforeClose_simps [simp]:
  "beforeClose [] = []" "beforeClose (ProposeRecv None # es) = []" "beforeClose (ConfChangeRecv None # es) = []"
  "beforeClose (ProposeRecv (Some p) # es) = ProposeRecv (Some p) # beforeClose es"
  "beforeClose (ConfChangeRecv (Some cc) # es) = ConfChangeRecv (Some cc) # beforeClose es"
  by (simp_all add: beforeClose_def)

lemma forwardProposals_order:
  "List.map_filter (\<lambda>c. case c of Propose p \<Rightarrow> Some p | _ \<Rightarrow> None) (fst (forwardProposals n es))
     = List.map_filter (\<lambda>e. case e of ProposeRecv p \<Rightarrow> p | _ \<Rightarrow> None) (beforeClose es)"
  by (induction n es rule: forwardProposals.induct) (simp_all add: map_filter_simps split_beta)

lemma forwardProposals_numbers:
  "List.map_filter (\<lambda>c. case c of ProposeConfChange k cc \<Rightarrow> Some (k, cc) | _ \<Rightarrow> None) (fst (forwardProposals n es))
     = (let ccs = List.map_filter (\<lambda>e. case e of ConfChangeRecv cc \<Rightarrow> cc | _ \<Rightarrow> None) (beforeClose es)
        in zip (map (\<lambda>i. n + word_of_nat (Suc i)) [0..<length ccs]) ccs)"
proof (induction n es rule: forwardProposals.induct)
  case (5 n cc es)
  have "map (\<lambda>i. n + word_of_nat (Suc i)) [0..<Suc k] = (n + 1) # map (\<lambda>i. n + 1 + word_of_nat (Suc i)) [0..<k]" for k
    unfolding upt_conv_Cons [OF zero_less_Suc] map_Suc_upt [symmetric] by (simp add: ac_simps comp_def)
  with 5 show ?case by (simp add: map_filter_simps split_beta Let_def del: upt_Suc)
qed (simp_all add: map_filter_simps split_beta)

text \<open>Every other peer is added once, under its number and with its URL.\<close>

lemma addPeers_calls:
  "calls (addPeers i peers rc) = calls rc @ map (\<lambda>(k, p). TransportAddPeer (word_of_nat (k + 1)) p)
     (filter (\<lambda>(k, p). int (k + 1) \<noteq> rc_id rc) (zip [i..<i + length peers] peers))"
proof (induction i peers rc rule: addPeers.induct)
  case (2 i p ps rc)
  have "[i..<i + Suc (length ps)] = i # [Suc i..<Suc i + length ps]" by (simp add: upt_conv_Cons del: upt_Suc)
  with 2 show ?case by (simp del: upt_Suc)
qed simp

end
