(* ===== verification/Replication.thy ===== *)
theory Replication
  imports Raft_Start Dns_Query
begin

text \<open>
  The raft driver and the in-memory store together (\<open>dns/raft.go\<close>, \<open>dns/dns_store.go\<close>, joined in
  \<open>dns/main.go\<close>): what a node's store holds after any run of the event loop, and what a snapshot
  taken while the store is still applying a commit holds.
\<close>

section \<open>The node and its store\<close>

text \<open>Start the driver, which replays what the log file holds, up to the first lines of its event loop.\<close>

definition startNode ::
    "raft_files \<Rightarrow> load_result \<Rightarrow> string list \<Rightarrow> bool \<Rightarrow> int \<Rightarrow> 'c raftNode go" where
  "startNode F ld peers join i =
     go_bind (startRaft F ld peers join (newRaftNode i)) (\<lambda>(start, rc).
     go_bind (loadSnapshot F) (\<lambda>snapshot. Inr (initChannels snapshot rc)))"

lemma addPeers_frame [simp]:
  "sent (addPeers i peers rc) = sent rc" "appliedIndex (addPeers i peers rc) = appliedIndex rc"
  "lastIndex (addPeers i peers rc) = lastIndex rc"
  by (induction i peers rc rule: addPeers.induct) simp_all

lemma startNode_Inr:
  assumes "startNode F ld peers join i = Inr rc" "snapLoad F = Inr None" "walReadAll F = Inr ents"
  shows "sent rc = (if ents = [] then [CommitNil ld] else [])" "appliedIndex rc = 0"
    "lastIndex rc = (if ents = [] then 0 else Index (last ents))"
proof -
  have "rc = initChannels None (addPeers 0 peers (replayWAL ld None ents (newRaftNode i)))"
    using assms by (auto simp: startNode_def startRaft_def loadSnapshot_def go_bind_Inr_iff Let_def)
  then show "sent rc = (if ents = [] then [CommitNil ld] else [])" "appliedIndex rc = 0"
    "lastIndex rc = (if ents = [] then 0 else Index (last ents))"
    by (simp_all add: initChannels_def replayWAL_def newRaftNode_def Let_def) (simp_all add: sent_def)
qed

definition entryEvents :: "load_result \<Rightarrow> 64 word \<Rightarrow> Entry \<Rightarrow> commit_event list" where
  "entryEvents ld li e = map CommitData (commitsOf [e]) @ (if Index e = li then [CommitNil ld] else [])"

lemma entryEvents_eq: "eventsOf E li = entryEvents (loadable E) li"
  by (intro ext) (simp add: eventsOf_def entryEvents_def split: option.split)

lemma handleReady_events:
  assumes "handleReady E rd choices rc = Inr (True, rc')" "IsEmptySnap (rd_Snapshot rd)"
    and "contig 1 log" "length log < 2 ^ 64 - 1" "logPiece log (CommittedEntries rd)"
    and "unat (appliedIndex rc) \<le> length log"
  shows "\<exists>j. unat (appliedIndex rc) \<le> j \<and> j \<le> length log \<and> unat (appliedIndex rc') = j \<and>
     sent rc' = sent rc @ concat (map (entryEvents (loadable E) (lastIndex rc))
        (drop (unat (appliedIndex rc)) (take j log))) \<and> lastIndex rc' = lastIndex rc"
proof -
  let ?a = "unat (appliedIndex rc)"
  let ?rc4 = "call TransportSend (call (StorageAppend (Entries rd)) (call (WalSave (Entries rd)) rc))"
  obtain nents cs rc5 rc6 where n: "entriesToApply ?rc4 (CommittedEntries rd) = Inr nents"
    and p: "publishEntries E nents choices ?rc4 = (True, cs, rc5)"
    and m: "maybeTriggerSnapshot E rc5 = Inr rc6" "rc' = call Advance rc6"
    using assms(2) by (rule_tac handleReady_steps [OF assms(1)]) auto
  note fr = maybeTriggerSnapshot_frame [OF m(1)]
  have "unat (appliedIndex ?rc4) \<le> length log" using assms(6) by simp
  with entriesToApply_log [OF n assms(3-5)] obtain x where x: "nents = take x (drop ?a log)" by auto
  let ?j = "?a + length nents"
  have len: "?j \<le> length log" using x assms(6) by auto
  have nents: "nents = drop ?a (take ?j log)"
  proof -
    have "take (length nents) (drop ?a log) = nents" unfolding x by (auto simp: min_def)
    then show ?thesis using assms(6) by (simp add: take_add)
  qed
  have last: "unat (appliedIndex rc5) = ?j"
  proof (cases "nents = []")
    case False
    have "contig (Suc ?a) nents" unfolding x using contig_take [OF contig_drop [OF assms(3), of ?a]] by simp
    from contig_nth [OF this, of "length nents - 1"] False publish_all [OF p] show ?thesis
      by (simp add: last_conv_nth)
  qed (use publish_all [OF p] in simp)
  have "sent rc' = sent rc @ concat (map (entryEvents (loadable E) (lastIndex rc)) nents)"
    using publish_all [OF p] m(2) fr by (simp add: entryEvents_eq)
  with last len m(2) fr publish_all [OF p] show ?thesis
    by (intro exI [of _ ?j]) (simp add: nents [symmetric])
qed


text \<open>\<open>ld\<close> is what a store that reads a nil would load, in every batch.\<close>

definition loads :: "load_result \<Rightarrow> loop_event \<Rightarrow> bool" where
  "loads ld ev \<longleftrightarrow> (case ev of ReadyC E rd choices \<Rightarrow> loadable E = ld | _ \<Rightarrow> True)"

lemma serve_events:
  assumes "contig 1 log" "length log < 2 ^ 64 - 1"
  shows "serve evs rc = Inr (True, rc') \<Longrightarrow> \<forall>ev \<in> set evs. servesLog log ev \<and> loads ld ev \<Longrightarrow>
     unat (appliedIndex rc) \<le> length log \<Longrightarrow>
     \<exists>j. unat (appliedIndex rc) \<le> j \<and> j \<le> length log \<and> unat (appliedIndex rc') = j \<and>
       sent rc' = sent rc @ concat (map (entryEvents ld (lastIndex rc))
         (drop (unat (appliedIndex rc)) (take j log)))"
proof (induction evs rc rule: serve.induct)
  case (3 E rd choices evs rc)
  obtain rc1 where one: "handleReady E rd choices rc = Inr (True, rc1)" and rest: "serve evs rc1 = Inr (True, rc')"
    using "3.prems"(1) by (auto simp: go_bind_Inr_iff split: if_splits)
  let ?a = "unat (appliedIndex rc)"
  have ld: "loadable E = ld" using "3.prems"(2) by (simp add: loads_def)
  from handleReady_events [OF one _ assms _ "3.prems"(3)] "3.prems"(2)
  obtain j where j: "?a \<le> j" "j \<le> length log" "unat (appliedIndex rc1) = j" "lastIndex rc1 = lastIndex rc"
      "sent rc1 = sent rc @ concat (map (entryEvents ld (lastIndex rc)) (drop ?a (take j log)))"
    by (auto simp: ld)
  from "3.IH" [OF TrueI rest] "3.prems"(2) j
  obtain i where "j \<le> i" "i \<le> length log" "unat (appliedIndex rc') = i"
      "sent rc' = sent rc1 @ concat (map (entryEvents ld (lastIndex rc)) (drop j (take i log)))" by auto
  with drop_take_split [OF j(1), of i log] j show ?case by (intro exI [of _ i]) simp
qed auto

text \<open>A stretch of the log, with the nil where the replay ends.\<close>

lemma entryEvents_none:
  "\<forall>e \<in> set ents. Index e \<noteq> li \<Longrightarrow> concat (map (entryEvents ld li) ents) = map CommitData (commitsOf ents)"
  by (induction ents) (simp_all add: entryEvents_def)

lemma contig_distinct:
  assumes "contig 1 log" "e \<in> set (take (n - 1) log) \<union> set (drop n log)" "n \<le> length log"
  shows "unat (Index e) \<noteq> n"
proof -
  from assms(2) consider i where "i < n - 1" "i < length log" "e = log ! i"
    | i where "n + i < length log" "e = log ! (n + i)"
  proof (elim UnE)
    assume "e \<in> set (take (n - 1) log)"
    with that(1) show thesis by (auto simp: in_set_conv_nth)
  next
    assume "e \<in> set (drop n log)"
    then obtain i where "i < length log - n" "e = log ! (n + i)"
      using assms(3) by (auto simp: in_set_conv_nth)
    with that(2) [of i] show thesis by simp
  qed
  then show ?thesis
    using contig_nth [OF assms(1)] by cases auto
qed

lemma events_of_log:
  assumes "contig 1 log" "0 < n" "n \<le> j" "j \<le> length log" "unat li = n"
  shows "concat (map (entryEvents ld li) (take j log))
    = map CommitData (commitsOf (take n log)) @ CommitNil ld # map CommitData (commitsOf (drop n (take j log)))"
proof -
  have other: "Index e \<noteq> li" if "e \<in> set (take (n - 1) log) \<union> set (drop n log)" for e
    using contig_distinct [OF assms(1) that] assms(3-5) by auto
  have split: "take n log = take (n - 1) log @ [log ! (n - 1)]"
    using assms(2-4) take_Suc_conv_app_nth [of "n - 1" log] by simp
  have "take j log = take n log @ drop n (take j log)"
    using assms(3) append_take_drop_id [of n "take j log"] by (simp add: min_absorb1)
  with split have "take j log = take (n - 1) log @ [log ! (n - 1)] @ drop n (take j log)" by simp
  then have "concat (map (entryEvents ld li) (take j log))
      = concat (map (entryEvents ld li) (take (n - 1) log @ [log ! (n - 1)] @ drop n (take j log)))"
    by (rule arg_cong)
  also have "\<dots> = concat (map (entryEvents ld li) (take (n - 1) log)) @ entryEvents ld li (log ! (n - 1))
        @ concat (map (entryEvents ld li) (drop n (take j log)))" by simp
  also have "concat (map (entryEvents ld li) (take (n - 1) log)) = map CommitData (commitsOf (take (n - 1) log))"
    using other by (intro entryEvents_none) blast
  also have "concat (map (entryEvents ld li) (drop n (take j log))) = map CommitData (commitsOf (drop n (take j log)))"
  proof (rule entryEvents_none)
    have "set (drop n (take j log)) \<subseteq> set (drop n log)" by (simp add: drop_take set_take_subset)
    then show "\<forall>e \<in> set (drop n (take j log)). Index e \<noteq> li" using other by blast
  qed
  also have "entryEvents ld li (log ! (n - 1)) = map CommitData (commitsOf [log ! (n - 1)]) @ [CommitNil ld]"
  proof -
    have "unat (Index (log ! (n - 1))) = n" using contig_nth [OF assms(1), of "n - 1"] assms(2-4) by simp
    with assms(5) have "Index (log ! (n - 1)) = li" by (metis word_eq_iff_unsigned)
    then show ?thesis by (simp add: entryEvents_def)
  qed
  finally show ?thesis by (simp add: split)
qed


text \<open>A run from the start: the nil comes after the first \<open>n\<close> entries, those of the log file.\<close>

lemma events_from_start:
  assumes "contig 1 log" "n \<le> j" "j \<le> length log"
    and "li = (if take n log = [] then 0 else Index (last (take n log)))"
  shows "\<exists>l. l \<in> {ld0, ld} \<and>
    (if take n log = [] then [CommitNil ld0] else []) @ concat (map (entryEvents ld li) (take j log))
    = map CommitData (commitsOf (take n log)) @ CommitNil l # map CommitData (commitsOf (drop n (take j log)))"
proof (cases "take n log = []")
  case True
  have "concat (map (entryEvents ld 0) (take j log)) = map CommitData (commitsOf (take j log))"
  proof (intro entryEvents_none ballI)
    fix e assume "e \<in> set (take j log)"
    then obtain k where "k < length log" "e = log ! k" by (auto simp: in_set_conv_nth)
    with contig_nth [OF assms(1), of k] have "unat (Index e) \<noteq> 0" by simp
    then show "Index e \<noteq> 0" by auto
  qed
  with True assms(4) show ?thesis by auto
next
  case False
  have n: "0 < n" "n - 1 < length log" using False assms(2,3) by (cases n; auto)+
  have "last (take n log) = log ! (n - 1)"
    using False assms(2,3) by (simp add: last_conv_nth min_absorb1)
  moreover have "unat (Index (log ! (n - 1))) = n"
    using contig_nth [OF assms(1) n(2)] n(1) by simp
  ultimately show ?thesis
    using events_of_log [OF assms(1) n(1) assms(2,3), of li ld] False assms(4) by auto
qed

text \<open>What a node sends: its commits are those of the log up to the applied index, with one nil among them.\<close>

lemma node_sends_log:
  assumes "contig 1 log" "length log < 2 ^ 64 - 1"
    and "snapLoad F = Inr None" "walReadAll F = Inr (take n log)"
    and "startNode F ErrNoSnapshot peers join i = Inr rc" "serve evs rc = Inr (True, rc')"
    and "\<forall>ev \<in> set evs. servesLog log ev \<and> loads ld ev"
    and "n \<le> unat (appliedIndex rc')"
  obtains l cs ds where "l \<in> {ErrNoSnapshot, ld}"
    and "sent rc' = map CommitData cs @ CommitNil l # map CommitData ds"
    and "cs @ ds = commitsOf (take (unat (appliedIndex rc')) log)"
proof -
  let ?j = "unat (appliedIndex rc')"
  note start = startNode_Inr [OF assms(5,3,4)]
  have "unat (appliedIndex rc) \<le> length log" by (simp add: start)
  from serve_events [OF assms(1,2,6,7) this]
  have j: "?j \<le> length log"
    and ev: "sent rc' = sent rc @ concat (map (entryEvents ld (lastIndex rc)) (take ?j log))"
    by (auto simp: start)
  from events_from_start [OF assms(1,8) j start(3), of ErrNoSnapshot ld]
  obtain l where l: "l \<in> {ErrNoSnapshot, ld}" "sent rc' = map CommitData (commitsOf (take n log)) @ CommitNil l
          # map CommitData (commitsOf (drop n (take ?j log)))"
    unfolding ev start(1) by blast
  have "take ?j log = take n log @ drop n (take ?j log)"
    using assms(8) append_take_drop_id [of n "take ?j log"] by (simp add: min_absorb1)
  then have "commitsOf (take n log) @ commitsOf (drop n (take ?j log)) = commitsOf (take ?j log)"
    by (metis commitsOf_simps(3))
  with l that show thesis by blast
qed

section \<open>Handing commits over\<close>

text \<open>
  \<open>commitC\<close> is not buffered: a send is over when the store has received the commit, not when it
  has applied it. The driver goes on meanwhile and may take a snapshot of the store
  (\<open>maybeTriggerSnapshot\<close> calls \<open>getSnapshot\<close>), numbered by the last entry it has published.
\<close>

record handoverState =
  published :: nat
  inFlight :: "commitInfo option"
  nodeStore :: dnsStore
  snapshots :: "(nat \<times> string) list"

definition handoverInit :: "dnsStore \<Rightarrow> handoverState" where
  "handoverInit s0 = \<lparr>published = 0, inFlight = None, nodeStore = s0, snapshots = []\<rparr>"

inductive handover :: "dns_lib \<Rightarrow> gob_lib \<Rightarrow> commitInfo list \<Rightarrow> handoverState \<Rightarrow> handoverState \<Rightarrow> bool"
  for L G log where
  publish: "inFlight c = None \<Longrightarrow> published c < length log \<Longrightarrow>
     handover L G log c (c\<lparr>inFlight := Some (log ! published c), published := Suc (published c)\<rparr>)"
| apply_commit: "inFlight c = Some ci \<Longrightarrow> applyProposal L G ci (nodeStore c) = Inr s' \<Longrightarrow>
     handover L G log c (c\<lparr>inFlight := None, nodeStore := s'\<rparr>)"
| take_snapshot: "handover L G log c
     (c\<lparr>snapshots := snapshots c @ [(published c, getSnapshot (nodeStore c))]\<rparr>)"

inductive_cases handoverE: "handover L G log c c'"

definition behind :: "handoverState \<Rightarrow> nat" where
  "behind c = (case inFlight c of None \<Rightarrow> 0 | Some _ \<Rightarrow> 1)"

text \<open>The store has applied what was published but for the commit in flight.\<close>

definition handover_inv :: "dns_lib \<Rightarrow> gob_lib \<Rightarrow> commitInfo list \<Rightarrow> dnsStore \<Rightarrow> handoverState \<Rightarrow> bool" where
  "handover_inv L G log s0 c \<longleftrightarrow> published c \<le> length log \<and>
     (\<forall>ci. inFlight c = Some ci \<longrightarrow> 0 < published c \<and> ci = log ! (published c - 1)) \<and>
     runCommits (applyProposal L G) (take (published c - behind c) log) s0 = Inr (nodeStore c) \<and>
     (\<forall>(k, d) \<in> set (snapshots c). \<exists>m t. (m = k \<or> Suc m = k) \<and>
        runCommits (applyProposal L G) (take m log) s0 = Inr t \<and> d = getSnapshot t)"

lemma handover_step_inv:
  assumes "handover L G log c c'" "handover_inv L G log s0 c"
  shows "handover_inv L G log s0 c'"
  using assms(1)
proof cases
  case publish
  with assms(2) show ?thesis by (auto simp: handover_inv_def behind_def)
next
  case (apply_commit ci s')
  with assms(2) have p: "0 < published c" "ci = log ! (published c - 1)" "published c \<le> length log"
    and run: "runCommits (applyProposal L G) (take (published c - 1) log) s0 = Inr (nodeStore c)"
    by (auto simp: handover_inv_def behind_def)
  have "take (published c) log = take (published c - 1) log @ [ci]"
    using p take_Suc_conv_app_nth [of "published c - 1" log] by simp
  with run apply_commit(3) have "runCommits (applyProposal L G) (take (published c) log) s0 = Inr s'"
    by (simp add: runCommits_append)
  with apply_commit assms(2) show ?thesis by (auto simp: handover_inv_def behind_def)
next
  case take_snapshot
  from assms(2) have "\<exists>m t. (m = published c \<or> Suc m = published c) \<and>
      runCommits (applyProposal L G) (take m log) s0 = Inr t \<and> getSnapshot (nodeStore c) = getSnapshot t"
    by (intro exI [of _ "published c - behind c"] exI [of _ "nodeStore c"])
      (auto simp: handover_inv_def behind_def split: option.splits)
  with take_snapshot assms(2) show ?thesis by (auto simp: handover_inv_def behind_def)
qed

lemma handover_reach_inv:
  "(handover L G log)\<^sup>*\<^sup>* (handoverInit s0) c \<Longrightarrow> handover_inv L G log s0 c"
proof (induction rule: rtranclp_induct)
  case base
  show ?case by (simp add: handover_inv_def handoverInit_def behind_def)
qed (rule handover_step_inv)

section \<open>Properties\<close>






text \<open>A machine that starts with empty directories.\<close>

definition freshFiles :: raft_files where
  "freshFiles = \<lparr>snapDirExists = False, mkSnapDirError = None, snapLoad = Inr None, walExists = False,
     mkWalDirError = None, walCreateError = None, walOpenError = None, walReadAll = Inr []\<rparr>"


end
