(* ===== verification/Raft_Transport.thy ===== *)
theory Raft_Transport
  imports Raft_Start
begin

text \<open>
  The HTTP side of the raft driver: the listener of \<open>dns/listener.go\<close>, \<open>serveRaft\<close> and the callbacks
  of the transport in \<open>dns/raft.go\<close>. The transport (\<open>rafthttp\<close>) that handles the connections is not
  under \<open>src/\<close>; \<open>http.Server.Serve\<close> accepts until the first error that is not temporary.
\<close>

section \<open>The listener\<close>

text \<open>
  Which of the three channels of the select in \<open>Accept\<close> is received from first: \<open>stopc\<close>, \<open>errc\<close> (with
  whether the error is temporary), \<open>connc\<close>. An accepted connection has keep-alive on, with a period
  in seconds.
\<close>

datatype 'conn accept_event = StopReceived | AcceptFailed bool string | Accepted 'conn

record 'conn tcpConn =
  tc_conn :: 'conn
  keepAlive :: bool
  keepAlivePeriod :: nat

definition newStoppableListener :: "(string \<Rightarrow> string option) \<Rightarrow> string \<Rightarrow> string option" where
  "newStoppableListener listen addr = listen addr"

definition Accept :: "'conn accept_event \<Rightarrow> (bool \<times> string) + 'conn tcpConn" where
  "Accept ev = (case ev of
       StopReceived \<Rightarrow> Inl (False, ''server stopped'')
     | AcceptFailed temporary err \<Rightarrow> Inl (temporary, err)
     | Accepted c \<Rightarrow> Inr \<lparr>tc_conn = c, keepAlive = True, keepAlivePeriod = 3 * 60\<rparr>)"

text \<open>The accept loop: the connections it has handed on, and the error it returned, if it has.\<close>

fun Serve :: "'conn accept_event list \<Rightarrow> 'conn tcpConn list \<times> string option" where
  "Serve [] = ([], None)"
| "Serve (ev # evs) = (case Accept ev of
       Inl (temporary, err) \<Rightarrow> if temporary then Serve evs else ([], Some err)
     | Inr c \<Rightarrow> (let (cs, err) = Serve evs in (c # cs, err)))"

section \<open>Serving\<close>

text \<open>
  \<open>stopped\<close>: whether \<open>httpstopc\<close> is closed when \<open>Serve\<close> has returned. The result says whether
  \<open>httpdonec\<close> has been closed; if not, the loop is still running.
\<close>

definition serveRaft ::
    "(string \<Rightarrow> string option) \<Rightarrow> (string \<Rightarrow> string option) \<Rightarrow> 'conn accept_event list \<Rightarrow> bool
       \<Rightarrow> string list \<Rightarrow> int \<Rightarrow> ('conn tcpConn list \<times> bool) go" where
  "serveRaft parseHost listen evs stopped peers i =
     (if i < 1 \<or> int (length peers) < i then Inl (Panic ''index out of range'')
      else case parseHost (peers ! nat (i - 1)) of
          None \<Rightarrow> Inl (Fatal ''raftexample: Failed parsing URL'')
        | Some host \<Rightarrow>
            (case newStoppableListener listen host of
               Some err \<Rightarrow> Inl (Fatal ''raftexample: Failed to listen rafthttp'')
             | None \<Rightarrow>
                 (let (cs, err) = Serve evs
                  in case err of
                       None \<Rightarrow> Inr (cs, False)
                     | Some e \<Rightarrow> if stopped then Inr (cs, True)
                                 else Inl (Fatal ''raftexample: Failed to serve rafthttp''))))"

definition Process :: "('m \<Rightarrow> 'w \<Rightarrow> string option \<times> 'w) \<Rightarrow> 'm \<Rightarrow> 'w \<Rightarrow> string option \<times> 'w" where
  "Process nodeStep m w = nodeStep m w"

definition IsIDRemoved :: "64 word \<Rightarrow> bool" where
  "IsIDRemoved i = False"

section \<open>Lemmas\<close>

text \<open>Connections are handed on in order, up to the first lasting error or the stop.\<close>

definition goesOn :: "'conn accept_event \<Rightarrow> bool" where
  "goesOn ev \<longleftrightarrow> (case ev of StopReceived \<Rightarrow> False | AcceptFailed temporary err \<Rightarrow> temporary | Accepted c \<Rightarrow> True)"

lemma Serve_conns:
  "map tc_conn (fst (Serve evs))
     = List.map_filter (\<lambda>ev. case ev of Accepted c \<Rightarrow> Some c | _ \<Rightarrow> None) (takeWhile goesOn evs)"
  by (induction evs) (simp_all add: Accept_def goesOn_def map_filter_simps split_beta split: accept_event.split)

lemma Serve_keepAlive: "c \<in> set (fst (Serve evs)) \<Longrightarrow> keepAlive c"
  by (induction evs) (auto simp: Accept_def split_beta split: accept_event.splits if_splits)

lemma Serve_returns: "snd (Serve evs) = None \<longleftrightarrow> (\<forall>ev \<in> set evs. goesOn ev)"
  by (induction evs) (simp_all add: Accept_def goesOn_def split_beta split: accept_event.split)

text \<open>
  The process survives \<open>serveRaft\<close> exactly when its number is that of a peer whose URL and port are
  good and the accept loop ends, if it does, after \<open>stopHTTP\<close> has closed \<open>httpstopc\<close>.
\<close>

lemma serveRaft_survives:
  "(\<exists>r. serveRaft parseHost listen evs stopped peers i = Inr r) \<longleftrightarrow>
     1 \<le> i \<and> i \<le> int (length peers) \<and>
     (\<exists>host. parseHost (peers ! nat (i - 1)) = Some host \<and> listen host = None) \<and>
     ((\<forall>ev \<in> set evs. goesOn ev) \<or> stopped)"
  by (auto simp: serveRaft_def newStoppableListener_def Serve_returns [symmetric] split_beta not_less
      split: option.splits)

end
