(* ===== verification/KV_Store.thy ===== *)
theory KV_Store
  imports Http_Api
begin

text \<open>
  The key-value store of \<open>example/kvstore.go\<close> and its HTTP interface \<open>example/httpapi.go\<close>, the
  program the name server grew out of. Its commit loop reads the stream of \<open>Raft_Commit\<close> with
  strings as elements, and has no initialisation phase: it is \<open>readLoop\<close> with \<open>isInit\<close> off.
\<close>

section \<open>State\<close>

record kv =
  Key :: string
  Val :: string

record kvstore =
  kv_proposeC :: "string list"
  kvStore :: "(string, string) fmap"

text \<open>\<open>encoding/gob\<close> for the pairs, a parameter.\<close>

record kv_gob =
  kvEncode :: "kv \<Rightarrow> string"
  kvDecode :: "string \<Rightarrow> kv option"

definition kv_gob_ok :: "kv_gob \<Rightarrow> bool" where
  "kv_gob_ok G \<longleftrightarrow> (\<forall>p. kvDecode G (kvEncode G p) = Some p)"

definition emptyKVStore :: kvstore where
  "emptyKVStore = \<lparr>kv_proposeC = [], kvStore = fmempty\<rparr>"

section \<open>Operations\<close>

definition kv_Lookup :: "string \<Rightarrow> kvstore \<Rightarrow> string option" where
  "kv_Lookup key s = fmlookup (kvStore s) key"

definition kv_Propose :: "kv_gob \<Rightarrow> string \<Rightarrow> string \<Rightarrow> kvstore \<Rightarrow> kvstore" where
  "kv_Propose G k v s = s\<lparr>kv_proposeC := kv_proposeC s @ [kvEncode G \<lparr>Key = k, Val = v\<rparr>]\<rparr>"

definition kv_apply :: "kv_gob \<Rightarrow> string \<Rightarrow> kvstore \<Rightarrow> kvstore go" where
  "kv_apply G d s = (case kvDecode G d of
       None \<Rightarrow> Inl (Fatal ''raftexample: could not decode message'')
     | Some dataKv \<Rightarrow> Inr (s\<lparr>kvStore := fmupd (Key dataKv) (Val dataKv) (kvStore s)\<rparr>))"

definition kv_getSnapshot :: "kvstore \<Rightarrow> string" where
  "kv_getSnapshot s = printJson (marshalMap id JString (kvStore s))"

definition kv_recoverFromSnapshot :: "string \<Rightarrow> kvstore \<Rightarrow> kvstore go" where
  "kv_recoverFromSnapshot snapshot s =
     (case Option.bind (parseJson snapshot) (unmarshalMap Some unmarshalString) of
        None \<Rightarrow> Inl (Panic ''recoverFromSnapshot'')
      | Some m \<Rightarrow> Inr (s\<lparr>kvStore := m\<rparr>))"

definition kv_readCommits ::
    "kv_gob \<Rightarrow> string stream_event list \<Rightarrow> kvstore
       \<Rightarrow> (loop_status \<times> string stream_event list \<times> kvstore) go" where
  "kv_readCommits G es s = readLoop (kv_apply G) kv_recoverFromSnapshot False es s"

text \<open>Whether the constructor has returned, and where its reader is.\<close>

definition newKVStore ::
    "kv_gob \<Rightarrow> string stream_event list \<Rightarrow> (bool \<times> loop_status \<times> string stream_event list \<times> kvstore) go" where
  "newKVStore G es =
     go_bind (kv_readCommits G es emptyKVStore)
       (\<lambda>(st, rest, s). if st = Returned then go_bind (kv_readCommits G rest s) (\<lambda>x. Inr (True, x))
                        else Inr (False, st, rest, s))"

section \<open>HTTP\<close>

text \<open>
  The response, the values of its \<open>Allow\<close> header, the store and what is sent on \<open>confChangeC\<close>.
  \<open>key[1:]\<close> panics for an empty request URI.
\<close>

definition kvServeHTTP ::
    "kv_gob \<Rightarrow> string \<Rightarrow> http_request \<Rightarrow> kvstore \<Rightarrow> (http_response \<times> string list \<times> kvstore \<times> ConfChange list) go" where
  "kvServeHTTP G key r s =
     (if Method r = ''PUT'' then
        Inr (case Body r of
            Inl err \<Rightarrow> (httpError ''Failed on PUT'' StatusBadRequest, [], s, [])
          | Inr v \<Rightarrow> (writeHeader StatusNoContent, [], kv_Propose G key v s, []))
      else if Method r = ''GET'' then
        Inr (case kv_Lookup key s of
            Some v \<Rightarrow> (writeString v, [], s, [])
          | None \<Rightarrow> (httpError ''Failed to GET'' 404, [], s, []))
      else if Method r = ''POST'' then
        (case Body r of
           Inl err \<Rightarrow> Inr (httpError ''Failed on POST'' StatusBadRequest, [], s, [])
         | Inr url \<Rightarrow>
             if key = [] then Inl (Panic ''slice bounds out of range'')
             else Inr (case ParseUint (tl key) of
                 None \<Rightarrow> (httpError ''Failed on POST'' StatusBadRequest, [], s, [])
               | Some nodeId \<Rightarrow> (writeHeader StatusNoContent, [], s,
                     [\<lparr>cc_Type = ConfChangeAddNode, NodeID = nodeId, Context = url\<rparr>])))
      else if Method r = ''DELETE'' then
        (if key = [] then Inl (Panic ''slice bounds out of range'')
         else Inr (case ParseUint (tl key) of
             None \<Rightarrow> (httpError ''Failed on DELETE'' StatusBadRequest, [], s, [])
           | Some nodeId \<Rightarrow> (writeHeader StatusNoContent, [], s,
                 [\<lparr>cc_Type = ConfChangeRemoveNode, NodeID = nodeId, Context = []\<rparr>])))
      else Inr (httpError ''Method not allowed'' StatusMethodNotAllowed, [''PUT'', ''GET'', ''POST'', ''DELETE''], s, []))"

section \<open>Lemmas\<close>

lemma kv_apply_encoded:
  "kv_gob_ok G \<Longrightarrow> kv_apply G (kvEncode G p) s = Inr (s\<lparr>kvStore := fmupd (Key p) (Val p) (kvStore s)\<rparr>)"
  by (simp add: kv_apply_def kv_gob_ok_def)

lemma kv_recover_getSnapshot: "kv_recoverFromSnapshot (kv_getSnapshot s) t = Inr (t\<lparr>kvStore := kvStore s\<rparr>)"
proof -
  have "okJson (marshalMap id JString (kvStore s))" by (intro okJson_marshalMap) simp
  moreover have "unmarshalMap Some unmarshalString (marshalMap id JString (kvStore s)) = Some (kvStore s)"
    by (intro unmarshalMap_marshalMap) simp
  ultimately show ?thesis
    by (simp add: kv_recoverFromSnapshot_def kv_getSnapshot_def parseJson_printJson)
qed

interpretation kv: commit_machine "kv_apply G" kv_getSnapshot kv_recoverFromSnapshot kvStore
  for G
proof unfold_locales
  show "rel_sum (=) (\<lambda>s' t'. kvStore s' = kvStore t') (kv_apply G c s) (kv_apply G c t)"
    if "kvStore s = kvStore t" for s t c
    using that by (auto simp: kv_apply_def split: option.splits)
  show "\<exists>t'. kv_recoverFromSnapshot (kv_getSnapshot s) t = Inr t' \<and> kvStore t' = kvStore s" for s t
    by (simp add: kv_recover_getSnapshot)
qed

lemma kv_run:
  "kv_gob_ok G \<Longrightarrow> runCommits (kv_apply G) (map (kvEncode G) ps) s
     = Inr (s\<lparr>kvStore := fold (\<lambda>p. fmupd (Key p) (Val p)) ps (kvStore s)\<rparr>)"
  by (induction ps arbitrary: s) (simp_all add: kv_apply_encoded)

lemma fold_puts:
  "fmlookup (fold (\<lambda>p. fmupd (Key p) (Val p)) ps m) k
     = (case map_of (rev (map (\<lambda>p. (Key p, Val p)) ps)) k of None \<Rightarrow> fmlookup m k | Some v \<Rightarrow> Some v)"
  by (induction ps rule: rev_induct) auto

lemma kv_GET_after_puts:
  "kvServeHTTP G k \<lparr>Method = ''GET'', Body = Inr []\<rparr>
       (emptyKVStore\<lparr>kvStore := fold (\<lambda>p. fmupd (Key p) (Val p)) ps fmempty\<rparr>)
     = Inr (case map_of (rev (map (\<lambda>p. (Key p, Val p)) ps)) k of
              Some v \<Rightarrow> writeString v | None \<Rightarrow> httpError ''Failed to GET'' 404, [],
            emptyKVStore\<lparr>kvStore := fold (\<lambda>p. fmupd (Key p) (Val p)) ps fmempty\<rparr>, [])"
  by (simp add: kvServeHTTP_def kv_Lookup_def fold_puts split: option.split)

text \<open>A replay, the nil without a snapshot, and live commits.\<close>

lemma newKVStore_run:
  assumes "kv_gob_ok G" "cs @ ds = map (kvEncode G) ps"
  shows "newKVStore G (map CommitData cs @ CommitNil ErrNoSnapshot # map CommitData ds)
    = Inr (True, Waiting, [], emptyKVStore\<lparr>kvStore := fold (\<lambda>p. fmupd (Key p) (Val p)) ps fmempty\<rparr>)"
proof -
  from kv_run [OF assms(1), of ps emptyKVStore] obtain t where
    "runCommits (kv_apply G) cs emptyKVStore = Inr t"
    "runCommits (kv_apply G) ds t = Inr (emptyKVStore\<lparr>kvStore := fold (\<lambda>p. fmupd (Key p) (Val p)) ps fmempty\<rparr>)"
    by (auto simp: assms(2) [symmetric] runCommits_append go_bind_Inr_iff emptyKVStore_def)
  with readLoop_data [of "kv_apply G" kv_recoverFromSnapshot False ds "[]" t] show ?thesis
    by (simp add: newKVStore_def kv_readCommits_def readLoop_data)
qed

section \<open>Properties\<close>

text \<open>
  The store holds the last write: a new store that replays any list of committed pairs, gets
  the nil and finds no snapshot has started, and a \<open>GET\<close> of a key is answered with the last value
  written to it, or with 404 if there is none.
\<close>

theorem kv_get_is_last_put:
  assumes "kv_gob_ok G"
  shows "\<exists>s. newKVStore G (map (CommitData \<circ> kvEncode G) ps @ [CommitNil ErrNoSnapshot]) = Inr (True, Waiting, [], s) \<and>
     (\<forall>k. kvServeHTTP G k \<lparr>Method = ''GET'', Body = Inr []\<rparr> s =
        Inr (case map_of (rev (map (\<lambda>p. (Key p, Val p)) ps)) k of
               Some v \<Rightarrow> writeString v | None \<Rightarrow> httpError ''Failed to GET'' 404, [], s, []))"
  using newKVStore_run [OF assms, of "map (kvEncode G) ps" "[]" ps] by (simp add: kv_GET_after_puts comp_def)

text \<open>A codec for the pairs, built on the JSON text.\<close>

definition sampleKvGob :: kv_gob where
  "sampleKvGob = \<lparr>kvEncode = (\<lambda>p. printJson (JArray [JString (Key p), JString (Val p)])),
     kvDecode = (\<lambda>s. case parseJson s of Some (JArray [JString k, JString v]) \<Rightarrow> Some \<lparr>Key = k, Val = v\<rparr> | _ \<Rightarrow> None)\<rparr>"

lemma sampleKvGob_ok [simp]: "kv_gob_ok sampleKvGob"
  by (simp add: kv_gob_ok_def sampleKvGob_def parseJson_printJson del: printJson.simps)

lemma kv_get_is_last_put_witness:
  "\<exists>s. newKVStore sampleKvGob (map (CommitData \<circ> kvEncode sampleKvGob)
        [\<lparr>Key = ''/k'', Val = ''1''\<rparr>, \<lparr>Key = ''/k'', Val = ''2''\<rparr>] @ [CommitNil ErrNoSnapshot]) = Inr (True, Waiting, [], s) \<and>
     kvServeHTTP sampleKvGob ''/k'' \<lparr>Method = ''GET'', Body = Inr []\<rparr> s = Inr (writeString ''2'', [], s, [])"
proof -
  from kv_get_is_last_put [OF sampleKvGob_ok, of "[\<lparr>Key = ''/k'', Val = ''1''\<rparr>, \<lparr>Key = ''/k'', Val = ''2''\<rparr>]"]
  obtain s where "newKVStore sampleKvGob (map (CommitData \<circ> kvEncode sampleKvGob)
        [\<lparr>Key = ''/k'', Val = ''1''\<rparr>, \<lparr>Key = ''/k'', Val = ''2''\<rparr>] @ [CommitNil ErrNoSnapshot]) = Inr (True, Waiting, [], s)"
    and get: "\<And>k. kvServeHTTP sampleKvGob k \<lparr>Method = ''GET'', Body = Inr []\<rparr> s =
        Inr (case map_of (rev (map (\<lambda>p. (Key p, Val p)) [\<lparr>Key = ''/k'', Val = ''1''\<rparr>, \<lparr>Key = ''/k'', Val = ''2''\<rparr>])) k of
               Some v \<Rightarrow> writeString v | None \<Rightarrow> httpError ''Failed to GET'' 404, [], s, [])" by blast
  with get [of "''/k''"] show ?thesis by (intro exI [of _ s]) simp
qed

text \<open>
  A restart of the example store goes back to its snapshot and hangs: with a snapshot on disk,
  the nil that ends the replay makes the constructor load that snapshot over what it has just
  replayed, so every commit since the snapshot is lost, and the constructor does not return. (The
  stores of the name server load the snapshot before the replay instead.)
\<close>

theorem kv_restart_goes_back:
  assumes "runCommits (kv_apply G) ds emptyKVStore = Inr s1"
  shows "\<exists>t. newKVStore G (map CommitData ds @ [CommitNil (Loaded (kv_getSnapshot old))]) = Inr (False, Waiting, [], t) \<and>
     kvStore t = kvStore old"
proof -
  have "kv_readCommits G (map CommitData ds @ [CommitNil (Loaded (kv_getSnapshot old))]) emptyKVStore
      = Inr (Waiting, [], s1\<lparr>kvStore := kvStore old\<rparr>)"
    unfolding kv_readCommits_def readLoop_data by (simp add: assms kv_recover_getSnapshot)
  then show ?thesis by (simp add: newKVStore_def)
qed

lemma kv_restart_goes_back_witness:
  "\<exists>t. newKVStore sampleKvGob ([CommitData (kvEncode sampleKvGob \<lparr>Key = ''/k'', Val = ''2''\<rparr>)]
        @ [CommitNil (Loaded (kv_getSnapshot (emptyKVStore\<lparr>kvStore := fmupd ''/k'' ''1'' fmempty\<rparr>)))]) = Inr (False, Waiting, [], t) \<and>
     fmlookup (kvStore t) ''/k'' = Some ''1''"
proof -
  have "runCommits (kv_apply sampleKvGob) [kvEncode sampleKvGob \<lparr>Key = ''/k'', Val = ''2''\<rparr>] emptyKVStore
      = Inr (emptyKVStore\<lparr>kvStore := fmupd ''/k'' ''2'' fmempty\<rparr>)"
    by (simp add: kv_apply_encoded) (simp add: emptyKVStore_def)
  from kv_restart_goes_back [OF this, of "emptyKVStore\<lparr>kvStore := fmupd ''/k'' ''1'' fmempty\<rparr>"]
  show ?thesis by auto
qed

text \<open>
  A node that fell behind catches up: a running store that is told by a nil to load a snapshot
  taken after some commits, and then gets the commits that follow, ends with what a store that
  applied them all has, whatever it held before.
\<close>

theorem kv_catches_up:
  assumes "runCommits (kv_apply G) cs s = Inr s1" and "runCommits (kv_apply G) ds s1 = Inr s2"
  shows "\<exists>t. kv_readCommits G (CommitNil (Loaded (kv_getSnapshot s1)) # map CommitData ds) s0 = Inr (Waiting, [], t) \<and>
     kvStore t = kvStore s2"
  using kv.catch_up [OF assms, of ErrNoSnapshot s0] by (simp add: readCommits_def kv_readCommits_def)

lemma kv_catches_up_witness:
  "\<exists>t. kv_readCommits sampleKvGob (CommitNil (Loaded (kv_getSnapshot emptyKVStore)) #
        map CommitData [kvEncode sampleKvGob \<lparr>Key = ''/k'', Val = ''2''\<rparr>])
        (emptyKVStore\<lparr>kvStore := fmupd ''/old'' ''1'' fmempty\<rparr>) = Inr (Waiting, [], t) \<and>
     kvStore t = fmupd ''/k'' ''2'' fmempty"
proof -
  have "runCommits (kv_apply sampleKvGob) [kvEncode sampleKvGob \<lparr>Key = ''/k'', Val = ''2''\<rparr>] emptyKVStore
      = Inr (emptyKVStore\<lparr>kvStore := fmupd ''/k'' ''2'' fmempty\<rparr>)"
    by (simp add: kv_apply_encoded) (simp add: emptyKVStore_def)
  from kv_catches_up [OF runCommits.simps(1) this] show ?thesis by simp
qed

end
