(* ===== verification/Raft_Example.thy ===== *)
theory Raft_Example
  imports Replication Raft_Transport KV_Store
begin

text \<open>
  The raft driver of the example program, \<open>example/raft.go\<close>, and the example program as a whole.
  The name server's driver is this file with one change: a commit carries the index of its entry.
  So the two share every method that does not look at a commit; they are instances here, at
  strings as commits, of the methods of \<open>Raft_Node\<close> and \<open>Raft_Start\<close>. What sends commits is
  written out, and related to the name server's by forgetting the indices (\<open>dropIndex\<close>).
\<close>

section \<open>The methods that do not look at commits\<close>

definition ex_newRaftNode :: "int \<Rightarrow> string raftNode" where
  "ex_newRaftNode i = newRaftNode i"

definition ex_saveSnap :: "raft_env \<Rightarrow> Snapshot \<Rightarrow> string raftNode \<Rightarrow> string option \<times> string raftNode" where
  "ex_saveSnap E snap rc = saveSnap E snap rc"

definition ex_entriesToApply :: "string raftNode \<Rightarrow> Entry list \<Rightarrow> Entry list go" where
  "ex_entriesToApply rc ents = entriesToApply rc ents"

definition ex_publishSnapshot :: "raft_env \<Rightarrow> Snapshot \<Rightarrow> string raftNode \<Rightarrow> string raftNode go" where
  "ex_publishSnapshot E snapshotToSave rc = publishSnapshot E snapshotToSave rc"

definition ex_maybeTriggerSnapshot :: "raft_env \<Rightarrow> string raftNode \<Rightarrow> string raftNode go" where
  "ex_maybeTriggerSnapshot E rc = maybeTriggerSnapshot E rc"

definition ex_stop :: "string raftNode \<Rightarrow> string raftNode" where
  "ex_stop rc = stopNode rc"

definition ex_writeError :: "string \<Rightarrow> string raftNode \<Rightarrow> string raftNode" where
  "ex_writeError err rc = writeError err rc"

definition ex_startRaft ::
    "raft_files \<Rightarrow> load_result \<Rightarrow> string list \<Rightarrow> bool \<Rightarrow> string raftNode \<Rightarrow> (start_call \<times> string raftNode) go" where
  "ex_startRaft F ld peers join rc = startRaft F ld peers join rc"

definition ex_loadSnapshot :: "raft_files \<Rightarrow> Snapshot option go" where
  "ex_loadSnapshot F = loadSnapshot F"

definition ex_openWAL :: "raft_files \<Rightarrow> Snapshot option \<Rightarrow> (64 word \<times> 64 word) go" where
  "ex_openWAL F snapshot = openWAL F snapshot"

definition ex_replayWAL ::
    "load_result \<Rightarrow> Snapshot option \<Rightarrow> Entry list \<Rightarrow> string raftNode \<Rightarrow> string raftNode" where
  "ex_replayWAL ld snapshot ents rc = replayWAL ld snapshot ents rc"

definition ex_forwardProposals :: "64 word \<Rightarrow> proposal_event list \<Rightarrow> propose_call list \<times> bool" where
  "ex_forwardProposals n evs = forwardProposals n evs"

definition ex_Accept :: "'conn accept_event \<Rightarrow> (bool \<times> string) + 'conn tcpConn" where
  "ex_Accept ev = Accept ev"

definition ex_serveRaft ::
    "(string \<Rightarrow> string option) \<Rightarrow> (string \<Rightarrow> string option) \<Rightarrow> 'conn accept_event list \<Rightarrow> bool
       \<Rightarrow> string list \<Rightarrow> int \<Rightarrow> ('conn tcpConn list \<times> bool) go" where
  "ex_serveRaft parseHost listen evs stopped peers i = serveRaft parseHost listen evs stopped peers i"

definition ex_initChannels :: "Snapshot option \<Rightarrow> string raftNode \<Rightarrow> string raftNode" where
  "ex_initChannels snapshot rc = initChannels snapshot rc"

lemmas ex_methods = ex_newRaftNode_def ex_saveSnap_def ex_entriesToApply_def ex_publishSnapshot_def
  ex_maybeTriggerSnapshot_def ex_stop_def ex_writeError_def ex_startRaft_def ex_loadSnapshot_def ex_initChannels_def

section \<open>Publishing\<close>

definition ex_publishOne ::
    "raft_env \<Rightarrow> Entry \<Rightarrow> bool list \<Rightarrow> string raftNode \<Rightarrow> bool \<times> bool list \<times> string raftNode" where
  "ex_publishOne E e choices rc = (case Type e of
       EntryNormal \<Rightarrow>
         if Data e = [] then (True, choices, rc)
         else trySend (CommitData (Data e)) choices rc
     | EntryConfChange \<Rightarrow>
         (let cc = UnmarshalCC E (Data e);
              rc1 = rc\<lparr>confState := ApplyConfChange E cc (confState rc)\<rparr>
          in case cc_Type cc of
               ConfChangeAddNode \<Rightarrow>
                 (True, choices,
                  if Context cc \<noteq> [] then call (TransportAddPeer (NodeID cc) (Context cc)) rc1 else rc1)
             | ConfChangeRemoveNode \<Rightarrow>
                 if NodeID cc = word_of_int (rc_id rc) then (False, choices, rc1)
                 else (True, choices, call (TransportRemovePeer (NodeID cc)) rc1)
             | ConfChangeUpdateNode \<Rightarrow> (True, choices, rc1)))"

fun ex_publishEntries ::
    "raft_env \<Rightarrow> Entry list \<Rightarrow> bool list \<Rightarrow> string raftNode \<Rightarrow> bool \<times> bool list \<times> string raftNode" where
  "ex_publishEntries E [] choices rc = (True, choices, rc)"
| "ex_publishEntries E (e # ents) choices rc =
     (let (ok, cs, rc1) = ex_publishOne E e choices rc
      in if \<not> ok then (False, cs, rc1)
         else (let rc2 = rc1\<lparr>appliedIndex := Index e\<rparr>
               in if Index e = lastIndex rc2
                  then (let (ok', cs', rc3) = trySend (CommitNil (loadable E)) cs rc2
                        in if ok' then ex_publishEntries E ents cs' rc3 else (False, cs', rc3))
                  else ex_publishEntries E ents cs rc2))"

section \<open>The event loop\<close>

definition ex_handleReady ::
    "raft_env \<Rightarrow> Ready \<Rightarrow> bool list \<Rightarrow> string raftNode \<Rightarrow> (bool \<times> string raftNode) go" where
  "ex_handleReady E rd choices rc =
     (let rc1 = call (WalSave (Entries rd)) rc
      in go_bind
        (if IsEmptySnap (rd_Snapshot rd) then Inr rc1
         else (let rc2 = snd (ex_saveSnap E (rd_Snapshot rd) rc1)
               in ex_publishSnapshot E (rd_Snapshot rd)
                    (call (StorageApplySnapshot (rd_Snapshot rd)) rc2)))
        (\<lambda>rc3.
          let rc4 = call TransportSend (call (StorageAppend (Entries rd)) rc3)
          in go_bind (ex_entriesToApply rc4 (CommittedEntries rd))
            (\<lambda>nents.
              let (ok, cs, rc5) = ex_publishEntries E nents choices rc4
              in if \<not> ok then Inr (False, ex_stop rc5)
                 else go_bind (ex_maybeTriggerSnapshot E rc5)
                        (\<lambda>rc6. Inr (True, call Advance rc6)))))"

fun ex_serve :: "loop_event list \<Rightarrow> string raftNode \<Rightarrow> (bool \<times> string raftNode) go" where
  "ex_serve [] rc = Inr (True, rc)"
| "ex_serve (TickC # evs) rc = ex_serve evs (call Tick rc)"
| "ex_serve (ReadyC E rd choices # evs) rc =
     go_bind (ex_handleReady E rd choices rc)
       (\<lambda>(ok, rc'). if ok then ex_serve evs rc' else Inr (False, call WalClose rc'))"
| "ex_serve (TransportErrorC err # evs) rc = Inr (False, call WalClose (ex_writeError err rc))"
| "ex_serve (StopC # evs) rc = Inr (False, call WalClose (ex_stop rc))"

definition ex_startNode ::
    "raft_files \<Rightarrow> load_result \<Rightarrow> string list \<Rightarrow> bool \<Rightarrow> int \<Rightarrow> string raftNode go" where
  "ex_startNode F ld peers join i =
     go_bind (ex_startRaft F ld peers join (ex_newRaftNode i)) (\<lambda>(start, rc).
     go_bind (ex_loadSnapshot F) (\<lambda>snapshot. Inr (ex_initChannels snapshot rc)))"

section \<open>Forgetting the indices\<close>

definition dropIndex :: "commitInfo raftNode \<Rightarrow> string raftNode" where
  "dropIndex rc = \<lparr>rc_id = rc_id rc, lastIndex = lastIndex rc, confState = confState rc,
     snapshotIndex = snapshotIndex rc, appliedIndex = appliedIndex rc, snapCount = snapCount rc,
     calls = map (map_call ci_data) (calls rc)\<rparr>"

lemma dropIndex_fields [simp]:
  "rc_id (dropIndex rc) = rc_id rc" "lastIndex (dropIndex rc) = lastIndex rc"
  "confState (dropIndex rc) = confState rc" "snapshotIndex (dropIndex rc) = snapshotIndex rc"
  "appliedIndex (dropIndex rc) = appliedIndex rc" "snapCount (dropIndex rc) = snapCount rc"
  by (simp_all add: dropIndex_def call_def)

lemma dropIndex_upd [simp]:
  "dropIndex rc\<lparr>lastIndex := k\<rparr> = dropIndex (rc\<lparr>lastIndex := k\<rparr>)"
  "dropIndex rc\<lparr>confState := st\<rparr> = dropIndex (rc\<lparr>confState := st\<rparr>)"
  "dropIndex rc\<lparr>snapshotIndex := k\<rparr> = dropIndex (rc\<lparr>snapshotIndex := k\<rparr>)"
  "dropIndex rc\<lparr>appliedIndex := k\<rparr> = dropIndex (rc\<lparr>appliedIndex := k\<rparr>)"
  by (simp_all add: dropIndex_def)

lemma dropIndex_call: "call (map_call ci_data c) (dropIndex rc) = dropIndex (call c rc)"
  by (simp add: dropIndex_def call_def)

lemmas dropIndex_calls [simp] =
  dropIndex_call [of "WalSave es", simplified] dropIndex_call [of "WalSaveSnapshot k t", simplified]
  dropIndex_call [of "SaveSnap sn", simplified] dropIndex_call [of "ReleaseLockTo k", simplified]
  dropIndex_call [of "StorageApplySnapshot sn", simplified] dropIndex_call [of "StorageAppend es", simplified]
  dropIndex_call [of "StorageCreateSnapshot k d", simplified] dropIndex_call [of "StorageCompact k", simplified]
  dropIndex_call [of TransportSend, simplified] dropIndex_call [of "TransportAddPeer k u", simplified]
  dropIndex_call [of "TransportRemovePeer k", simplified] dropIndex_call [of Advance, simplified]
  dropIndex_call [of Tick, simplified] dropIndex_call [of TransportStop, simplified]
  dropIndex_call [of NodeStop, simplified] dropIndex_call [of WalClose, simplified]
  dropIndex_call [of "CommitSend (CommitData ci)", simplified]
  dropIndex_call [of "CommitSend (CommitNil l)", simplified]
  dropIndex_call [of "CommitSend (CommitClosed err)", simplified]
  for es k t sn d u ci l err

lemma sent_dropIndex [simp]: "sent (dropIndex rc) = map (map_stream_event ci_data) (sent rc)"
proof -
  have "List.map_filter (\<lambda>c. case c of CommitSend ev \<Rightarrow> Some ev | _ \<Rightarrow> None) (map (map_call ci_data) cs)
      = map (map_stream_event ci_data) (List.map_filter (\<lambda>c. case c of CommitSend ev \<Rightarrow> Some ev | _ \<Rightarrow> None) cs)" for cs
    by (induction cs) (simp_all add: map_filter_simps split: call.split)
  then show ?thesis by (simp add: sent_def dropIndex_def)
qed

lemma go_bind_of_map [simp]: "go_bind (map_sum id f m) k = go_bind m (\<lambda>x. k (f x))"
  by (cases m) simp_all

lemma map_of_go_bind [simp]: "map_sum id f (go_bind m k) = go_bind m (\<lambda>x. map_sum id f (k x))"
  by (cases m) simp_all

lemma saveSnap_dropIndex:
  "saveSnap E snap (dropIndex rc) = map_prod id dropIndex (saveSnap E snap rc)"
  by (simp add: saveSnap_def Let_def split: option.split)

lemma publishSnapshot_dropIndex:
  "publishSnapshot E snap (dropIndex rc) = map_sum id dropIndex (publishSnapshot E snap rc)"
  by (simp add: publishSnapshot_def)

lemma entriesToApply_dropIndex: "entriesToApply (dropIndex rc) ents = entriesToApply rc ents"
  by (simp add: entriesToApply_def Let_def split: list.split)

lemma maybeTriggerSnapshot_dropIndex:
  "maybeTriggerSnapshot E (dropIndex rc) = map_sum id dropIndex (maybeTriggerSnapshot E rc)"
  by (auto simp: maybeTriggerSnapshot_def saveSnap_def Let_def split: option.split sum.split)

lemma trySend_dropIndex:
  "trySend (map_stream_event ci_data ev) choices (dropIndex rc) = map_prod id (map_prod id dropIndex) (trySend ev choices rc)"
  by (simp add: trySend_def dropIndex_call [of "CommitSend ev", simplified] split: list.split bool.split)

lemma publishOne_dropIndex:
  "ex_publishOne E e choices (dropIndex rc) = map_prod id (map_prod id dropIndex) (publishOne E e choices rc)"
  using trySend_dropIndex [of "CommitData \<lparr>ci_index = Index e, ci_data = Data e\<rparr>" choices rc]
  by (simp add: ex_publishOne_def publishOne_def Let_def split: EntryType.split ConfChangeType.split)

lemma publishEntries_dropIndex:
  "ex_publishEntries E ents choices (dropIndex rc) = map_prod id (map_prod id dropIndex) (publishEntries E ents choices rc)"
proof (induction ents arbitrary: choices rc)
  case (Cons e ents)
  obtain ok cs rc1 where one: "publishOne E e choices rc = (ok, cs, rc1)" by (cases "publishOne E e choices rc")
  obtain ok' cs' rc3 where tr: "trySend (CommitNil (loadable E)) cs (rc1\<lparr>appliedIndex := Index e\<rparr>) = (ok', cs', rc3)"
    by (cases "trySend (CommitNil (loadable E)) cs (rc1\<lparr>appliedIndex := Index e\<rparr>)")
  from trySend_dropIndex [of "CommitNil (loadable E)" cs "rc1\<lparr>appliedIndex := Index e\<rparr>"] tr
  have "trySend (CommitNil (loadable E)) cs (dropIndex rc1\<lparr>appliedIndex := Index e\<rparr>) = (ok', cs', dropIndex rc3)" by simp
  with one tr Cons.IH [of cs' rc3] Cons.IH [of cs "rc1\<lparr>appliedIndex := Index e\<rparr>"] show ?case
    by (cases "Index e = lastIndex rc1") (simp_all add: publishOne_dropIndex Let_def)
qed simp

lemma handleReady_dropIndex:
  "ex_handleReady E rd choices (dropIndex rc) = map_sum id (map_prod id dropIndex) (handleReady E rd choices rc)"
  by (simp add: ex_handleReady_def handleReady_def ex_methods Let_def split_beta stopNode_def saveSnap_dropIndex
      publishSnapshot_dropIndex entriesToApply_dropIndex publishEntries_dropIndex maybeTriggerSnapshot_dropIndex
      if_distrib [of "map_sum _ _"] cong: if_cong)

lemma serve_dropIndex:
  "ex_serve evs (dropIndex rc) = map_sum id (map_prod id dropIndex) (serve evs rc)"
proof (induction evs rc rule: serve.induct)
  case (3 E rd choices evs rc)
  have "(\<lambda>x. case map_prod id dropIndex x of (ok, rc') \<Rightarrow> if ok then ex_serve evs rc' else Inr (False, call WalClose rc'))
      = (\<lambda>x. map_sum id (map_prod id dropIndex)
             (case x of (ok, rc') \<Rightarrow> if ok then serve evs rc' else Inr (False, call WalClose rc')))"
    by (intro ext) (simp add: "3.IH" split_beta id_def)
  then show ?case
    unfolding ex_serve.simps serve.simps handleReady_dropIndex go_bind_of_map map_of_go_bind by (rule arg_cong)
qed (simp_all add: ex_methods stopNode_def writeError_def)

lemma addPeers_dropIndex: "addPeers i peers (dropIndex rc) = dropIndex (addPeers i peers rc)"
proof (induction i peers rc rule: addPeers.induct)
  case (2 i p ps rc)
  then show ?case by (cases "int (i + 1) \<noteq> rc_id rc") simp_all
qed simp

lemma startNode_dropIndex:
  "ex_startNode F ld peers join i = map_sum id dropIndex (startNode F ld peers join i)"
proof -
  have new: "newRaftNode i = dropIndex (newRaftNode i)" by (simp add: newRaftNode_def dropIndex_def)
  have replay: "replayWAL ld snapshot ents (dropIndex rc) = dropIndex (replayWAL ld snapshot ents rc)" for snapshot ents rc
    by (simp add: replayWAL_def Let_def split: option.split)
  have init: "initChannels snapshot (dropIndex rc) = dropIndex (initChannels snapshot rc)" for snapshot rc
    by (simp add: initChannels_def split: option.split)
  have "startRaft F ld peers join (dropIndex rc) = map_sum id (map_prod id dropIndex) (startRaft F ld peers join rc)" for rc
    by (cases "walReadAll F")
      (simp_all add: startRaft_def replay addPeers_dropIndex Let_def if_distrib [of "map_sum _ _"] cong: if_cong)
  then show ?thesis
    by (simp add: ex_startNode_def startNode_def ex_methods new init split_beta)
qed

section \<open>Properties\<close>

text \<open>
  C40. The example program answers from its log: start a node without a snapshot on the first
  \<open>n\<close> entries of the log in its log file, let the event loop run over any pieces of the log
  while no snapshot is saved, and give what it sends to a new key-value store: if the replay got
  through, the constructor has returned and a \<open>GET\<close> of any key is answered with the last value
  that the log up to the applied index puts under it, or with 404 if there is none.
\<close>

theorem example_node_answers_from_log:
  assumes "contig 1 log" "length log < 2 ^ 64 - 1"
    and "snapLoad F = Inr None" "walReadAll F = Inr (take n log)"
    and "ex_startNode F ErrNoSnapshot peers join i = Inr rc" "ex_serve evs rc = Inr (True, rc')"
    and "\<forall>ev \<in> set evs. servesLog log ev \<and> loads ErrNoSnapshot ev"
    and "n \<le> unat (appliedIndex rc')"
    and "kv_gob_ok G" "map ci_data (commitsOf (take (unat (appliedIndex rc')) log)) = map (kvEncode G) ps"
  shows "\<exists>s. newKVStore G (sent rc') = Inr (True, Waiting, [], s) \<and>
     (\<forall>k. kvServeHTTP G k \<lparr>Method = ''GET'', Body = Inr []\<rparr> s =
        Inr (case map_of (rev (map (\<lambda>p. (Key p, Val p)) ps)) k of
               Some v \<Rightarrow> writeString v | None \<Rightarrow> httpError ''Failed to GET'' 404, [], s, []))"
proof -
  obtain rc0 where rc0: "startNode F ErrNoSnapshot peers join i = Inr rc0" "rc = dropIndex rc0"
    using assms(5) by (cases "startNode F ErrNoSnapshot peers join i :: commitInfo raftNode go") (auto simp: startNode_dropIndex)
  obtain rc0' where rc0': "serve evs rc0 = Inr (True, rc0')" "rc' = dropIndex rc0'"
    using assms(6) by (cases "serve evs rc0") (auto simp: rc0(2) serve_dropIndex)
  have "n \<le> unat (appliedIndex rc0')" using assms(8) by (simp add: rc0'(2))
  from node_sends_log [OF assms(1-4) rc0(1) rc0'(1) assms(7) this]
  obtain cs ds where s: "sent rc0' = map CommitData cs @ CommitNil ErrNoSnapshot # map CommitData ds"
    and split: "cs @ ds = commitsOf (take (unat (appliedIndex rc0')) log)" by blast
  have "map ci_data cs @ map ci_data ds = map (kvEncode G) ps"
    using assms(10) by (simp add: rc0'(2) split [symmetric])
  from newKVStore_run [OF assms(9) this]
  show ?thesis by (simp add: rc0'(2) s comp_def kv_GET_after_puts)
qed

lemma example_node_answers_from_log_witness:
  "\<exists>rc rc' s. ex_startNode freshFiles ErrNoSnapshot [''http://a:9021'', ''http://b:9021''] False 1 = Inr rc \<and>
     ex_serve [ReadyC sampleRaftEnv (readyOf [normalEntry 1 (kvEncode sampleKvGob \<lparr>Key = ''/k'', Val = ''2''\<rparr>)]) []] rc
       = Inr (True, rc') \<and>
     newKVStore sampleKvGob (sent rc') = Inr (True, Waiting, [], s) \<and>
     kvServeHTTP sampleKvGob ''/k'' \<lparr>Method = ''GET'', Body = Inr []\<rparr> s = Inr (writeString ''2'', [], s, [])"
proof -
  let ?p = "\<lparr>Key = ''/k'', Val = ''2''\<rparr>"
  let ?log = "[normalEntry 1 (kvEncode sampleKvGob ?p)]"
  let ?evs = "[ReadyC sampleRaftEnv (readyOf ?log) []]"
  let ?start = "ex_startNode freshFiles ErrNoSnapshot [''http://a:9021'', ''http://b:9021''] False 1"
  have ne: "kvEncode sampleKvGob ?p \<noteq> []" by (simp add: sampleKvGob_def)
  have "\<exists>rc rc'. ?start = Inr rc \<and> ex_serve ?evs rc = Inr (True, rc') \<and> appliedIndex rc' = 1"
    using ne by (simp add: ex_handleReady_def readyOf_def noSnapshot_def IsEmptySnap_def entriesToApply_def
        ex_startNode_def startRaft_def freshFiles_def fatalIf_def loadSnapshot_def openWAL_def
        replayWAL_def initChannels_def newRaftNode_def call_def normalEntry_def ex_methods
        ex_publishOne_def trySend_def maybeTriggerSnapshot_def defaultSnapCount_def Let_def)
  then obtain rc rc' where rc: "?start = Inr rc" "ex_serve ?evs rc = Inr (True, rc')" "appliedIndex rc' = 1" by blast
  have files: "snapLoad freshFiles = Inr None" "walReadAll freshFiles = Inr (take 0 ?log)"
    by (simp_all add: freshFiles_def)
  have "logPiece ?log ?log" unfolding logPiece_def by (rule exI [of _ 0], rule exI [of _ 1]) simp
  then have "\<exists>s. newKVStore sampleKvGob (sent rc') = Inr (True, Waiting, [], s) \<and>
     (\<forall>k. kvServeHTTP sampleKvGob k \<lparr>Method = ''GET'', Body = Inr []\<rparr> s =
        Inr (case map_of (rev (map (\<lambda>p. (Key p, Val p)) [?p])) k of
               Some v \<Rightarrow> writeString v | None \<Rightarrow> httpError ''Failed to GET'' 404, [], s, []))"
    using ne rc(3) by (intro example_node_answers_from_log [OF _ _ files rc(1,2)])
      (simp_all add: normalEntry_def readyOf_def noSnapshot_def IsEmptySnap_def sampleRaftEnv_def loads_def commitOf_def)
  with rc(1,2) show ?thesis by fastforce
qed

end
