(* ===== verification/Well_Typed.thy ===== *)
theory Well_Typed
  imports Http_Api
begin

text \<open>
  Types of records over the life of a name server: whatever commits, questions, cache records and
  snapshots a store has seen, everything in it is stored under the name and the type of the
  record it stands for, so that each section of a response holds records of the right types
  (\<open>dns/dns_store.go\<close>, \<open>dns/dns.go\<close>, \<open>/addcache\<close> of \<open>dns/httpapi.go\<close>).
\<close>

section \<open>The states of a store\<close>

text \<open>
  Records that come from the network print as text that can be read: the records of a reply are
  records some text stands for.
\<close>

definition wire_readable :: "dns_lib \<Rightarrow> (dnsMsg \<Rightarrow> dnsMsg option) \<Rightarrow> bool" where
  "wire_readable L exchange \<longleftrightarrow> (\<forall>req reply rr. exchange req = Some reply \<longrightarrow>
     rr \<in> set (Answer reply) \<union> set (List.map_filter id (Ns reply)) \<union> set (Extra reply) \<longrightarrow>
     (\<exists>str. parseRR L str = Some rr))"

inductive reachable :: "dns_lib \<Rightarrow> gob_lib \<Rightarrow> dnsStore \<Rightarrow> bool" for L G where
  start: "reachable L G (emptyDNSStore cl i)"
| commit: "reachable L G s \<Longrightarrow> applyProposal L G ci s = Inr s' \<Longrightarrow> reachable L G s'"
| recover: "reachable L G s \<Longrightarrow> reachable L G t \<Longrightarrow> recoverFromSnapshot (getSnapshot t) s = Inr s' \<Longrightarrow>
    reachable L G s'"
| query: "reachable L G s \<Longrightarrow> env_ok E \<Longrightarrow> wire_readable L exchange \<Longrightarrow>
    ProcessDNSQuery L E setReply exchange req s = Some (res, s') \<Longrightarrow> reachable L G s'"
| add: "reachable L G s \<Longrightarrow> reachable L G (snd (handleAdd L G r s))"
| addcache: "reachable L G s \<Longrightarrow> reachable L G (snd (handleAddCache L E r s))"

section \<open>The cache\<close>

definition cache_typed :: "dns_lib \<Rightarrow> cacheMap \<Rightarrow> bool" where
  "cache_typed L c \<longleftrightarrow> (\<forall>n ty k rr. fmlookup (cachedAt c n ty) k \<noteq> None \<longrightarrow> parseRR L k = Some rr \<longrightarrow>
     toLower (hdr_Name rr) = n \<and> hdr_Rrtype rr = ty)"

lemma cache_typed_empty [simp]: "cache_typed L fmempty"
  by (simp add: cache_typed_def cachedAt_def)

lemma cache_typed_insert [inv_intros]:
  assumes "cache_typed L c" "rr_text_roundtrip L" "parseRR L str = Some rr"
  shows "cache_typed L (cacheInsert L t rr c)"
  using assms(1) rr_text_roundtripD [OF assms(2,3), of 0]
  by (auto simp: cache_typed_def cacheInsert_cachedAt)

lemma cache_typed_add [inv_intros]:
  "cache_typed L (cache s) \<Longrightarrow> rr_text_roundtrip L \<Longrightarrow> parseRR L str = Some rr \<Longrightarrow>
     cache_typed L (cache (addCacheRecord L E rr w s))"
  by (auto simp: addCacheRecord_cache intro: inv_intros)

lemma cache_typed_adds:
  "cache_typed L (cache s) \<Longrightarrow> rr_text_roundtrip L \<Longrightarrow> \<forall>rr \<in> set rrs. \<exists>str. parseRR L str = Some rr \<Longrightarrow>
     cache_typed L (cache (addCacheRecords L E rrs s))"
  by (induction rrs arbitrary: s) (auto intro: cache_typed_add)

lemma getCacheRecords_typed:
  assumes "env_ok E" "cache_typed L (cache s)"
  shows "cache_typed L (cache (snd (getCacheRecords L E n ty s)))"
    and "rr \<in> set (fst (getCacheRecords L E n ty s)) \<Longrightarrow> hdr_Rrtype rr = ty"
  using assms
  by (auto simp: cache_typed_def getCacheRecords_cache getCacheRecords_records set_map_filter_iff liveAt_def
      bind_eq_Some_conv dest!: cacheEntry_SomeD) blast+

section \<open>Responses\<close>

text \<open>
  A response grows by answers of the type asked for or CNAME records, by NS records in the
  authority section and by address records; a question that was handled has got an answer.
\<close>

definition typedReply :: "rrType \<Rightarrow> dnsMsg \<Rightarrow> bool \<Rightarrow> dnsMsg \<Rightarrow> bool" where
  "typedReply ty r h r' \<longleftrightarrow> (\<exists>as ns ex.
     r' = r\<lparr>Answer := Answer r @ as, Ns := Ns r @ map Some ns, Extra := Extra r @ ex\<rparr> \<and>
     (\<forall>rr \<in> set as. hdr_Rrtype rr = ty \<or> hdr_Rrtype rr = TypeCNAME) \<and>
     (\<forall>rr \<in> set ns. hdr_Rrtype rr = TypeNS) \<and> (\<forall>rr \<in> set ex. hdr_Rrtype rr = TypeA) \<and>
     (h \<longrightarrow> as \<noteq> []))"

lemma typedReply_answer:
  "\<forall>rr \<in> set as. hdr_Rrtype rr = ty \<Longrightarrow> h \<longrightarrow> as \<noteq> [] \<Longrightarrow> typedReply ty r h (r\<lparr>Answer := Answer r @ as\<rparr>)"
  unfolding typedReply_def by (intro exI [of _ as] exI [of _ "[]"]) simp

lemma typedReply_referral:
  "\<forall>rr \<in> set ns. hdr_Rrtype rr = TypeNS \<Longrightarrow> \<forall>rr \<in> set ex. hdr_Rrtype rr = TypeA \<Longrightarrow>
     typedReply ty r False (r\<lparr>Ns := Ns r @ map Some ns, Extra := Extra r @ ex\<rparr>)"
  unfolding typedReply_def by (rule exI [of _ "[]"], rule exI [of _ ns], rule exI [of _ ex]) simp

lemma typedReply_cname:
  assumes "typedReply ty (r\<lparr>Answer := Answer r @ [rr]\<rparr>) h r'" "hdr_Rrtype rr = TypeCNAME"
  shows "typedReply ty r h r'"
proof -
  obtain as ns ex where
    "r' = r\<lparr>Answer := Answer r @ rr # as, Ns := Ns r @ map Some ns, Extra := Extra r @ ex\<rparr>"
    "\<forall>rr \<in> set as. hdr_Rrtype rr = ty \<or> hdr_Rrtype rr = TypeCNAME"
    "\<forall>rr \<in> set ns. hdr_Rrtype rr = TypeNS" "\<forall>rr \<in> set ex. hdr_Rrtype rr = TypeA"
    using assms(1) unfolding typedReply_def by auto
  with assms(2) show ?thesis
    unfolding typedReply_def by (intro exI [of _ "rr # as"] exI [of _ ns] exI [of _ ex]) simp
qed

section \<open>Resolution\<close>

lemma parseRRs_typed:
  "records_ok L st \<Longrightarrow> rr \<in> set (parseRRs L (rrsAt st n ty)) \<Longrightarrow> hdr_Rrtype rr = ty"
  by (fastforce simp: records_ok_def set_parseRRs)

lemma refWildcard_typed:
  assumes "records_ok L st" "rr \<in> set (refWildcard L st ty n)"
  shows "hdr_Rrtype rr = ty"
proof -
  obtain rrs where "List.find (\<lambda>rrs. rrs \<noteq> []) (map (\<lambda>p. parseRRs L (rrsAt st (''*.'' @ p) ty)) (parents n)) = Some rrs"
    "rr \<in> set rrs"
    using assms(2) by (cases "List.find (\<lambda>rrs. rrs \<noteq> []) (map (\<lambda>p. parseRRs L (rrsAt st (''*.'' @ p) ty)) (parents n))")
      (auto simp: refWildcard_def)
  then obtain p where "rr \<in> set (parseRRs L (rrsAt st (''*.'' @ p) ty))"
    by (auto simp: find_Some_iff)
  then show ?thesis by (rule parseRRs_typed [OF assms(1)])
qed

lemma refGlue_typed: "records_ok L st \<Longrightarrow> rr \<in> set (refGlue L st ns) \<Longrightarrow> hdr_Rrtype rr = TypeA"
  by (auto simp: refGlue_def Let_def parseRRs_typed refWildcard_typed split: if_splits)

lemma refGlues_typed: "records_ok L st \<Longrightarrow> rr \<in> set (refGlues L st rrs) \<Longrightarrow> hdr_Rrtype rr = TypeA"
  by (auto simp: refGlues_def refGlue_typed split: option.splits rdata.splits)

lemma stringsToRRs_stored:
  assumes "records_ok L st"
  shows "stringsToRRs L (rrsAt st n ty) = map Some (parseRRs L (rrsAt st n ty))"
proof -
  have "stringsToRRs L ss = map Some (parseRRs L ss)" if "\<forall>s \<in> set ss. parseRR L s \<noteq> None" for ss
    using that by (induction ss) (auto simp: stringsToRRs_def parseRR_def split: sum.splits option.splits)
  moreover have "\<forall>s \<in> set (rrsAt st n ty). parseRR L s \<noteq> None"
    using assms by (fastforce simp: records_ok_def)
  ultimately show ?thesis by blast
qed

lemma refBelow_typed:
  assumes "records_ok L st" "cache_typed L (cache b)" "env_ok E"
    and "refBelow L E st n ty r b = (h, r', b')"
  shows "typedReply ty r h r'" "cache_typed L (cache b')"
proof -
  note cached = getCacheRecords_typed [OF assms(3,2), where n = n and ty = ty]
  show "cache_typed L (cache b')"
    using assms(4) cached(1) by (auto simp: refBelow_def Let_def split_beta split: if_splits)
  show "typedReply ty r h r'"
  proof (cases "fst (getCacheRecords L E n ty b) = [] \<and> rrsAt st n TypeNS \<noteq> [] \<and>
      stringsToRRs L (rrsAt st n TypeNS) \<noteq> []")
    case True
    then have "r' = r\<lparr>Ns := Ns r @ map Some (parseRRs L (rrsAt st n TypeNS)),
        Extra := Extra r @ refGlues L st (stringsToRRs L (rrsAt st n TypeNS))\<rparr>" "\<not> h"
      using assms(4) by (auto simp: refBelow_def Let_def split_beta stringsToRRs_stored [OF assms(1)])
    then show ?thesis
      using typedReply_referral parseRRs_typed [OF assms(1)] refGlues_typed [OF assms(1)] by simp
  next
    case False
    then show ?thesis
      using assms(4) cached(2) refWildcard_typed [OF assms(1)]
      by (auto simp: refBelow_def Let_def split_beta stringsToRRs_stored [OF assms(1)]
          split: if_splits intro!: typedReply_answer)
  qed
qed

lemma resolve_typed:
  assumes "resolve L E st name ty r b = Some z"
    and "records_ok L st" "cache_typed L (cache b)" "env_ok E"
  shows "typedReply ty r (fst z) (fst (snd z)) \<and> cache_typed L (cache (snd (snd z)))"
  using assms
proof (induction rule: resolve.raw_induct [rotated, consumes 1, case_names step])
  case (step f L E st name ty r b z)
  let ?n = "toLower name"
  have below: "typedReply ty r (fst y) (fst (snd y)) \<and> cache_typed L (cache (snd (snd y)))"
    if "refBelow L E st ?n ty r b = y" for r y
    using refBelow_typed [OF step.prems, of ?n ty r "fst y" "fst (snd y)" "snd (snd y)"] that by simp
  show ?case
  proof (cases "parseRRs L (rrsAt st ?n ty) = []")
    case False
    with step.hyps step.prems(2) show ?thesis
      by (auto simp: Let_def intro!: typedReply_answer parseRRs_typed [OF step.prems(1)])
  next
    case True
    show ?thesis
    proof (cases "refCname L st ty ?n")
      case None
      with True step.hyps below show ?thesis by (auto simp: Let_def)
    next
      case (Some rr)
      then have "rr \<in> set (parseRRs L (rrsAt st ?n TypeCNAME))"
        by (auto simp: refCname_def split: if_splits list.splits)
      then have rr: "hdr_Rrtype rr = TypeCNAME" by (rule parseRRs_typed [OF step.prems(1)])
      have "typedReply ty (r\<lparr>Answer := Answer r @ [rr]\<rparr>) (fst z) (fst (snd z)) \<and> cache_typed L (cache (snd (snd z)))"
        using step.hyps step.IH step.prems True Some below
        by (auto simp: Let_def split: rdata.splits)
      with rr show ?thesis by (blast intro: typedReply_cname)
    qed
  qed
qed

section \<open>Every step keeps the types\<close>

definition well_typed :: "dns_lib \<Rightarrow> dnsStore \<Rightarrow> bool" where
  "well_typed L s \<longleftrightarrow> reach_ok L s \<and> cache_typed L (cache s)"

lemma well_typed_question:
  assumes "well_typed L s" "env_ok E" "HandleSingleQuestion L E name ty r s = Some (h, r', s')"
  shows "typedReply ty r h r'" "well_typed L s'"
proof -
  note fl = flat_query [OF assms(3)]
  have "cache (store_base.truncate t) = cache t" for t :: dnsStore
    by (simp add: store_base.truncate_def)
  with resolve_typed [OF fl(1)] assms(1,2) fl(2) show "typedReply ty r h r'" "well_typed L s'"
    by (simp_all add: well_typed_def reach_ok_def)
qed

lemma well_typed_questions:
  "well_typed L s \<Longrightarrow> env_ok E \<Longrightarrow> handleQuestions flatFinder L E qs r s = Some (u, r', s') \<Longrightarrow> well_typed L s'"
proof (induction qs arbitrary: r s u)
  case (Cons q qs)
  then obtain h r1 s1 where one: "HandleSingleQuestion L E (q_Name q) (q_Qtype q) r s = Some (h, r1, s1)"
    by (auto simp: HandleSingleQuestion_def split: option.splits)
  with Cons.prems(3) obtain u2 where "handleQuestions flatFinder L E qs r1 s1 = Some (u2, r', s')"
    by (auto simp: HandleSingleQuestion_def split: option.splits)
  with well_typed_question(2) [OF Cons.prems(1,2) one] Cons.prems(2) show ?case by (blast intro: Cons.IH)
qed simp

lemma well_typed_recursive:
  assumes "well_typed L s" "rr_text_roundtrip L" "wire_readable L exchange"
  shows "well_typed L (snd (HandleRecursiveQuery L E exchange req r s))"
proof (cases "exchange req")
  case (Some reply)
  have "store t = store s" if "cacheFrame s t" for t :: dnsStore
    using arg_cong [OF that [unfolded cacheFrame_def], of store] by simp
  note same = this [OF recursive_frame]
  from assms(3) Some have readable: "\<exists>str. parseRR L str = Some rr"
    if "rr \<in> set (Answer reply) \<union> set (List.map_filter id (Ns reply)) \<union> set (Extra reply)" for rr
    using that unfolding wire_readable_def by blast
  have "cache_typed L (cache (addCacheRecords L E (Extra reply) (addCacheRecords L E
      (List.map_filter id (Ns reply)) (addCacheRecords L E (Answer reply) s))))"
    using assms(1) by (intro cache_typed_adds assms(2) ballI readable) (simp_all add: well_typed_def)
  with same [of L E exchange req r] assms(1) Some show ?thesis
    by (simp add: well_typed_def reach_ok_def HandleRecursiveQuery_def Let_def)
qed (use assms in \<open>simp add: HandleRecursiveQuery_def\<close>)

lemma well_typed_process:
  assumes "well_typed L s" "rr_text_roundtrip L" "env_ok E" "wire_readable L exchange"
    and "ProcessDNSQuery L E setReply exchange req s = Some (res, s')"
  shows "well_typed L s'"
proof -
  from assms(5) obtain u r1 s1 where q: "handleQuestions flatFinder L E (Questions req) (setReply req) s = Some (u, r1, s1)"
    and s': "s' = s1 \<or> (\<exists>req' r2. s' = snd (HandleRecursiveQuery L E exchange req' r2 s1))"
    by (auto simp: ProcessDNSQuery_def ProcessQuery_def Let_def split: option.splits if_splits prod.splits)
      (metis snd_conv)+
  from well_typed_questions [OF assms(1,3) q] s' assms(2,4) show ?thesis
    by (auto intro: well_typed_recursive)
qed

lemma reachable_typed:
  assumes "reachable L G s" "rr_text_roundtrip L"
  shows "well_typed L s"
  using assms(1)
proof induction
  case (start cl i)
  show ?case by (simp add: well_typed_def reach_ok_def emptyDNSStore_def)
next
  case (commit s ci s')
  have "cache s' = cache s"
    using commit.hyps(2) by (auto simp: applyProposal_def insertRR_def split: option.splits if_splits sum.splits)
  with commit reach_ok_apply [OF _ assms(2) commit.hyps(2)] show ?case by (simp add: well_typed_def)
next
  case (recover s t s')
  then show ?case by (auto simp: recover_getSnapshot well_typed_def reach_ok_def)
next
  case (query s E exchange setReply req res s')
  then show ?case by (blast intro: well_typed_process assms(2))
next
  case (add s r)
  then show ?case by (auto simp: handleAdd_def ProposeAddRR_def well_typed_def reach_ok_def split: sum.split)
next
  case (addcache s E r)
  have "store (addCacheRecord L E rr w s) = store s" for rr w
    by (simp add: addCacheRecord_def whisperAddCacheRecord_def)
  with addcache.IH show ?case
    by (auto simp: handleAddCache_def well_typed_def reach_ok_def intro: cache_typed_add assms(2)
        split: sum.split option.split)
qed

section \<open>Properties\<close>



end
