(* ===== verification/Store_Locks.thy ===== *)
theory Store_Locks
  imports Dns_Query "HOL-Library.More_List"
begin

text \<open>
  The goroutines of a name server and the lock of its store, \<open>mu\<close> of \<open>dns/dns_store.go\<close>: the commit
  loop writes the map of records under \<open>mu.Lock\<close>, one Go statement at a time; queries read it under
  \<open>mu.RLock\<close>, one lookup at a time; the raft driver takes snapshots under \<open>mu.Lock\<close>. A step of
  \<open>lockStep\<close> is one of these statements of one goroutine, so its runs are the interleavings. What a
  query computes is the code of \<open>Dns_Query\<close> over a lookup (\<open>histFinder\<close>) that sees a version of the
  map of its own each time.

  The cache of a store is not protected by the lock (see the end of the theory); a query works here on a
  cache of its own, \<open>call_base\<close>, which is arbitrary.
\<close>

section \<open>Writes of the commit loop\<close>

text \<open>
  What the loop does to the map of records: a committed proposal, or the map of a snapshot.
\<close>

datatype storeWork = Proposal dnsProposal | Install storeMap

definition workEffect :: "dns_lib \<Rightarrow> storeWork \<Rightarrow> storeMap \<Rightarrow> storeMap" where
  "workEffect L w st = (case w of Proposal p \<Rightarrow> applyTo L p st | Install m \<Rightarrow> m)"

text \<open>The statements of \<open>insertRR\<close> that write, each with what the map is after it.\<close>

definition insertSteps :: "dns_lib \<Rightarrow> dnsRR \<Rightarrow> (storeMap \<Rightarrow> storeMap) list" where
  "insertSteps L rr =
     (let domainName = toLower (hdr_Name rr); ty = hdr_Rrtype rr
      in [\<lambda>st. (case fmlookup st domainName of None \<Rightarrow> fmupd domainName fmempty st | Some _ \<Rightarrow> st),
          \<lambda>st. (case fmlookup st domainName of None \<Rightarrow> st
                | Some typeMap \<Rightarrow> (case fmlookup typeMap ty of
                      None \<Rightarrow> fmupd domainName (fmupd ty [] typeMap) st | Some _ \<Rightarrow> st)),
          \<lambda>st. (case fmlookup st domainName of None \<Rightarrow> st
                | Some typeMap \<Rightarrow>
                    fmupd domainName (fmupd ty (fm_getl typeMap ty @ [RRString L rr]) typeMap) st)])"

text \<open>The two statements of the delete case.\<close>

definition deleteSteps :: "string \<Rightarrow> rrType \<Rightarrow> (storeMap \<Rightarrow> storeMap) list" where
  "deleteSteps name ty =
     [\<lambda>st. (case fmlookup st name of None \<Rightarrow> st
           | Some typeMap \<Rightarrow> (case fmlookup typeMap ty of
                 None \<Rightarrow> st | Some _ \<Rightarrow> fmupd name (fmdrop ty typeMap) st)),
      \<lambda>st. (case fmlookup st name of None \<Rightarrow> st
           | Some typeMap \<Rightarrow> if fm_len typeMap = 0 then fmdrop name st else st)]"

text \<open>What is done between \<open>Lock\<close> and \<open>Unlock\<close>; \<open>None\<close> if the lock is not taken at all.\<close>

definition workSteps :: "dns_lib \<Rightarrow> storeWork \<Rightarrow> (storeMap \<Rightarrow> storeMap) list option" where
  "workSteps L w = (case w of
       Install m \<Rightarrow> Some [\<lambda>_. m]
     | Proposal p \<Rightarrow>
         if ProposalType p = AddRR then map_option (insertSteps L) (parseRR L (p_RRString p))
         else Some (deleteSteps (p_Name p) (p_RRType p)))"

section \<open>Queries\<close>

record queryCall =
  call_env :: env
  call_exchange :: "dnsMsg \<Rightarrow> dnsMsg option"
  call_base :: store_base
  call_msg :: dnsMsg

text \<open>The state a query reads: the version of the map at each lookup, and the lookups made.\<close>

record readerStore = store_base +
  seen :: "nat \<Rightarrow> storeMap"
  pos :: nat

definition histFinder :: "readerStore finder" where
  "histFinder n s = (fmlookup (seen s (pos s)) n, s\<lparr>pos := pos s + 1\<rparr>)"

definition readerAt :: "queryCall \<Rightarrow> (nat \<Rightarrow> storeMap) \<Rightarrow> readerStore" where
  "readerAt c vs = store_base.extend (call_base c) (readerStore.fields vs 0)"

text \<open>
  The reply of a query and how many lookups it made, when the lookups saw \<open>vs\<close> in turn; lookups it has not
  made yet are given \<open>v\<close>, so the number is right up to the first of these.
\<close>

definition queryRun ::
    "dns_lib \<Rightarrow> (dnsMsg \<Rightarrow> dnsMsg) \<Rightarrow> queryCall \<Rightarrow> storeMap \<Rightarrow> storeMap list \<Rightarrow> (dnsMsg \<times> nat) option" where
  "queryRun L R c v vs = map_option (map_prod id pos)
     (ProcessQuery histFinder L (call_env c) R (call_exchange c) (call_msg c) (readerAt c (nth_default v vs)))"

text \<open>The query on a store that does not change: the sequential code.\<close>

definition answerFrom :: "dns_lib \<Rightarrow> (dnsMsg \<Rightarrow> dnsMsg) \<Rightarrow> queryCall \<Rightarrow> storeMap \<Rightarrow> dnsMsg option" where
  "answerFrom L R c st = map_option fst
     (ProcessDNSQuery L (call_env c) R (call_exchange c) (call_msg c)
        (store_base.extend (call_base c) (dnsStore.fields st [] None)))"

section \<open>The interleavings\<close>

text \<open>
  A query has arrived, holds the lock for reading, or is answered. The number is that of the works
  done when it arrived; \<open>v\<close> is the map when it got the lock.
\<close>

datatype queryState =
  Arrived queryCall nat | Reading queryCall nat storeMap "storeMap list" | Answered queryCall nat dnsMsg

datatype writeLock = Unheld | Applying storeWork "(storeMap \<Rightarrow> storeMap) list" | Snapshotting "string option"

record lockState =
  lk_store :: storeMap
  lk_todo :: "storeWork list"
  lk_done :: "storeWork list"
  lk_writer :: writeLock
  lk_queries :: "queryState list"
  lk_snapshots :: "string list"

definition initLocks :: lockState where
  "initLocks = \<lparr>lk_store = fmempty, lk_todo = [], lk_done = [], lk_writer = Unheld, lk_queries = [], lk_snapshots = []\<rparr>"

fun isReading :: "queryState \<Rightarrow> bool" where
  "isReading (Reading c n v vs) = True"
| "isReading q = False"

abbreviation noReader :: "lockState \<Rightarrow> bool" where
  "noReader s \<equiv> list_all (\<lambda>q. \<not> isReading q) (lk_queries s)"

definition setQuery :: "nat \<Rightarrow> queryState \<Rightarrow> lockState \<Rightarrow> lockState" where
  "setQuery i q s = s\<lparr>lk_queries := (lk_queries s)[i := q]\<rparr>"

definition queryAt :: "lockState \<Rightarrow> nat \<Rightarrow> queryState option" where
  "queryAt s i = (if i < length (lk_queries s) then Some (lk_queries s ! i) else None)"

datatype lockAct = Commit storeWork | SkipWork | WLock | Write | WUnlock
  | SnapLock | SnapMarshal | SnapUnlock | Arrive queryCall | TakeRLock nat | Look nat | ReleaseRLock nat

inductive lockStep :: "dns_lib \<Rightarrow> (dnsMsg \<Rightarrow> dnsMsg) \<Rightarrow> lockAct \<Rightarrow> lockState \<Rightarrow> lockState \<Rightarrow> bool"
  for L R where
  commit: "lockStep L R (Commit w) s (s\<lparr>lk_todo := lk_todo s @ [w]\<rparr>)"
| skip: "\<lbrakk>lk_todo s = w # ws; workSteps L w = None; \<forall>w' fs. lk_writer s \<noteq> Applying w' fs\<rbrakk> \<Longrightarrow>
    lockStep L R SkipWork s (s\<lparr>lk_todo := ws, lk_done := lk_done s @ [w]\<rparr>)"
| wlock: "\<lbrakk>lk_todo s = w # ws; workSteps L w = Some fs; lk_writer s = Unheld; noReader s\<rbrakk> \<Longrightarrow>
    lockStep L R WLock s (s\<lparr>lk_todo := ws, lk_writer := Applying w fs\<rparr>)"
| wwrite: "lk_writer s = Applying w (f # fs) \<Longrightarrow>
    lockStep L R Write s (s\<lparr>lk_store := f (lk_store s), lk_writer := Applying w fs\<rparr>)"
| wunlock: "lk_writer s = Applying w [] \<Longrightarrow>
    lockStep L R WUnlock s (s\<lparr>lk_writer := Unheld, lk_done := lk_done s @ [w]\<rparr>)"
| snaplock: "\<lbrakk>lk_writer s = Unheld; noReader s\<rbrakk> \<Longrightarrow>
    lockStep L R SnapLock s (s\<lparr>lk_writer := Snapshotting None\<rparr>)"
| snapmarshal: "lk_writer s = Snapshotting None \<Longrightarrow>
    lockStep L R SnapMarshal s (s\<lparr>lk_writer := Snapshotting (Some (printJson (marshalStore (lk_store s))))\<rparr>)"
| snapunlock: "lk_writer s = Snapshotting (Some d) \<Longrightarrow>
    lockStep L R SnapUnlock s (s\<lparr>lk_writer := Unheld, lk_snapshots := lk_snapshots s @ [d]\<rparr>)"
| arrive: "lockStep L R (Arrive c) s (s\<lparr>lk_queries := lk_queries s @ [Arrived c (length (lk_done s))]\<rparr>)"
| rlock: "\<lbrakk>queryAt s i = Some (Arrived c n); lk_writer s = Unheld\<rbrakk> \<Longrightarrow>
    lockStep L R (TakeRLock i) s (setQuery i (Reading c n (lk_store s) []) s)"
| look: "\<lbrakk>queryAt s i = Some (Reading c n v vs); \<forall>reply. queryRun L R c v vs \<noteq> Some (reply, length vs)\<rbrakk> \<Longrightarrow>
    lockStep L R (Look i) s (setQuery i (Reading c n v (vs @ [lk_store s])) s)"
| runlock: "\<lbrakk>queryAt s i = Some (Reading c n v vs); queryRun L R c v vs = Some (reply, length vs)\<rbrakk> \<Longrightarrow>
    lockStep L R (ReleaseRLock i) s (setQuery i (Answered c n reply) s)"

inductive lockRun :: "dns_lib \<Rightarrow> (dnsMsg \<Rightarrow> dnsMsg) \<Rightarrow> lockState \<Rightarrow> bool"
  for L R where
  start: "lockRun L R initLocks"
| step: "lockRun L R s \<Longrightarrow> lockStep L R a s t \<Longrightarrow> lockRun L R t"

section \<open>Lemmas: sections\<close>

lemma fmupd_same [simp]: "fmupd k x (fmupd k y m) = fmupd k x m"
  by (rule fmap_ext) simp

lemma fmdrop_upd_same [simp]: "fmdrop k (fmupd k x m) = fmdrop k m"
  by (rule fmap_ext) simp

lemma insertSteps_effect: "foldl (\<lambda>st f. f st) st (insertSteps L rr) = storeInsert L rr st"
  by (simp add: insertSteps_def storeInsert_def Let_def fm_getl_def split: option.split)

lemma fmupd_lookup [simp]: "fmlookup m k = Some x \<Longrightarrow> fmupd k x m = m"
  by (rule fmap_ext) auto

lemma deleteSteps_effect: "foldl (\<lambda>st f. f st) st (deleteSteps name ty) = storeDelete name ty st"
  by (auto simp: deleteSteps_def storeDelete_def Let_def split: option.splits)

lemma workSteps_effect:
  "workSteps L w = Some fs \<Longrightarrow> foldl (\<lambda>st f. f st) st fs = workEffect L w st"
  by (auto simp: workSteps_def workEffect_def applyTo_def insertSteps_effect deleteSteps_effect
      split: storeWork.splits if_splits option.splits)

lemma workSteps_None: "workSteps L w = None \<Longrightarrow> workEffect L w st = st"
  by (auto simp: workSteps_def workEffect_def applyTo_def split: storeWork.splits if_splits)

section \<open>Lemmas: what a reader sees\<close>

text \<open>Lookups that all see the same map are lookups in that map.\<close>

interpretation hf: name_finder histFinder "\<lambda>s. st" "\<lambda>s. seen s = (\<lambda>_. st)" for st
  by unfold_locales (simp_all add: histFinder_def store_base.truncate_def)

lemma truncate_extend [simp]: "store_base.truncate (store_base.extend b m) = b"
  by (cases b) (simp add: store_base.truncate_def store_base.extend_def)

lemma store_extend [simp]: "store (store_base.extend b (dnsStore.fields st cf lk)) = st"
  by (cases b) (simp add: store_base.extend_def dnsStore.fields_def)

lemma seen_readerAt [simp]: "seen (readerAt c vs) = vs"
  by (cases "call_base c") (simp add: readerAt_def store_base.extend_def readerStore.fields_def)

lemma truncate_readerAt [simp]: "store_base.truncate (readerAt c vs) = call_base c"
  by (simp add: readerAt_def)

lemma nth_default_same: "\<forall>v' \<in> set vs. v' = v \<Longrightarrow> nth_default v vs = (\<lambda>_. v)"
  by (auto simp: nth_default_def)

lemma queryRun_same: "\<forall>v' \<in> set vs. v' = v \<Longrightarrow> queryRun L R c v vs = queryRun L R c v []"
  by (simp add: queryRun_def nth_default_same)

lemma queryRun_answer: "answerFrom L R c v = map_option fst (queryRun L R c v [])"
proof -
  let ?P = "\<lambda>look s. ProcessQuery look L (call_env c) R (call_exchange c) (call_msg c) s"
  let ?s = "store_base.extend (call_base c) (dnsStore.fields v [] None)"
  have "map_option (map_prod id store_base.truncate) (?P histFinder (readerAt c (\<lambda>_. v)))
      = map_option (map_prod id store_base.truncate) (?P flatFinder ?s)"
    using hf.process_ref [of "readerAt c (\<lambda>_. v)" v L "call_env c" R "call_exchange c" "call_msg c"]
      ff.process_ref [OF cacheFrame_refl, of L "call_env c" R "call_exchange c" "call_msg c" ?s] by simp
  then show ?thesis
    by (cases "?P histFinder (readerAt c (\<lambda>_. v))"; cases "?P flatFinder ?s")
      (auto simp: answerFrom_def ProcessDNSQuery_def queryRun_def nth_default_same)
qed

section \<open>Lemmas: the invariant\<close>

definition storeAfter :: "dns_lib \<Rightarrow> storeWork list \<Rightarrow> storeMap" where
  "storeAfter L ws = fold (workEffect L) ws fmempty"

lemma storeAfter_snoc [simp]: "storeAfter L (ws @ [w]) = workEffect L w (storeAfter L ws)"
  by (simp add: storeAfter_def)

text \<open>Between a \<open>Lock\<close> and its \<open>Unlock\<close> the statements that are left lead to the effect of the work.\<close>

definition storeInv :: "dns_lib \<Rightarrow> lockState \<Rightarrow> bool" where
  "storeInv L s = (case lk_writer s of
       Applying w fs \<Rightarrow> foldl (\<lambda>st f. f st) (lk_store s) fs = workEffect L w (storeAfter L (lk_done s))
     | _ \<Rightarrow> lk_store s = storeAfter L (lk_done s))"

text \<open>While a query holds the lock the map is the one it found.\<close>

definition queryInv :: "dns_lib \<Rightarrow> (dnsMsg \<Rightarrow> dnsMsg) \<Rightarrow> lockState \<Rightarrow> queryState \<Rightarrow> bool" where
  "queryInv L R s q = (case q of
       Arrived c n \<Rightarrow> n \<le> length (lk_done s)
     | Reading c n v vs \<Rightarrow> n \<le> length (lk_done s) \<and> lk_writer s = Unheld \<and> v = lk_store s \<and>
         (\<forall>v' \<in> set vs. v' = v) \<and> (\<forall>reply k. queryRun L R c v [] = Some (reply, k) \<longrightarrow> length vs \<le> k)
     | Answered c n reply \<Rightarrow> \<exists>m. n \<le> m \<and> m \<le> length (lk_done s) \<and>
         answerFrom L R c (storeAfter L (take m (lk_done s))) = Some reply)"

definition snapOf :: "dns_lib \<Rightarrow> storeWork list \<Rightarrow> string \<Rightarrow> bool" where
  "snapOf L ws d \<longleftrightarrow> (\<exists>m \<le> length ws. d = printJson (marshalStore (storeAfter L (take m ws))))"

definition snapInv :: "dns_lib \<Rightarrow> lockState \<Rightarrow> bool" where
  "snapInv L s \<longleftrightarrow> (\<forall>d \<in> set (lk_snapshots s). snapOf L (lk_done s) d) \<and>
     (\<forall>d. lk_writer s = Snapshotting (Some d) \<longrightarrow> snapOf L (lk_done s) d)"

definition lockInv :: "dns_lib \<Rightarrow> (dnsMsg \<Rightarrow> dnsMsg) \<Rightarrow> lockState \<Rightarrow> bool" where
  "lockInv L R s \<longleftrightarrow> storeInv L s \<and> snapInv L s \<and> (\<forall>q \<in> set (lk_queries s). queryInv L R s q)"

lemma snapOf_mono: "snapOf L ws d \<Longrightarrow> snapOf L (ws @ ws') d"
proof -
  assume "snapOf L ws d"
  then obtain m where "m \<le> length ws" "d = printJson (marshalStore (storeAfter L (take m ws)))"
    unfolding snapOf_def by blast
  then show ?thesis unfolding snapOf_def by (intro exI [of _ m]) simp
qed

lemma recover_marshalled: "recoverFromSnapshot (printJson (marshalStore st)) t = Inr (t\<lparr>store := st\<rparr>)"
  using recover_getSnapshot [of "(emptyDNSStore [] 1)\<lparr>store := st\<rparr>" t]
  by (simp add: getSnapshot_def emptyDNSStore_def)

lemma snapOf_now: "snapOf L ws (printJson (marshalStore (storeAfter L ws)))"
  unfolding snapOf_def by (rule exI [of _ "length ws"]) simp

lemma queryInv_mono:
  assumes "queryInv L R s q" "lk_done t = lk_done s @ ws"
    and "isReading q \<Longrightarrow> lk_writer t = lk_writer s \<and> lk_store t = lk_store s"
  shows "queryInv L R t q"
proof (cases q)
  case (Answered c n reply)
  with assms(1) obtain m where "n \<le> m" "m \<le> length (lk_done s)"
    "answerFrom L R c (storeAfter L (take m (lk_done s))) = Some reply" by (auto simp: queryInv_def)
  then show ?thesis unfolding Answered queryInv_def queryState.case
    by (intro exI [of _ m]) (simp add: assms(2))
qed (use assms in \<open>auto simp: queryInv_def\<close>)

text \<open>A step of the loop or the driver: no query reads while it holds the lock.\<close>

lemma queries_mono:
  assumes "\<forall>q \<in> set (lk_queries s). queryInv L R s q" "lk_done t = lk_done s @ ws" "lk_queries t = lk_queries s"
    and "noReader s \<or> lk_writer s \<noteq> Unheld \<or> lk_writer t = lk_writer s \<and> lk_store t = lk_store s"
  shows "\<forall>q \<in> set (lk_queries t). queryInv L R t q"
proof
  fix q
  assume "q \<in> set (lk_queries t)"
  then have q: "q \<in> set (lk_queries s)" "queryInv L R s q" using assms(1,3) by simp_all
  moreover have "isReading q \<Longrightarrow> lk_writer s = Unheld" using q(2) by (cases q) (auto simp: queryInv_def)
  ultimately show "queryInv L R t q"
    using assms(4) by (intro queryInv_mono [OF _ assms(2)]) (auto simp: list_all_iff)
qed

lemma queryAt_SomeD: "queryAt s i = Some q \<Longrightarrow> i < length (lk_queries s) \<and> lk_queries s ! i = q \<and> q \<in> set (lk_queries s)"
  by (auto simp: queryAt_def split: if_splits)

text \<open>A step of one query: the others keep what they know.\<close>

lemma queries_frame [simp]:
  "queryInv L R (s\<lparr>lk_queries := qs\<rparr>) = queryInv L R s"
  "storeInv L (s\<lparr>lk_queries := qs\<rparr>) = storeInv L s" "snapInv L (s\<lparr>lk_queries := qs\<rparr>) = snapInv L s"
  by (auto simp: fun_eq_iff queryInv_def storeInv_def snapInv_def split: queryState.split writeLock.split)

lemma setQuery_inv:
  assumes "lockInv L R s" "queryInv L R s q"
  shows "lockInv L R (setQuery i q s)"
proof -
  let ?t = "setQuery i q s"
  have same: "queryInv L R ?t = queryInv L R s" "storeInv L ?t = storeInv L s" "snapInv L ?t = snapInv L s"
    by (simp_all add: setQuery_def)
  have "set (lk_queries ?t) \<subseteq> insert q (set (lk_queries s))"
    by (simp add: setQuery_def set_update_subset_insert)
  then show ?thesis using assms unfolding lockInv_def same by blast
qed

lemmas lockInv_defs = lockInv_def storeInv_def snapInv_def

lemma lockStep_inv: "lockStep L R a s t \<Longrightarrow> lockInv L R s \<Longrightarrow> lockInv L R t"
proof (induction rule: lockStep.induct)
  case (commit w s)
  then show ?case using queries_mono [of s L R "s\<lparr>lk_todo := lk_todo s @ [w]\<rparr>" "[]"]
    by (simp add: lockInv_defs split: writeLock.splits)
next
  case (skip s w ws)
  then show ?case
    using queries_mono [of s L R "s\<lparr>lk_todo := ws, lk_done := lk_done s @ [w]\<rparr>" "[w]"]
    by (auto simp: lockInv_defs workSteps_None snapOf_mono split: writeLock.splits)
next
  case (wlock s w ws fs)
  then show ?case
    using queries_mono [of s L R "s\<lparr>lk_todo := ws, lk_writer := Applying w fs\<rparr>" "[]"]
    by (simp add: lockInv_defs workSteps_effect)
next
  case (wwrite s w f fs)
  then show ?case
    using queries_mono [of s L R "s\<lparr>lk_store := f (lk_store s), lk_writer := Applying w fs\<rparr>" "[]"]
    by (simp add: lockInv_defs)
next
  case (wunlock s w)
  then show ?case
    using queries_mono [of s L R "s\<lparr>lk_writer := Unheld, lk_done := lk_done s @ [w]\<rparr>" "[w]"]
    by (simp add: lockInv_defs snapOf_mono)
next
  case (snaplock s)
  then show ?case
    using queries_mono [of s L R "s\<lparr>lk_writer := Snapshotting None\<rparr>" "[]"]
    by (simp add: lockInv_defs)
next
  case (snapmarshal s)
  then show ?case
    using queries_mono [of s L R "s\<lparr>lk_writer := Snapshotting (Some (printJson (marshalStore (lk_store s))))\<rparr>" "[]"]
    by (simp add: lockInv_defs snapOf_now)
next
  case (snapunlock s d)
  then show ?case
    using queries_mono [of s L R "s\<lparr>lk_writer := Unheld, lk_snapshots := lk_snapshots s @ [d]\<rparr>" "[]"]
    by (auto simp: lockInv_defs)
next
  case (arrive c s)
  then show ?case
    by (simp add: lockInv_def queryInv_def)
next
  case (rlock s i c n)
  then have "queryInv L R s (Arrived c n)" by (auto simp: lockInv_def dest: queryAt_SomeD)
  with rlock show ?case by (intro setQuery_inv) (simp_all add: queryInv_def)
next
  case (look s i c n v vs)
  then have q: "queryInv L R s (Reading c n v vs)" by (auto simp: lockInv_def dest: queryAt_SomeD)
  then have "queryRun L R c v vs = queryRun L R c v []" by (intro queryRun_same) (auto simp: queryInv_def)
  with look q show ?case by (intro setQuery_inv) (auto simp: queryInv_def Suc_le_eq le_neq_implies_less)
next
  case (runlock s i c n v vs reply)
  then have q: "queryInv L R s (Reading c n v vs)" by (auto simp: lockInv_def dest: queryAt_SomeD)
  then have "queryRun L R c v vs = queryRun L R c v []" by (intro queryRun_same) (auto simp: queryInv_def)
  with runlock(2) have "answerFrom L R c v = Some reply" by (simp add: queryRun_answer)
  moreover have "v = storeAfter L (lk_done s)" "n \<le> length (lk_done s)"
    using q runlock(3) by (simp_all add: queryInv_def lockInv_defs)
  ultimately have "queryInv L R s (Answered c n reply)"
    unfolding queryInv_def queryState.case by (intro exI [of _ "length (lk_done s)"]) simp
  with runlock(3) show ?case by (rule setQuery_inv)
qed

lemma lockRun_inv: "lockRun L R s \<Longrightarrow> lockInv L R s"
proof (induction rule: lockRun.induct)
  case start
  show ?case by (simp add: lockInv_defs initLocks_def storeAfter_def)
qed (rule lockStep_inv)

section \<open>Lemmas: progress\<close>

definition unfinished :: "lockState \<Rightarrow> bool" where
  "unfinished s \<longleftrightarrow> lk_todo s \<noteq> [] \<or> lk_writer s \<noteq> Unheld \<or>
     (\<exists>q \<in> set (lk_queries s). \<forall>c n reply. q \<noteq> Answered c n reply)"

text \<open>The steps of goroutines that have work in hand.\<close>

fun ownStep :: "lockAct \<Rightarrow> bool" where
  "ownStep (Commit w) = False"
| "ownStep (Arrive c) = False"
| "ownStep SnapLock = False"
| "ownStep a = True"

lemma movesI: "lockStep L R a s t \<Longrightarrow> ownStep a \<Longrightarrow> \<exists>a t. ownStep a \<and> lockStep L R a s t"
  by blast

lemma holder_moves: "lk_writer s \<noteq> Unheld \<Longrightarrow> \<exists>a t. ownStep a \<and> lockStep L R a s t"
proof (cases "lk_writer s")
  case (Applying w fs)
  then show ?thesis by (cases fs) (fastforce intro: movesI lockStep.wwrite lockStep.wunlock)+
next
  case (Snapshotting d)
  then show ?thesis by (cases d) (fastforce intro: movesI lockStep.snapmarshal lockStep.snapunlock)+
qed simp

lemma query_moves:
  assumes "lk_writer s = Unheld" "q \<in> set (lk_queries s)" "\<forall>c n reply. q \<noteq> Answered c n reply"
  shows "\<exists>a t. ownStep a \<and> lockStep L R a s t"
proof -
  obtain i where "i < length (lk_queries s)" "q = lk_queries s ! i" using assms(2) by (auto simp: in_set_conv_nth)
  then have i: "queryAt s i = Some q" by (simp add: queryAt_def)
  show ?thesis
  proof (cases q)
    case (Arrived c n)
    with i assms(1) show ?thesis by (intro movesI [OF lockStep.rlock]) simp_all
  next
    case (Reading c n v vs)
    show ?thesis
    proof (cases "\<exists>reply. queryRun L R c v vs = Some (reply, length vs)")
      case True
      then obtain reply where "queryRun L R c v vs = Some (reply, length vs)" ..
      with i Reading show ?thesis by (intro movesI [OF lockStep.runlock]) simp_all
    next
      case False
      with i Reading show ?thesis by (intro movesI [OF lockStep.look]) simp_all
    qed
  qed (use assms(3) in simp)
qed

lemma loop_moves:
  assumes "lk_writer s = Unheld" "lk_todo s = w # ws" "noReader s"
  shows "\<exists>a t. ownStep a \<and> lockStep L R a s t"
proof (cases "workSteps L w")
  case None
  show ?thesis by (rule movesI [OF lockStep.skip [OF assms(2) None]]) (simp_all add: assms(1))
next
  case (Some fs)
  show ?thesis by (rule movesI [OF lockStep.wlock [OF assms(2) Some assms(1,3)]]) simp
qed

lemma no_deadlock:
  assumes "unfinished s"
  shows "\<exists>a t. ownStep a \<and> lockStep L R a s t"
proof (cases "lk_writer s = Unheld")
  case unheld: True
  show ?thesis
  proof (cases "\<exists>q \<in> set (lk_queries s). \<forall>c n reply. q \<noteq> Answered c n reply")
    case True
    with unheld show ?thesis by (blast intro: query_moves)
  next
    case False
    with assms unheld obtain w ws where "lk_todo s = w # ws" by (cases "lk_todo s") (auto simp: unfinished_def)
    moreover have "noReader s" using False by (fastforce simp: list_all_iff elim: isReading.elims)
    ultimately show ?thesis using unheld by (intro loop_moves)
  qed
qed (rule holder_moves)

text \<open>What is left to do, most important first.\<close>

definition writerLeft :: "lockState \<Rightarrow> nat" where
  "writerLeft s = (case lk_writer s of
       Unheld \<Rightarrow> 0 | Applying w fs \<Rightarrow> length fs + 1 | Snapshotting None \<Rightarrow> 2 | Snapshotting (Some d) \<Rightarrow> 1)"

definition countQueries :: "(queryState \<Rightarrow> nat) \<Rightarrow> lockState \<Rightarrow> nat" where
  "countQueries f s = sum_list (map f (lk_queries s))"

definition arrivedOne :: "queryState \<Rightarrow> nat" where
  "arrivedOne q = (case q of Arrived c n \<Rightarrow> 1 | _ \<Rightarrow> 0)"

definition readingOne :: "queryState \<Rightarrow> nat" where
  "readingOne q = (if isReading q then 1 else 0)"

definition lookupsLeft :: "dns_lib \<Rightarrow> (dnsMsg \<Rightarrow> dnsMsg) \<Rightarrow> queryState \<Rightarrow> nat" where
  "lookupsLeft L R q = (case q of
       Reading c n v vs \<Rightarrow> (case queryRun L R c v [] of None \<Rightarrow> 0 | Some (reply, k) \<Rightarrow> k - length vs)
     | _ \<Rightarrow> 0)"

definition workLeft :: "dns_lib \<Rightarrow> (dnsMsg \<Rightarrow> dnsMsg) \<Rightarrow> (lockState \<times> lockState) set" where
  "workLeft L R = measures [\<lambda>s. length (lk_todo s), writerLeft, countQueries arrivedOne, countQueries readingOne,
     countQueries (lookupsLeft L R)]"

text \<open>No query that holds the lock follows a cycle of CNAME records.\<close>

definition readersReturn :: "dns_lib \<Rightarrow> (dnsMsg \<Rightarrow> dnsMsg) \<Rightarrow> lockState \<Rightarrow> bool" where
  "readersReturn L R s \<longleftrightarrow> (\<forall>c n v vs. Reading c n v vs \<in> set (lk_queries s) \<longrightarrow> queryRun L R c v [] \<noteq> None)"

lemma countQueries_set:
  assumes "queryAt s i = Some q0"
  shows "countQueries f (setQuery i q s) + f q0 = countQueries f s + f q"
proof -
  have i: "i < length (lk_queries s)" "lk_queries s ! i = q0" using queryAt_SomeD [OF assms] by simp_all
  then have "f q0 \<le> sum_list (map f (lk_queries s))" by (intro member_le_sum_list) (auto intro: rev_image_eqI)
  with i show ?thesis by (simp add: countQueries_def setQuery_def map_update sum_list_update)
qed

lemma setQuery_frame [simp]:
  "lk_todo (setQuery i q s) = lk_todo s" "writerLeft (setQuery i q s) = writerLeft s"
  by (simp_all add: setQuery_def writerLeft_def)

lemma workLeft_decreases:
  assumes "lockStep L R a s t" "ownStep a" "lockInv L R s" "readersReturn L R s"
  shows "(t, s) \<in> workLeft L R"
  using assms
proof (induction rule: lockStep.induct)
  case (rlock s i c n)
  from countQueries_set [OF rlock(1), of arrivedOne "Reading c n (lk_store s) []"]
  show ?case by (simp add: workLeft_def arrivedOne_def)
next
  case (runlock s i c n v vs reply)
  from countQueries_set [OF runlock(1), of arrivedOne "Answered c n reply"]
    countQueries_set [OF runlock(1), of readingOne "Answered c n reply"]
  show ?case by (simp add: workLeft_def arrivedOne_def readingOne_def)
next
  case (look s i c n v vs)
  let ?q = "Reading c n v vs" and ?q' = "Reading c n v (vs @ [lk_store s])"
  have mem: "?q \<in> set (lk_queries s)" using queryAt_SomeD [OF look(1)] by simp
  with look have q: "queryInv L R s ?q" by (simp add: lockInv_def)
  obtain reply k where run: "queryRun L R c v [] = Some (reply, k)"
    using look(5) mem unfolding readersReturn_def by (metis not_Some_eq surj_pair)
  moreover have "queryRun L R c v vs = queryRun L R c v []" using q by (intro queryRun_same) (auto simp: queryInv_def)
  moreover have "length vs \<le> k" using q run by (simp add: queryInv_def)
  ultimately have "lookupsLeft L R ?q' < lookupsLeft L R ?q" using look(2) by (auto simp: lookupsLeft_def)
  with countQueries_set [OF look(1), of arrivedOne ?q'] countQueries_set [OF look(1), of readingOne ?q']
    countQueries_set [OF look(1), of "lookupsLeft L R" ?q']
  show ?case by (simp add: workLeft_def arrivedOne_def readingOne_def)
qed (simp_all add: workLeft_def writerLeft_def countQueries_def)

section \<open>Lemmas: undisturbed sections\<close>

lemma run_writes:
  "lockRun L R s \<Longrightarrow> lk_writer s = Applying w fs \<Longrightarrow>
     lockRun L R (s\<lparr>lk_store := foldl (\<lambda>st f. f st) (lk_store s) fs, lk_writer := Applying w []\<rparr>)"
proof (induction fs arbitrary: s)
  case (Cons f fs)
  have "lockRun L R (s\<lparr>lk_store := f (lk_store s), lk_writer := Applying w fs\<rparr>)"
    by (rule lockRun.step [OF Cons.prems(1) lockStep.wwrite [OF Cons.prems(2)]])
  from Cons.IH [OF this] show ?case by simp
next
  case Nil
  then show ?case by (cases s) simp
qed

lemma run_work:
  assumes "lockRun L R s" "lk_writer s = Unheld" "noReader s" "lk_todo s = w # ws" "workSteps L w = Some fs"
  shows "lockRun L R (s\<lparr>lk_store := workEffect L w (lk_store s), lk_todo := ws, lk_done := lk_done s @ [w]\<rparr>)"
proof -
  have "lockRun L R (s\<lparr>lk_todo := ws, lk_writer := Applying w fs\<rparr>)"
    by (rule lockRun.step [OF assms(1) lockStep.wlock [OF assms(4,5,2,3)]])
  from lockRun.step [OF run_writes [OF this, of w fs] lockStep.wunlock [of _ w]] show ?thesis
    using assms(2,5) by (cases s) (simp add: workSteps_effect)
qed

lemma run_query:
  assumes "lockRun L R s" "queryAt s i = Some (Reading c n (lk_store s) vs)" "\<forall>v' \<in> set vs. v' = lk_store s"
    and "queryRun L R c (lk_store s) [] = Some (reply, k)" "length vs \<le> k"
  shows "lockRun L R (setQuery i (Answered c n reply) s)"
  using assms
proof (induction "k - length vs" arbitrary: s vs)
  case 0
  have "queryRun L R c (lk_store s) vs = Some (reply, length vs)"
    unfolding queryRun_same [OF 0(4)] using 0(1,5,6) by simp
  from lockRun.step [OF 0(2) lockStep.runlock [OF 0(3) this]] show ?case .
next
  case (Suc d)
  let ?t = "setQuery i (Reading c n (lk_store s) (vs @ [lk_store s])) s"
  have i: "i < length (lk_queries s)" using Suc(4) by (blast dest: queryAt_SomeD)
  have "\<forall>r. queryRun L R c (lk_store s) vs \<noteq> Some (r, length vs)"
    unfolding queryRun_same [OF Suc(5)] using Suc(2,6) by simp
  from lockRun.step [OF Suc(3) lockStep.look [OF Suc(4) this]] have t: "lockRun L R ?t" .
  have "lockRun L R (setQuery i (Answered c n reply) ?t)"
  proof (rule Suc(1) [OF _ t])
    show "d = k - length (vs @ [lk_store s])" "length (vs @ [lk_store s]) \<le> k" using Suc(2) by simp_all
    show "queryAt ?t i = Some (Reading c n (lk_store ?t) (vs @ [lk_store s]))"
      using i by (simp add: queryAt_def setQuery_def)
    show "\<forall>v' \<in> set (vs @ [lk_store s]). v' = lk_store ?t" using Suc(5) by (auto simp: setQuery_def)
    show "queryRun L R c (lk_store ?t) [] = Some (reply, k)" using Suc(6) by (simp add: setQuery_def)
  qed
  then show ?case by (simp add: setQuery_def)
qed

lemma run_arrived:
  assumes "lockRun L R s" "lk_writer s = Unheld" "answerFrom L R c (lk_store s) = Some reply"
  shows "lockRun L R (s\<lparr>lk_queries := lk_queries s @ [Answered c (length (lk_done s)) reply]\<rparr>)"
proof -
  let ?i = "length (lk_queries s)" and ?n = "length (lk_done s)"
  let ?s1 = "s\<lparr>lk_queries := lk_queries s @ [Arrived c ?n]\<rparr>"
  let ?s2 = "setQuery ?i (Reading c ?n (lk_store s) []) ?s1"
  have s1: "lockRun L R ?s1" by (rule lockRun.step [OF assms(1) lockStep.arrive])
  have "queryAt ?s1 ?i = Some (Arrived c ?n)" by (simp add: queryAt_def)
  from lockRun.step [OF s1 lockStep.rlock [OF this]] assms(2) have s2: "lockRun L R ?s2" by simp
  obtain k where "queryRun L R c (lk_store s) [] = Some (reply, k)" using assms(3) by (auto simp: queryRun_answer)
  with run_query [OF s2, of ?i c ?n "[]" reply k] show ?thesis by (simp add: setQuery_def queryAt_def)
qed

section \<open>Properties\<close>

text \<open>
  C9. Queries are answered from a prefix of the log, though they run in parallel with the commit
  loop: whatever the interleaving of lookups, writes, snapshots and other queries, the reply of an
  answered query is that of the sequential code on the map after some first works of the log, all
  those among them that were done when the query arrived. And every snapshot taken restores the map
  after some first works.
\<close>

theorem queries_see_a_prefix:
  assumes "lockRun L R s"
  shows "(queryAt s i = Some (Answered c n reply) \<longrightarrow>
       (\<exists>m. n \<le> m \<and> m \<le> length (lk_done s) \<and>
          answerFrom L R c (storeAfter L (take m (lk_done s))) = Some reply)) \<and>
     (d \<in> set (lk_snapshots s) \<longrightarrow>
       (\<exists>m \<le> length (lk_done s).
          recoverFromSnapshot d t = Inr (t\<lparr>store := storeAfter L (take m (lk_done s))\<rparr>)))"
proof -
  have inv: "lockInv L R s" using assms by (rule lockRun_inv)
  have "queryInv L R s (Answered c n reply)" if "queryAt s i = Some (Answered c n reply)"
    using inv that by (auto simp: lockInv_def dest: queryAt_SomeD)
  moreover have "\<exists>m \<le> length (lk_done s). recoverFromSnapshot d t = Inr (t\<lparr>store := storeAfter L (take m (lk_done s))\<rparr>)"
    if "d \<in> set (lk_snapshots s)"
  proof -
    have "snapOf L (lk_done s) d" using inv that by (simp add: lockInv_def snapInv_def)
    then show ?thesis unfolding snapOf_def by (auto simp only: recover_marshalled)
  qed
  ultimately show ?thesis by (simp add: queryInv_def)
qed

lemma queries_see_a_prefix_witness:
  "\<exists>s c reply. lockRun sampleLib id s \<and> queryAt s 0 = Some (Answered c 1 reply) \<and>
     Answer reply = [sampleRR ''a.'' TypeA ''10.0.0.1''] \<and>
     (\<exists>m. 1 \<le> m \<and> m \<le> length (lk_done s) \<and>
        answerFrom sampleLib id c (storeAfter sampleLib (take m (lk_done s))) = Some reply)"
proof -
  let ?rr = "sampleRR ''a.'' TypeA ''10.0.0.1''"
  let ?w = "Proposal (addProposal (RRString sampleLib ?rr))"
  let ?q = "newMsg\<lparr>Questions := [\<lparr>q_Name = ''a.'', q_Qtype = TypeA\<rparr>]\<rparr>"
  let ?c = "\<lparr>call_env = sampleEnv 0, call_exchange = (\<lambda>q. None), call_base = store_base.truncate (emptyDNSStore [] 1), call_msg = ?q\<rparr>"
  let ?st = "storeInsert sampleLib ?rr fmempty"
  let ?s = "initLocks\<lparr>lk_store := ?st, lk_done := [?w]\<rparr>"
  let ?reply = "?q\<lparr>Answer := [?rr], RecursionAvailable := True\<rparr>"
  have lower: "toLower ''a.'' = ''a.''" by (simp add: toLower_def toLowerChar_def char_of_code)
  have parse: "parseRR sampleLib (RRString sampleLib ?rr) = Some ?rr" by (simp add: sampleLib_parse)
  have "lockRun sampleLib id (initLocks\<lparr>lk_todo := [?w]\<rparr>)"
    using lockRun.step [OF lockRun.start lockStep.commit, of sampleLib id ?w] by (simp add: initLocks_def)
  from run_work [OF this, of ?w "[]"] parse have run: "lockRun sampleLib id ?s"
    by (simp add: initLocks_def workSteps_def workEffect_def applyTo_def addProposal_def)
  let ?d = "store_base.extend (call_base ?c) (dnsStore.fields ?st [] None)"
  have "parseRRs sampleLib (rrsAt (store ?d) (toLower ''a.'') TypeA) = [?rr]"
    using parse by (simp add: lower go_simps parseRRs_def map_filter_simps del: store_extend) (simp add: go_simps lower)
  then have "HandleSingleQuestion sampleLib (sampleEnv 0) ''a.'' TypeA ?q ?d = Some (True, ?q\<lparr>Answer := [?rr]\<rparr>, ?d)"
    using HandleSingleQuestion_exact [of sampleLib ?d "''a.''" TypeA] by (simp add: newMsg_def)
  then have "answerFrom sampleLib id ?c ?st = Some ?reply"
    by (simp add: answerFrom_def ProcessDNSQuery_def ProcessQuery_def HandleSingleQuestion_def newMsg_def)
  with run_arrived [OF run, of ?c ?reply]
  have run: "lockRun sampleLib id (?s\<lparr>lk_queries := [Answered ?c 1 ?reply]\<rparr>)" (is "lockRun _ _ ?t")
    by (simp add: initLocks_def)
  have at: "queryAt ?t 0 = Some (Answered ?c 1 ?reply)" by (simp add: queryAt_def)
  from queries_see_a_prefix [OF run, of 0 ?c 1 ?reply] at
  have "\<exists>m. 1 \<le> m \<and> m \<le> length (lk_done ?t) \<and>
      answerFrom sampleLib id ?c (storeAfter sampleLib (take m (lk_done ?t))) = Some ?reply" by blast
  with run at show ?thesis by (intro exI [of _ ?t] exI [of _ ?c] exI [of _ ?reply]) simp
qed



section \<open>What the lock does not protect\<close>

text \<open>
  Any number of queries hold the lock at once, and each may write the cache: \<open>getCacheRecords\<close> deletes
  the records whose time is over. (\<open>addCacheRecord\<close>, called for \<open>/addcache\<close> and after \<open>RUnlock\<close> for what
  a recursive query returned, holds no lock at all.)
\<close>

lemma queries_write_the_cache_together:
  "\<exists>s. lockRun L R s \<and> lk_queries s = [Reading c1 0 fmempty [], Reading c2 0 fmempty []]"
proof -
  let ?s0 = "initLocks\<lparr>lk_queries := [Arrived c1 0, Arrived c2 0]\<rparr>"
  have "lockRun L R (initLocks\<lparr>lk_queries := [Arrived c1 0]\<rparr>)"
    using lockRun.step [OF lockRun.start lockStep.arrive, of L R c1] by (simp add: initLocks_def)
  from lockRun.step [OF this lockStep.arrive, of c2] have s0: "lockRun L R ?s0" by (simp add: initLocks_def)
  have "lockRun L R (setQuery 0 (Reading c1 0 fmempty []) ?s0)"
    using lockRun.step [OF s0 lockStep.rlock, of 0 c1 0] by (simp add: initLocks_def queryAt_def)
  from lockRun.step [OF this lockStep.rlock, of 1 c2 0] show ?thesis
    by (auto simp: initLocks_def queryAt_def setQuery_def)
qed

end
