(* ===== verification/Load_Generator.thy ===== *)
theory Load_Generator
  imports Record_Transfer
begin

text \<open>
  The load generators, \<open>dns/benchmark/benchmark.go\<close> and \<open>dns/benchmark/fault_tolerance/bench.go\<close>: the
  requests they make, the records they fill a name server with, and what they compute from the
  times they measure. Requests go through the \<open>http_client\<close> of \<open>Hash_Server\<close>, questions through an
  exchange function; clocks, sleeps and random draws are arguments. Averages are only printed and
  left out.
\<close>

section \<open>Requests\<close>

definition benchName :: "nat \<Rightarrow> string" where
  "benchName i = ''example-'' @ decimal i @ ''.com.''"

definition benchRecord :: "nat \<Rightarrow> nat \<Rightarrow> nat \<Rightarrow> nat \<Rightarrow> nat \<Rightarrow> string" where
  "benchRecord i a b c d = benchName i @ '' IN A '' @ decimal a @ ''.'' @ decimal b @ ''.'' @ decimal c @ ''.'' @ decimal d"

text \<open>\<open>rand.Intn\<close> gives a number below its argument; \<open>r\<close> is the draw.\<close>

definition getDNSServerIP :: "string list \<Rightarrow> nat \<Rightarrow> string" where
  "getDNSServerIP dnsIPs r = dnsIPs ! (r mod length dnsIPs)"

definition writeRequest :: "'w http_client \<Rightarrow> string \<Rightarrow> string \<Rightarrow> 'w \<Rightarrow> bool \<times> 'w" where
  "writeRequest C ip rrText w =
     (let addr = apiURL ip ''/add''
      in if \<not> validURL C addr then (False, w)
         else (case clientDo C ''PUT'' addr rrText w of
             (Inl err, w') \<Rightarrow> (False, w')
           | (Inr resp, w') \<Rightarrow> (True, w')))"

definition deleteText :: "string \<Rightarrow> string \<Rightarrow> string" where
  "deleteText name rrType = ''{ \"name\": \"'' @ name @ ''\", \"rrType\": \"'' @ rrType @ ''\" }''"

definition deleteRequest :: "'w http_client \<Rightarrow> string \<Rightarrow> string \<Rightarrow> string \<Rightarrow> 'w \<Rightarrow> bool \<times> 'w" where
  "deleteRequest C ip name rrType w =
     (let jsonRR = deleteText name rrType; addr = apiURL ip ''/delete''
      in if \<not> validURL C addr then (False, w)
         else (case clientDo C ''PUT'' addr jsonRR w of
             (Inl err, w') \<Rightarrow> (False, w')
           | (Inr resp, w') \<Rightarrow> (True, w')))"

section \<open>Filling a server\<close>

text \<open>A \<open>for\<close> loop over a range whose body may return from the function (\<open>True\<close>).\<close>

fun forRange :: "('x \<Rightarrow> 's \<Rightarrow> bool \<times> 's) \<Rightarrow> 'x list \<Rightarrow> 's \<Rightarrow> bool \<times> 's" where
  "forRange body [] s = (False, s)"
| "forRange body (x # xs) s =
     (let (ret, s') = body x s in if ret then (True, s') else forRange body xs s')"

text \<open>
  The records sent, each with whether the loop waited for its answer (every second is sent from a
  goroutine), and the counter.
\<close>

type_synonym popState = "(bool \<times> string) list \<times> nat"

definition populateBody :: "int \<Rightarrow> nat \<Rightarrow> nat \<Rightarrow> nat \<Rightarrow> nat \<Rightarrow> popState \<Rightarrow> bool \<times> popState" where
  "populateBody numRR a b c d = (\<lambda>(reqs, i).
     (let reqs' = reqs @ [(d mod 2 \<noteq> 0, benchRecord i a b c d)]; i' = i + 1
      in (int i' = numRR, reqs', i')))"

definition populateDNS :: "int \<Rightarrow> (bool \<times> string) list" where
  "populateDNS numRR = fst (snd (forRange (\<lambda>a.
     forRange (\<lambda>b. forRange (\<lambda>c. forRange (populateBody numRR a b c) [0..<256]) [0..<256]) [0..<256])
     [0..<256] ([], 0)))"

text \<open>\<open>bench.go\<close> has the same function under another name.\<close>

definition populateDNSStore :: "int \<Rightarrow> (bool \<times> string) list" where
  "populateDNSStore numRR = populateDNS numRR"

section \<open>Throughput\<close>

text \<open>The octets of the address a client writes for an index.\<close>

definition octets :: "nat \<Rightarrow> nat \<times> nat \<times> nat \<times> nat" where
  "octets i = (i div 256 div 256 div 256, (i div 256 div 256) mod 256, (i div 256) mod 256, i mod 256)"

definition indexRecord :: "nat \<Rightarrow> string" where
  "indexRecord i = (case octets i of (a, b, c, d) \<Rightarrow> benchRecord i a b c d)"

text \<open>
  One round of a client: a question for an index or a delete and a write for it, with the draws of
  the servers they go to. A client counts the questions that were answered and the writes that
  were sent, until \<open>done\<close> is closed.
\<close>

datatype clientDraw = ReadDraw nat nat | WriteDraw nat nat nat

fun throughputClient ::
    "'w http_client \<Rightarrow> (string \<Rightarrow> string \<Rightarrow> 'w \<Rightarrow> bool \<times> 'w) \<Rightarrow> string list \<Rightarrow> clientDraw list
       \<Rightarrow> nat \<Rightarrow> nat \<Rightarrow> 'w \<Rightarrow> (nat \<times> nat) \<times> 'w" where
  "throughputClient C ask dnsIPs [] readCount writeCount w = ((readCount, writeCount), w)"
| "throughputClient C ask dnsIPs (ReadDraw i r # draws) readCount writeCount w =
     (let (ok, w') = ask (getDNSServerIP dnsIPs r @ '':53'') (benchName i) w
      in throughputClient C ask dnsIPs draws (if ok then readCount + 1 else readCount) writeCount w')"
| "throughputClient C ask dnsIPs (WriteDraw i r1 r2 # draws) readCount writeCount w =
     (let (_, w1) = deleteRequest C (getDNSServerIP dnsIPs r1) (benchName i) ''A'' w;
          (ok, w2) = writeRequest C (getDNSServerIP dnsIPs r2) (indexRecord i) w1
      in throughputClient C ask dnsIPs draws readCount (if ok then writeCount + 1 else writeCount) w2)"

text \<open>The counts of the clients, in the order they arrive.\<close>

definition measureThroughput :: "(nat \<times> nat) list \<Rightarrow> nat \<times> nat" where
  "measureThroughput counts = foldl (\<lambda>(readQueries, writeQueries) (r, w). (readQueries + r, writeQueries + w)) (0, 0) counts"

text \<open>
  The clients of \<open>bench.go\<close>: what a client's ticker reports is the number of answers since the last
  report (the division by the interval is left out). All clients share the channel \<open>tpC\<close>, and each
  of them closes it when it quits.
\<close>

datatype meterEvent = MeterTick | Response bool

fun meterClient :: "nat \<Rightarrow> meterEvent list \<Rightarrow> nat list" where
  "meterClient numResponse [] = []"
| "meterClient numResponse (MeterTick # evs) = numResponse # meterClient 0 evs"
| "meterClient numResponse (Response ok # evs) = meterClient (if ok then numResponse + 1 else numResponse) evs"

datatype tpEvent = TpSend nat | TpClose

fun tpChannel :: "bool \<Rightarrow> tpEvent list \<Rightarrow> nat list go" where
  "tpChannel closed [] = Inr []"
| "tpChannel closed (TpSend v # evs) =
     (if closed then Inl (Panic ''send on closed channel'')
      else go_bind (tpChannel closed evs) (\<lambda>vs. Inr (v # vs)))"
| "tpChannel closed (TpClose # evs) =
     (if closed then Inl (Panic ''close of closed channel'') else tpChannel True evs)"

text \<open>The sums over \<open>numClient\<close> values each, as they are printed.\<close>

fun measureTp :: "nat \<Rightarrow> nat list \<Rightarrow> nat \<Rightarrow> nat \<Rightarrow> nat list" where
  "measureTp numClient [] tp i = []"
| "measureTp numClient (v # vs) tp i =
     (if i + 1 = numClient then (tp + v) # measureTp numClient vs 0 0
      else measureTp numClient vs (tp + v) (i + 1))"

section \<open>Which benchmark runs\<close>

datatype benchRun = RunLatency | RunThroughput | RunPopulate | WrongType

definition benchmarkMain :: "string \<Rightarrow> string \<Rightarrow> string list \<times> benchRun" where
  "benchmarkMain dnsIP benchmarkType = (split CHR '','' dnsIP,
     if benchmarkType = ''latency'' \<or> benchmarkType = ''l'' then RunLatency
     else if benchmarkType = ''throughput'' \<or> benchmarkType = ''t'' then RunThroughput
     else if benchmarkType = ''populate'' \<or> benchmarkType = ''p'' then RunPopulate
     else WrongType)"

definition benchMain :: "string \<Rightarrow> string \<Rightarrow> string list \<times> benchRun" where
  "benchMain dnsIP benchmarkType = (split CHR '','' dnsIP,
     if benchmarkType = ''p'' then RunPopulate else if benchmarkType = ''t'' then RunThroughput else WrongType)"

section \<open>Latency\<close>

fun sumInts :: "int list \<Rightarrow> int \<Rightarrow> int" where
  "sumInts [] result = result"
| "sumInts (v # vs) result = sumInts vs (result + v)"

definition getPercentile :: "int list \<Rightarrow> int \<Rightarrow> int go" where
  "getPercentile vals percentile =
     (let vals' = sort vals; k = int (length vals') * percentile div 100 - 1
      in if k < 0 \<or> int (length vals') \<le> k then Inl (Panic ''index out of range'') else Inr (vals' ! nat k))"

text \<open>The percentiles that are printed, if there is a value.\<close>

definition reportLatencies :: "int list \<Rightarrow> int list go" where
  "reportLatencies latencies =
     (if latencies = [] then Inr []
      else go_bind (getPercentile latencies 50) (\<lambda>p50.
           go_bind (getPercentile latencies 90) (\<lambda>p90.
           go_bind (getPercentile latencies 99) (\<lambda>p99. Inr [p50, p90, p99]))))"

text \<open>The latency of each question, \<open>None\<close> for one that failed.\<close>

definition successes :: "int option list \<Rightarrow> int list" where
  "successes outcomes = List.map_filter (\<lambda>outcome. outcome) outcomes"

definition latencyClient :: "int option list \<Rightarrow> int list go" where
  "latencyClient outcomes =
     (let latencies = sort (successes outcomes)
      in go_bind (reportLatencies latencies) (\<lambda>_. Inr latencies))"

fun collectLatencies :: "int option list list \<Rightarrow> int list go" where
  "collectLatencies [] = Inr []"
| "collectLatencies (outcomes # clients) =
     go_bind (latencyClient outcomes) (\<lambda>l. go_bind (collectLatencies clients) (\<lambda>ls. Inr (l @ ls)))"

definition measureLatency :: "int option list list \<Rightarrow> int list go" where
  "measureLatency clients =
     go_bind (collectLatencies clients) (\<lambda>ls.
       let latencies = sort ls in go_bind (reportLatencies latencies) (\<lambda>_. Inr latencies))"

section \<open>Lemmas: the loops\<close>

lemma forRange_cong:
  "(\<And>x s. x \<in> set xs \<Longrightarrow> f x s = g x s) \<Longrightarrow> forRange f xs s = forRange g xs s"
  by (induction xs arbitrary: s) (auto split: prod.split)

lemma forRange_append:
  "forRange f (xs @ ys) s = (let (ret, s') = forRange f xs s in if ret then (True, s') else forRange f ys s')"
  by (induction xs arbitrary: s) (auto simp: Let_def split: prod.split)

lemma forRange_map: "forRange f (map g xs) s = forRange (\<lambda>x. f (g x)) xs s"
  by (induction xs arbitrary: s) (auto simp: Let_def split: prod.split)

lemma forRange_single: "forRange f [x] s = f x s"
  by (cases "f x s") simp

lemma digit_div: "k mod (b * a) div a = k div a mod (b :: nat)"
  by (cases "a = 0") (simp_all add: mod_mult2_eq mult.commute [of b])

lemma digit_mod: "k mod (b * a) mod a = k mod (a :: nat)"
  by (simp add: mod_mod_cancel)

text \<open>Nested loops are one loop over the numbers their counters are the digits of.\<close>

lemma forRange_nested:
  "0 < n \<Longrightarrow> forRange (\<lambda>x. forRange (f x) [0..<n]) [0..<m] s = forRange (\<lambda>k. f (k div n) (k mod n)) [0..<m * n] s"
proof (induction m arbitrary: s)
  case (Suc m)
  let ?F = "\<lambda>k. f (k div n) (k mod n)"
  have range: "[0..<Suc m * n] = [0..<m * n] @ map (\<lambda>j. j + m * n) [0..<n]"
    using upt_add_eq_append [of 0 "m * n" n] map_add_upt [of "m * n" n] by (simp add: add.commute)
  have "forRange ?F (map (\<lambda>j. j + m * n) [0..<n]) s' = forRange (f m) [0..<n] s'" for s'
    unfolding forRange_map by (rule forRange_cong) simp
  with Suc show ?case unfolding range upt_Suc_append [OF le0] forRange_append forRange_single
    by (simp split: prod.split)
qed simp

text \<open>A loop that counts its rounds and returns when the counter reaches \<open>N\<close>.\<close>

lemma forRange_count:
  assumes "\<And>k reqs i. body k (reqs, i) = (int (i + 1) = N, reqs @ [g k i], i + 1)"
  shows "i \<le> m \<Longrightarrow> fst (snd (forRange body [i..<m] (reqs, i)))
     = reqs @ map (\<lambda>k. g k k) [i..<if int i < N \<and> N \<le> int m then nat N else m]"
proof (induction "m - i" arbitrary: i reqs)
  case (Suc d)
  then have "[i..<m] = i # [Suc i..<m]" by (simp add: upt_conv_Cons)
  with Suc.hyps(1) [of "Suc i" "reqs @ [g i i]"] Suc.hyps(2) Suc.prems show ?case
    by (auto simp: assms upt_conv_Cons [of i])
qed simp

text \<open>The four loops send the record of every index below \<open>numRR\<close>, in order and once.\<close>

lemma populate_ref:
  "populateDNS numRR = map (\<lambda>i. (i mod 2 \<noteq> 0, indexRecord i))
     [0..<if 0 < numRR \<and> numRR \<le> 2 ^ 32 then nat numRR else 2 ^ 32]"
proof -
  let ?B = "populateBody numRR"
  have cd: "forRange (\<lambda>c. forRange (?B a b c) [0..<256]) [0..<256] = forRange (\<lambda>k. ?B a b (k div 256) (k mod 256)) [0..<256 * 256]" for a b
    by (intro ext forRange_nested) simp
  have bcd: "forRange (\<lambda>b. forRange (\<lambda>k. ?B a b (k div 256) (k mod 256)) [0..<256 * 256]) [0..<256]
      = forRange (\<lambda>k. ?B a (k div (256 * 256)) (k mod (256 * 256) div 256) (k mod (256 * 256) mod 256)) [0..<256 * (256 * 256)]" for a
    by (intro ext forRange_nested) simp
  let ?F = "\<lambda>k. ?B (k div (256 * (256 * 256))) (k mod (256 * (256 * 256)) div (256 * 256))
      (k mod (256 * (256 * 256)) mod (256 * 256) div 256) (k mod (256 * (256 * 256)) mod (256 * 256) mod 256)"
  let ?g = "\<lambda>k i. (k mod 2 \<noteq> 0, case octets k of (a, b, c, d) \<Rightarrow> benchRecord i a b c d)"
  have "forRange (\<lambda>a. forRange (\<lambda>k. ?B a (k div (256 * 256)) (k mod (256 * 256) div 256) (k mod (256 * 256) mod 256))
        [0..<256 * (256 * 256)]) [0..<256] = forRange ?F [0..<256 * (256 * (256 * 256))]"
    by (intro ext forRange_nested) simp
  then have loop: "populateDNS numRR = fst (snd (forRange ?F [0..<256 * (256 * (256 * 256))] ([], 0)))"
    unfolding populateDNS_def cd bcd by (rule arg_cong)
  have body: "?F k (reqs, i) = (int (i + 1) = numRR, reqs @ [?g k i], i + 1)" for k reqs i
    by (simp only: populateBody_def octets_def digit_div digit_mod prod.case Let_def)
      (simp add: div_mult2_eq [of _ 256 256, simplified] div_mult2_eq [of _ "256 * 256" 256, simplified] mod_mod_cancel)
  have "(2 :: nat) ^ 32 = 256 * (256 * (256 * 256))" by simp
  then show ?thesis
    unfolding loop forRange_count [OF body le0] indexRecord_def
    by simp
qed

lemma toLower_benchName [simp]: "toLower (benchName i) = benchName i"
proof -
  have "toLowerChar c = c" if "isDigit c" for c
    using that by (auto simp: isDigit_def toLowerChar_def)
  then have "toLower (decimal i) = decimal i"
    using decimal_digits [of i] by (simp add: toLower_def list_all_iff map_idI)
  then show ?thesis by (simp add: benchName_def toLower_def toLowerChar_def)
qed

lemma benchName_inject [simp]: "benchName i = benchName j \<longleftrightarrow> i = j"
  by (simp add: benchName_def)

text \<open>The hand-written JSON of a delete request reads as the request that was meant.\<close>

lemma escape_benchName: "concat (map escapeChar (benchName i)) = benchName i"
proof -
  have "escapeChar c = [c]" if "isDigit c" for c
    using that by (auto simp: isDigit_def escapeChar_def Let_def)
  then have "concat (map escapeChar s) = s" if "list_all isDigit s" for s
    using that by (induction s) simp_all
  then have "concat (map escapeChar (decimal i)) = decimal i" by (simp add: decimal_digits)
  then show ?thesis by (simp add: benchName_def escapeChar_def)
qed

lemma deleteText_decodes:
  "decodeDeletePayload (deleteText (benchName i) ''A'') = Some \<lparr>payload_Name = benchName i, RRTypeString = ''A''\<rparr>"
proof -
  let ?s = "deleteText (benchName i) ''A''"
  have str: "parseString (benchName i @ CHR 0x22 # r) = Some (benchName i, r)" for r
    using parseString_print [of "benchName i" r] by (simp add: escape_benchName)
  obtain m where m: "2 * length ?s + 2 = Suc (Suc (Suc (Suc m)))"
    by (rule that [of "2 * length ?s - 2"]) (simp add: deleteText_def)
  have "parseValue (Suc (Suc (Suc (Suc m)))) ?s = Some (JObject [(''name'', JString (benchName i)), (''rrType'', JString ''A'')], [])"
    by (simp add: deleteText_def skipWs_def isWs_def str)
  then have "decodeJson ?s = Some (JObject [(''name'', JString (benchName i)), (''rrType'', JString ''A'')])"
    unfolding decodeJson_def m by simp
  then show ?thesis
    by (simp add: decodeDeletePayload_def unmarshalField_def toLower_def toLowerChar_def)
qed

lemma delete_accepted:
  "handleDelete G \<lparr>Method = ''PUT'', Body = Inr (deleteText (benchName i) ''A'')\<rparr> s
     = (writeHeader StatusNoContent, ProposeDeleteRRs G (benchName i) TypeA s)"
  by (simp add: handleDelete_def deleteText_decodes deletableType_def)

section \<open>Lemmas: throughput\<close>

text \<open>The server list is never empty, so \<open>rand.Intn\<close> has a positive argument.\<close>

lemma dnsIPs_nonempty: "fst (benchmarkMain ip ty) \<noteq> []" "fst (benchMain ip ty) \<noteq> []"
  by (simp_all add: benchmarkMain_def benchMain_def split_nonempty)

lemma getDNSServerIP_mem: "dnsIPs \<noteq> [] \<Longrightarrow> getDNSServerIP dnsIPs r \<in> set dnsIPs"
  by (simp add: getDNSServerIP_def)

text \<open>No answer is reported twice, and what is not reported came after the last tick.\<close>

lemma meterClient_total:
  "sum_list (meterClient n (evs @ [MeterTick])) = n + length (filter (\<lambda>ev. ev = Response True) evs)"
  by (induction n evs rule: meterClient.induct) auto

text \<open>Each printed sum is over the values of one round of the clients.\<close>

lemma measureTp_round:
  "length vs = numClient - i \<Longrightarrow> i < numClient \<Longrightarrow>
     measureTp numClient (vs @ ws) tp i = (tp + sum_list vs) # measureTp numClient ws 0 0"
  by (induction vs arbitrary: tp i) (auto simp: Suc_diff_Suc less_Suc_eq dest: Suc_lessI)

text \<open>Two clients that quit crash the process: the second closes a closed channel.\<close>

lemma tpChannel_closed_twice:
  "2 \<le> length (filter (\<lambda>ev. ev = TpClose) evs) + (if cl then 1 else 0) \<Longrightarrow> \<exists>msg. tpChannel cl evs = Inl (Panic msg)"
  by (induction cl evs rule: tpChannel.induct) (auto split: if_splits)

text \<open>What a write of \<open>throughputClient\<close> proposes: a delete, then the record again.\<close>

definition writeRound :: "nat \<Rightarrow> dnsProposal list" where
  "writeRound i = [deleteProposal (benchName i) TypeA, addProposal (indexRecord i)]"

lemma map_filter_of_map:
  "(\<And>x. x \<in> set xs \<Longrightarrow> f (g x) = h x) \<Longrightarrow> List.map_filter f (map g xs) = List.map_filter h xs"
  by (induction xs) (auto simp: map_filter_simps split: option.split)

lemma map_filter_single:
  "distinct xs \<Longrightarrow> x \<in> set xs \<Longrightarrow> List.map_filter (\<lambda>y. if y = x then Some (f y) else None) xs = [f x]"
proof -
  have none: "x \<notin> set xs \<Longrightarrow> List.map_filter (\<lambda>y. if y = x then Some (f y) else None) xs = []" for xs
    by (induction xs) (auto simp: map_filter_simps)
  show "distinct xs \<Longrightarrow> x \<in> set xs \<Longrightarrow> List.map_filter (\<lambda>y. if y = x then Some (f y) else None) xs = [f x]"
    by (induction xs) (auto simp: map_filter_simps none)
qed

lemma adds_permuted:
  assumes "mset ps = mset (addRecords ts)"
  obtains ts' where "ps = addRecords ts'" "mset ts' = mset ts"
proof
  let ?ts = "map p_RRString ps"
  have "p = addProposal (p_RRString p)" if "p \<in> set ps" for p
    using that mset_eq_setD [OF assms] by (auto simp: addRecords_def addProposal_def)
  then show "ps = addRecords ?ts" by (auto simp: addRecords_def intro!: nth_equalityI)
  have "mset ?ts = mset (map p_RRString (addRecords ts))" by (simp only: mset_map assms)
  then show "mset ?ts = mset ts" by (simp add: addRecords_def comp_def addProposal_def)
qed

text \<open>The index of an address record in a log of the generator's proposals, in any order.\<close>

lemma logContents_index:
  assumes "\<forall>k < n. parseRR L (indexRecord k) = Some (rr k) \<and> hdr_Name (rr k) = benchName k \<and> hdr_Rrtype (rr k) = TypeA"
    and "mset ps = mset (addRecords (map indexRecord [0..<n]))" "i < n"
  shows "logContents L (benchName i) TypeA ps = [RRString L (rr i)]"
proof -
  let ?f = "\<lambda>x. addedAt L (benchName i) TypeA (addProposal x)"
  obtain ts where ts: "ps = addRecords ts" "mset ts = mset (map indexRecord [0..<n])"
    by (rule adds_permuted [OF assms(2)])
  have "List.map_filter ?f (map indexRecord [0..<n]) = List.map_filter (\<lambda>k. if k = i then Some (RRString L (rr k)) else None) [0..<n]"
    using assms(1) by (intro map_filter_of_map) (auto simp: addedAt_def addProposal_def)
  also have "\<dots> = [RRString L (rr i)]" using assms(3) by (intro map_filter_single) simp_all
  finally have "mset (List.map_filter ?f ts) = {#RRString L (rr i)#}"
    using mset_map_filter [OF ts(2), of ?f] by simp
  then show ?thesis by (simp add: ts(1) logContents_addRecords)
qed

lemma logContents_rounds:
  assumes "\<forall>k \<in> set rounds. parseRR L (indexRecord k) = Some (rr k) \<and> hdr_Name (rr k) = benchName k \<and> hdr_Rrtype (rr k) = TypeA"
    and "logContents L (benchName i) TypeA ps = [RRString L (rr i)]"
  shows "logContents L (benchName i) TypeA (ps @ concat (map writeRound rounds)) = [RRString L (rr i)]"
  using assms(1)
proof (induction rounds rule: rev_induct)
  case (snoc k rounds)
  let ?qs = "ps @ concat (map writeRound rounds)"
  have "logContents L (benchName i) TypeA ((?qs @ [deleteProposal (benchName k) TypeA]) @ [addProposal (indexRecord k)])
      = (if k = i then [RRString L (rr i)] else logContents L (benchName i) TypeA ?qs)"
    unfolding logContents_snoc using snoc.prems
    by (auto simp: deletes_def addedAt_def addProposal_def deleteProposal_def)
  moreover have "ps @ concat (map writeRound (rounds @ [k]))
      = (?qs @ [deleteProposal (benchName k) TypeA]) @ [addProposal (indexRecord k)]" by (simp add: writeRound_def)
  ultimately show ?case using snoc by simp
qed (simp add: assms(2))

text \<open>The value at a percentile has the rank that goes with it, rounded down.\<close>

lemma percentile_rank:
  assumes "getPercentile vals p = Inr x"
  shows "length (filter (\<lambda>v. v < x) vals) < nat (int (length vals) * p div 100) \<and>
    nat (int (length vals) * p div 100) \<le> length (filter (\<lambda>v. v \<le> x) vals)"
proof -
  let ?vs = "sort vals"
  define K where "K = int (length vals) * p div 100"
  have K: "0 < K" "K \<le> int (length vals)" "x = ?vs ! nat (K - 1)"
    using assms by (auto simp: getPercentile_def Let_def K_def split: if_splits)
  define k where "k = nat (K - 1)"
  have k: "nat (int (length vals) * p div 100) = Suc k" "k < length ?vs" and x: "x = ?vs ! k"
    using K unfolding K_def [symmetric] k_def by simp_all
  have split: "length (filter P vals) = length (filter P (take (Suc k) ?vs)) + length (filter P (drop (Suc k) ?vs))" for P
  proof -
    have "length (filter P vals) = length (filter P ?vs)" by (metis filter_sort length_sort)
    also have "\<dots> = length (filter P (take (Suc k) ?vs @ drop (Suc k) ?vs))" by simp
    finally show ?thesis unfolding filter_append length_append .
  qed
  have "\<forall>v \<in> set (take (Suc k) ?vs). v \<le> x"
    using k by (auto simp: x in_set_conv_nth less_Suc_eq_le intro!: sorted_nth_mono)
  then have le: "filter (\<lambda>v. v \<le> x) (take (Suc k) ?vs) = take (Suc k) ?vs" by simp
  have "\<forall>v \<in> set (drop (Suc k) ?vs). \<not> v < x"
    using k by (auto simp: x in_set_conv_nth not_less intro!: sorted_nth_mono)
  then have "filter (\<lambda>v. v < x) (drop (Suc k) ?vs) = []" by (simp add: filter_empty_conv)
  moreover have "x \<in> set (take (Suc k) ?vs)" using k by (auto simp: x in_set_conv_nth)
  then have "length (filter (\<lambda>v. v < x) (take (Suc k) ?vs)) < length (take (Suc k) ?vs)"
    by (intro length_filter_less [of x]) simp_all
  ultimately show ?thesis using k le unfolding split by simp
qed

lemma getPercentile_returns:
  assumes "100 \<le> int (length vals) * p" "p \<le> 100"
  shows "\<exists>x. getPercentile vals p = Inr x"
proof -
  have "int (length vals) * p \<le> int (length vals) * 100" using assms(2) by (intro mult_left_mono) simp_all
  then have "int (length vals) * p div 100 \<le> int (length vals)"
    using zdiv_mono1 [of "int (length vals) * p" "int (length vals) * 100" 100] by simp
  moreover have "1 \<le> int (length vals) * p div 100" using zdiv_mono1 [OF assms(1), of 100] by simp
  ultimately show ?thesis by (simp add: getPercentile_def Let_def)
qed

lemma reportLatencies_cases:
  "length ls = 1 \<Longrightarrow> reportLatencies ls = Inl (Panic ''index out of range'')"
  "length ls \<noteq> 1 \<Longrightarrow> \<exists>ps. reportLatencies ls = Inr ps"
proof -
  show "reportLatencies ls = Inl (Panic ''index out of range'')" if "length ls = 1"
    using that by (auto simp: reportLatencies_def getPercentile_def)
  show "\<exists>ps. reportLatencies ls = Inr ps" if "length ls \<noteq> 1"
  proof (cases "ls = []")
    case False
    with that have "2 \<le> length ls" by (cases ls) (auto simp: Suc_le_eq)
    with getPercentile_returns [of ls 50] getPercentile_returns [of ls 90] getPercentile_returns [of ls 99]
    show ?thesis using False by (auto simp: reportLatencies_def)
  qed (simp add: reportLatencies_def)
qed

lemma latencyClient_cases:
  "latencyClient outcomes = (if length (successes outcomes) = 1 then Inl (Panic ''index out of range'')
     else Inr (sort (successes outcomes)))"
  using reportLatencies_cases [of "sort (successes outcomes)"] by (auto simp: latencyClient_def Let_def)

lemma collectLatencies_cases:
  "collectLatencies clients =
     (if \<exists>outcomes \<in> set clients. length (successes outcomes) = 1 then Inl (Panic ''index out of range'')
      else Inr (concat (map (\<lambda>l. sort (successes l)) clients)))"
  by (induction clients) (simp_all add: latencyClient_cases)

lemma length_concat_neq_1:
  "\<forall>x \<in> set xs. length (f x) \<noteq> 1 \<Longrightarrow> length (concat (map f xs)) \<noteq> 1"
  by (induction xs) (auto simp: add_is_1)

text \<open>What the records of the indices below \<open>numRR\<close> have to be read as.\<close>

definition readsIndices :: "dns_lib \<Rightarrow> int \<Rightarrow> (nat \<Rightarrow> dnsRR) \<Rightarrow> bool" where
  "readsIndices L numRR rr \<longleftrightarrow> (\<forall>i. int i < numRR \<longrightarrow> parseRR L (indexRecord i) = Some (rr i) \<and>
     hdr_Name (rr i) = benchName i \<and> hdr_Rrtype (rr i) = TypeA)"

lemma populated:
  assumes "0 < numRR" "numRR \<le> 2 ^ 32"
  shows "populateDNS numRR = map (\<lambda>i. (i mod 2 \<noteq> 0, indexRecord i)) [0..<nat numRR]"
  unfolding populate_ref using assms by (simp del: upt.simps)

lemma load_requests_accepted:
  assumes "0 < numRR" "numRR \<le> 2 ^ 32" "readsIndices L numRR rr" "int i < numRR"
  shows "\<exists>waits. (waits, indexRecord i) \<in> set (populateDNS numRR)"
    and "handleAdd L G \<lparr>Method = ''PUT'', Body = Inr (indexRecord i)\<rparr> s
      = (writeHeader StatusNoContent, ProposeAddRR G (indexRecord i) s)"
proof -
  have "(i mod 2 \<noteq> 0, indexRecord i) \<in> set (populateDNS numRR)"
    unfolding populated [OF assms(1,2)] set_map by (rule imageI) (use assms(4) in \<open>simp del: upt.simps\<close>)
  then show "\<exists>waits. (waits, indexRecord i) \<in> set (populateDNS numRR)" by blast
  show "handleAdd L G \<lparr>Method = ''PUT'', Body = Inr (indexRecord i)\<rparr> s
      = (writeHeader StatusNoContent, ProposeAddRR G (indexRecord i) s)"
    using assms(3,4) by (simp add: readsIndices_def handleAdd_def checkValidRRString_iff)
qed

text \<open>The log of a load test: the proposals of the filling in some order, then rounds of writes.\<close>

definition loadLog :: "int \<Rightarrow> nat list \<Rightarrow> dnsProposal list \<Rightarrow> bool" where
  "loadLog numRR rounds qs \<longleftrightarrow> (\<exists>ps. mset ps = mset (addRecords (map snd (populateDNS numRR))) \<and>
     (\<forall>k \<in> set rounds. int k < numRR) \<and> qs = ps @ concat (map writeRound rounds))"

lemma loadLog_valid: "loadLog numRR rounds qs \<Longrightarrow> \<forall>p \<in> set qs. valid_proposal p"
proof -
  assume "loadLog numRR rounds qs"
  then obtain ps where "mset ps = mset (addRecords (map snd (populateDNS numRR)))"
    and qs: "qs = ps @ concat (map writeRound rounds)" unfolding loadLog_def by blast
  then have "set ps = set (addRecords (map snd (populateDNS numRR)))" by (blast dest: mset_eq_setD)
  then show ?thesis
    by (auto simp: qs addRecords_def writeRound_def valid_proposal_def addProposal_def deleteProposal_def)
qed

lemma loadLog_contents:
  assumes "0 < numRR" "numRR \<le> 2 ^ 32" "readsIndices L numRR rr" "loadLog numRR rounds qs" "int i < numRR"
  shows "logContents L (benchName i) TypeA qs = [RRString L (rr i)]"
proof -
  obtain ps where ps: "mset ps = mset (addRecords (map snd (populateDNS numRR)))"
    "\<forall>k \<in> set rounds. int k < numRR" "qs = ps @ concat (map writeRound rounds)"
    using assms(4) unfolding loadLog_def by blast
  have rr: "\<forall>k < nat numRR. parseRR L (indexRecord k) = Some (rr k) \<and> hdr_Name (rr k) = benchName k \<and> hdr_Rrtype (rr k) = TypeA"
    using assms(3) by (simp add: readsIndices_def)
  have "logContents L (benchName i) TypeA ps = [RRString L (rr i)]"
    using ps(1) assms(5) by (intro logContents_index [OF rr]) (simp_all add: populated [OF assms(1,2)] comp_def)
  then show ?thesis
    unfolding ps(3) using assms(3) ps(2) by (intro logContents_rounds) (auto simp: readsIndices_def)
qed

lemma load_question_answered:
  assumes "rr_text_roundtrip L" "readsIndices L numRR rr" "int i < numRR"
    and "rrsAt (store s) (benchName i) TypeA = [RRString L (rr i)]"
  shows "HandleSingleQuestion L E (benchName i) TypeA r s = Some (True, r\<lparr>Answer := Answer r @ [rr i]\<rparr>, s)"
proof -
  have "parseRR L (RRString L (rr i)) = Some (rr i)"
    using assms(2,3) unfolding readsIndices_def by (blast intro: rr_text_roundtrip_same [OF assms(1)])
  then show ?thesis using HandleSingleQuestion_exact [of L s "benchName i" TypeA E r] assms(4) by simp
qed

section \<open>Properties\<close>


text \<open>The sample format, which also reads \<open>name IN A address\<close> with the default TTL.\<close>

definition zoneParse :: "string \<Rightarrow> string + dnsRR option" where
  "zoneParse s = (case split CHR '' '' s of
       [n, cl, ty, d] \<Rightarrow>
         if cl = ''IN'' \<and> ty = ''A''
         then Inr (Some \<lparr>hdr_Name = n, hdr_Rrtype = TypeA, hdr_Ttl = 3600, rr_data = sampleData TypeA d\<rparr>)
         else sampleParse s
     | _ \<Rightarrow> sampleParse s)"

definition zoneLib :: dns_lib where
  "zoneLib = \<lparr>NewRR = zoneParse, RRString = sampleString\<rparr>"

lemma decimal_neq_IN: "decimal n \<noteq> ''IN''"
  using decimal_digits [of n] by (auto simp: isDigit_def)

lemma zoneParse_String:
  assumes "CHR '' '' \<notin> set n" "CHR '' '' \<notin> set d"
  shows "zoneParse (sampleString \<lparr>hdr_Name = n, hdr_Rrtype = ty, hdr_Ttl = t, rr_data = sampleData ty d\<rparr>)
         = Inr (Some \<lparr>hdr_Name = n, hdr_Rrtype = ty, hdr_Ttl = t, rr_data = sampleData ty d\<rparr>)"
  using assms decimal_no_blank sampleParse_String [OF assms]
  by (simp add: zoneParse_def sampleString_def split_Cons split_no_sep decimal_neq_IN)

lemma zoneLib_roundtrip: "rr_text_roundtrip zoneLib"
  unfolding rr_text_roundtrip_def
proof (intro allI impI)
  fix s rr t
  assume "parseRR zoneLib s = Some rr"
  then have parse: "zoneParse s = Inr (Some rr)" by (auto simp: parseRR_def zoneLib_def split: sum.splits)
  have "\<exists>n ty t' d. CHR '' '' \<notin> set n \<and> CHR '' '' \<notin> set d \<and>
      rr = \<lparr>hdr_Name = n, hdr_Rrtype = ty, hdr_Ttl = t', rr_data = sampleData ty d\<rparr>"
  proof (cases "sampleParse s = Inr (Some rr)")
    case False
    then obtain n cl ty d where sp: "split CHR '' '' s = [n, cl, ty, d]"
      and "rr = \<lparr>hdr_Name = n, hdr_Rrtype = TypeA, hdr_Ttl = 3600, rr_data = sampleData TypeA d\<rparr>"
      using parse by (auto simp: zoneParse_def split: list.splits if_splits)
    moreover have "n \<in> set (split CHR '' '' s)" "d \<in> set (split CHR '' '' s)" using sp by simp_all
    ultimately show ?thesis by (blast dest: split_no_sep_elem)
  qed (blast dest: sampleParse_SomeD)
  then obtain n ty t' d where "CHR '' '' \<notin> set n" "CHR '' '' \<notin> set d"
    "rr = \<lparr>hdr_Name = n, hdr_Rrtype = ty, hdr_Ttl = t', rr_data = sampleData ty d\<rparr>" by blast
  then show "parseRR zoneLib (RRString zoneLib (rr\<lparr>hdr_Ttl := t\<rparr>)) = Some (rr\<lparr>hdr_Ttl := t\<rparr>)"
    by (simp add: parseRR_def zoneLib_def zoneParse_String)
qed

definition indexRR :: "nat \<Rightarrow> dnsRR" where
  "indexRR i = (case octets i of (a, b, c, d) \<Rightarrow>
     \<lparr>hdr_Name = benchName i, hdr_Rrtype = TypeA, hdr_Ttl = 3600,
      rr_data = sampleData TypeA (decimal a @ ''.'' @ decimal b @ ''.'' @ decimal c @ ''.'' @ decimal d)\<rparr>)"

lemma zoneLib_index:
  "parseRR zoneLib (indexRecord i) = Some (indexRR i)" "hdr_Name (indexRR i) = benchName i" "hdr_Rrtype (indexRR i) = TypeA"
proof -
  obtain a b c d where o: "octets i = (a, b, c, d)" by (cases "octets i")
  let ?ip = "decimal a @ ''.'' @ decimal b @ ''.'' @ decimal c @ ''.'' @ decimal d"
  have "CHR '' '' \<notin> set (benchName i)" "CHR '' '' \<notin> set ?ip"
    using decimal_no_blank by (simp_all add: benchName_def)
  moreover have "indexRecord i = benchName i @ CHR '' '' # ''IN'' @ CHR '' '' # ''A'' @ CHR '' '' # ?ip"
    by (simp add: indexRecord_def benchRecord_def o)
  ultimately have "split CHR '' '' (indexRecord i) = [benchName i, ''IN'', ''A'', ?ip]"
    by (simp add: split_Cons split_no_sep)
  then show "parseRR zoneLib (indexRecord i) = Some (indexRR i)"
    by (simp add: parseRR_def zoneLib_def zoneParse_def indexRR_def o)
  show "hdr_Name (indexRR i) = benchName i" "hdr_Rrtype (indexRR i) = TypeA" by (simp_all add: indexRR_def o)
qed


text \<open>
  The latency benchmark crashes on a client with a single answer: percentiles are taken at the
  index \<open>len * p / 100 - 1\<close>, which is negative for fewer than two values; so the run ends in a panic
  exactly when some client got one answer, and otherwise returns all latencies in order.
\<close>

theorem latency_panics_iff_single_answer:
  "measureLatency clients =
     (if \<exists>outcomes \<in> set clients. length (successes outcomes) = 1
      then Inl (Panic ''index out of range'')
      else Inr (sort (concat (map successes clients))))"
proof (cases "\<exists>outcomes \<in> set clients. length (successes outcomes) = 1")
  case True
  then show ?thesis by (simp add: measureLatency_def collectLatencies_cases)
next
  case False
  let ?ls = "concat (map (\<lambda>l. sort (successes l)) clients)"
  have "length (sort ?ls) \<noteq> 1"
    using False length_concat_neq_1 [of clients "\<lambda>l. sort (successes l)"] by simp
  from reportLatencies_cases(2) [OF this] obtain ps where "reportLatencies (sort ?ls) = Inr ps" by blast
  moreover have "mset ?ls = mset (concat (map successes clients))" by (induction clients) simp_all
  then have "sort ?ls = sort (concat (map successes clients))"
    by (metis mset_sort properties_for_sort sorted_sort)
  ultimately show ?thesis using False by (simp add: measureLatency_def collectLatencies_cases)
qed

end
