(* ===== verification/Processes.thy ===== *)
theory Processes
  imports Http_Api Raft_Start
begin

text \<open>
  The processes: what \<open>main\<close> of a name server (\<open>dns/main.go\<close>) and of the example (\<open>example/main.go\<close>)
  start, in order, and the tool that starts and kills a name server on request
  (\<open>dns/tools/remote_shutdown.go\<close>), whose two handlers share the variable \<open>running\<close> without a lock.
\<close>

section \<open>A name server\<close>

record dnsFlags =
  fl_cluster :: string
  fl_id :: int
  fl_port :: nat
  fl_join :: bool
  fl_migrate :: bool
  fl_hash :: string
  fl_config :: string
  fl_page :: bool

datatype main_call =
    NewRaftNode int "string list" bool | NewDNSStore "string list" int | NewPagedDNSStore "string list" int
  | NewKVStore | ServeUDP string | MigrateDNS string string | ServeHTTP nat

text \<open>The calls made, and whether \<open>main\<close> got to the last of them.\<close>

definition dnsMain :: "dnsFlags \<Rightarrow> main_call list \<times> unit go" where
  "dnsMain f =
     (let peers = split CHR '','' (fl_cluster f); raft = NewRaftNode (fl_id f) peers (fl_join f)
      in case clusterIPs (fl_port f) peers of
           Inl err \<Rightarrow> ([raft], Inl err)
         | Inr clusterIP \<Rightarrow>
             if fl_page f
             then ([raft, NewPagedDNSStore clusterIP (fl_id f), ServeUDP '':53'', ServeHTTP (fl_port f)], Inr ())
             else ([raft, NewDNSStore clusterIP (fl_id f), ServeUDP ''0.0.0.0:53''] @
                   (if fl_migrate f then [MigrateDNS (fl_hash f) (fl_config f)] else []) @
                   [ServeHTTP (fl_port f)], Inr ()))"

definition exampleMain :: "string \<Rightarrow> int \<Rightarrow> nat \<Rightarrow> bool \<Rightarrow> main_call list" where
  "exampleMain peerURLs i kvport join =
     [NewRaftNode i (split CHR '','' peerURLs) join, NewKVStore, ServeHTTP kvport]"

text \<open>The handler \<open>serveUDPAPI\<close> registers: the reply sent for a request, if the code returns.\<close>

definition udpHandler ::
    "dns_lib \<Rightarrow> env \<Rightarrow> (dnsMsg \<Rightarrow> dnsMsg) \<Rightarrow> (dnsMsg \<Rightarrow> dnsMsg option) \<Rightarrow> dnsMsg \<Rightarrow> dnsStore
       \<Rightarrow> (dnsMsg list \<times> dnsStore) option" where
  "udpHandler L E setReply exchange r s =
     map_option (\<lambda>(res, s'). ([res], s')) (ProcessDNSQuery L E setReply exchange r s)"

text \<open>The lines \<open>PrintClusterConfig\<close> prints.\<close>

definition PrintClusterConfig :: "jsonClusterInfo list \<Rightarrow> string list" where
  "PrintClusterConfig clusters = concat (map (\<lambda>c. ClusterToken c #
     concat (map (\<lambda>m. [CHR 0x09 # '' '' @ NsName m, CHR 0x09 # '' '' @ GlueRecord m]) (Members c))) clusters)"

lemma clusterIPs_nth:
  "clusterIPs port ips = Inr as \<Longrightarrow> length as = length ips \<and> (\<forall>i < length ips. peerAddress port (ips ! i) = Inr (as ! i))"
proof (induction port ips arbitrary: as rule: clusterIPs.induct)
  case (2 port ip ips)
  then obtain a as' where "peerAddress port ip = Inr a" "clusterIPs port ips = Inr as'" "as = a # as'"
    by (auto simp: go_bind_Inr_iff)
  with 2 show ?case by (auto simp: nth_Cons split: nat.split)
qed simp

lemma clusterIPs_short: "ip \<in> set ips \<Longrightarrow> length ip < 4 \<Longrightarrow> \<exists>msg. clusterIPs port ips = Inl (Panic msg)"
  by (induction ips) (auto simp: peerAddress_def)

text \<open>
  The store's list of machines has one address for each raft peer, in the same order, so that entry
  \<open>id - 1\<close>, which \<open>whisperAddCacheRecord\<close> leaves out, is the server's own.
\<close>

lemma dnsMain_addresses:
  assumes "dnsMain f = (cs, Inr ())"
  shows "\<exists>as. length as = length (split CHR '','' (fl_cluster f)) \<and>
     (\<forall>i < length as. peerAddress (fl_port f) (split CHR '','' (fl_cluster f) ! i) = Inr (as ! i)) \<and>
     (NewDNSStore as (fl_id f) \<in> set cs \<or> NewPagedDNSStore as (fl_id f) \<in> set cs)"
  using assms clusterIPs_nth [of "fl_port f" "split CHR '','' (fl_cluster f)"]
  by (fastforce simp: dnsMain_def Let_def split: sum.splits if_splits)

text \<open>The paged server ignores \<open>--migrate\<close>, \<open>--hash\<close> and \<open>--config\<close>.\<close>

lemma paged_never_migrates: "fl_page f \<Longrightarrow> dnsMain f = (cs, e) \<Longrightarrow> MigrateDNS h c \<notin> set cs"
  by (auto simp: dnsMain_def Let_def split: sum.splits)

section \<open>Starting and killing a server\<close>

text \<open>\<open>started\<close> are the arguments of the processes started, oldest first, \<open>alive\<close> those not killed.\<close>

record control =
  running :: bool
  proc :: "nat option"
  started :: "string list list"
  alive :: "nat set"

definition initControl :: control where
  "initControl = \<lparr>running = False, proc = None, started = [], alive = {}\<rparr>"

definition start_dnsserver ::
    "bool \<Rightarrow> http_request \<Rightarrow> control \<Rightarrow> (http_response \<times> control) go" where
  "start_dnsserver canStart req k =
     (if running k then Inr (writeString [], k)
      else case Body req of
          Inl err \<Rightarrow> Inr (badRequest ''Bad start body'', k)
        | Inr argvstr \<Rightarrow>
            (let argv = split CHR '' '' argvstr; n = length (started k)
             in if \<not> canStart then Inl (Fatal ''exec'')
                else Inr (writeString (''Starting running dns_server with argument '' @ argvstr @ [CHR 0x0A]),
                          k\<lparr>running := True, proc := Some n, started := started k @ [argv], alive := insert n (alive k)\<rparr>)))"

definition kill_dnsserver :: "bool \<Rightarrow> control \<Rightarrow> (http_response \<times> control) go" where
  "kill_dnsserver canKill k =
     (if \<not> running k then Inr (writeString [], k)
      else case proc k of
          None \<Rightarrow> Inl (Panic ''nil pointer dereference'')
        | Some n \<Rightarrow>
            if \<not> canKill then Inl (Fatal ''kill'')
            else Inr (writeString (''Killed the running dns_server'' @ [CHR 0x0A]),
                      k\<lparr>running := False, alive := alive k - {n}\<rparr>))"

text \<open>Requests handled one after the other.\<close>

inductive controlled :: "control \<Rightarrow> bool" where
  init: "controlled initControl"
| start: "controlled k \<Longrightarrow> start_dnsserver b req k = Inr (resp, k') \<Longrightarrow> controlled k'"
| kill: "controlled k \<Longrightarrow> kill_dnsserver b k = Inr (resp, k') \<Longrightarrow> controlled k'"

text \<open>At most one server is alive then, the last one started, and exactly if \<open>running\<close> says so.\<close>

lemma controlled_alive:
  "controlled k \<Longrightarrow> alive k = (if running k then {length (started k) - 1} else {}) \<and>
     (running k \<longrightarrow> started k \<noteq> [] \<and> proc k = Some (length (started k) - 1))"
proof (induction rule: controlled.induct)
  case (start k b req resp k')
  then show ?case by (auto simp: start_dnsserver_def Let_def split: if_splits sum.splits)
next
  case (kill k b resp k')
  then show ?case by (auto simp: kill_dnsserver_def split: if_splits option.splits)
qed (simp add: initControl_def)

text \<open>So a kill never meets a nil command.\<close>

lemma kill_never_panics: "controlled k \<Longrightarrow> kill_dnsserver b k \<noteq> Inl (Panic msg)"
  using controlled_alive [of k] by (auto simp: kill_dnsserver_def)

end
